(* ===== verification/Prelude.thy ===== *)
theory Prelude
  imports Main "HOL-Library.List_Lexorder" "HOL-Library.Char_ord" "HOL-Library.Word"
begin

text \<open>
  Shared vocabulary of the oncekv development.

  \<^item> Go errors. The program compares errors by identity with a few package-level variables
    (\<open>config.ErrDataNotFound\<close>, \<open>client.ErrTimeout\<close>, ...), and every other error is made afresh
    by \<open>fmt.Errorf\<close> or \<open>errors.New\<close>, or handed over by a library. \<open>Sentinel\<close> is such a variable,
    under its package-qualified name; \<open>Errorf\<close> is a fresh error with its message, equal to no
    sentinel; \<open>GoPanic\<close> is a run-time panic.
  \<^item> \<open>'a result\<close> is a Go pair \<open>(value, error)\<close> of which the caller uses one side only, and
    \<open>go_error option\<close> is a bare \<open>error\<close> with \<open>None\<close> for \<open>nil\<close>.
  \<^item> Go strings and byte slices that carry text are \<open>string\<close> (a \<open>char\<close> is a byte), ordered
    bytewise by the lexicographic order of the library, as Go's \<open><\<close> on strings is.
    A nil and an empty slice are both \<open>[]\<close>.
  \<^item> Go maps with string keys are association lists kept in strictly increasing key order
    (\<open>gomap\<close>), so that equal maps are equal lists. Their iteration order never shows:
    the program sorts what it collects from a map.
\<close>

named_theorems gomap_simps
named_theorems json_simps
named_theorems meta_simps

section \<open>Errors and results\<close>

datatype go_error = Sentinel string | Errorf string | GoPanic string

type_synonym 'a result = "go_error + 'a"
type_synonym error = "go_error option"

abbreviation Err :: "go_error \<Rightarrow> 'a result" where "Err \<equiv> Inl"
abbreviation Ok :: "'a \<Rightarrow> 'a result" where "Ok \<equiv> Inr"

definition ErrDataNotFound :: go_error where
  "ErrDataNotFound = Sentinel ''config.ErrDataNotFound''"

fun err_of :: "'a result \<Rightarrow> error" where
  "err_of (Inl e) = Some e"
| "err_of (Inr _) = None"

text \<open>What \<open>%s\<close> and \<open>%v\<close> print of an error.\<close>

fun err_text :: "go_error \<Rightarrow> string" where
  "err_text (Sentinel s) = s"
| "err_text (Errorf s) = s"
| "err_text (GoPanic s) = s"

lemma err_of_None [simp]: "err_of r = None \<longleftrightarrow> (\<exists>x. r = Inr x)"
  by (cases r) auto

section \<open>HTTP\<close>

text \<open>
  A response as the program reads it: the status code and the outcome of \<open>ioutil.ReadAll\<close> on
  the body. A getter or poster (\<open>utils/mock/http.go\<close>) is the function the package variables
  \<open>httpGetter\<close>, \<open>httpPoster\<close>, \<open>defaultGetter\<close> and \<open>defaultPoster\<close> hold.
\<close>

record http_response =
  StatusCode :: nat
  Body :: "string result"

type_synonym HTTPGetter = "string \<Rightarrow> http_response result"
type_synonym HTTPPoster = "string \<Rightarrow> string \<Rightarrow> http_response result"

abbreviation StatusOK_http :: nat where "StatusOK_http \<equiv> 200"
abbreviation StatusBadRequest :: nat where "StatusBadRequest \<equiv> 400"
abbreviation StatusNotFound :: nat where "StatusNotFound \<equiv> 404"
abbreviation StatusInternalServerError :: nat where "StatusInternalServerError \<equiv> 500"

section \<open>Lists\<close>

lemma sorted_filter_id: "sorted xs \<Longrightarrow> sorted (filter P xs)" for xs :: "'a::linorder list"
  using sorted_filter [of "\<lambda>x. x" xs P] by simp

lemma sort_filter_eq: "sort (filter P xs) = filter P (sort xs)" for xs :: "'a::linorder list"
  using filter_sort [of P "\<lambda>x. x" xs] by simp

lemma sorted_lt_filter:
  "sorted_wrt (<) xs \<Longrightarrow> sorted_wrt (<) (filter P xs)" for xs :: "'a::linorder list"
  by (rule sorted_wrt_filter)

lemma takeWhile_append_stop:
  "\<forall>x\<in>set xs. P x \<Longrightarrow> \<not> P y \<Longrightarrow> takeWhile P (xs @ y # ys) = xs"
  by (induction xs) auto

lemma set_dropWhile_less:
  "sorted xs \<Longrightarrow> set (dropWhile (\<lambda>x. x < k) xs) = {x \<in> set xs. k \<le> x}" for xs :: "'a::linorder list"
  by (induction xs) (auto simp: not_less)

lemma sorted_le_last: "sorted xs \<Longrightarrow> x \<in> set xs \<Longrightarrow> x \<le> last xs" for xs :: "'a::linorder list"
  by (induction xs) auto

lemma set_takeWhile_le:
  "sorted xs \<Longrightarrow> set (takeWhile (\<lambda>x. x \<le> m) xs) = {x \<in> set xs. x \<le> m}" for xs :: "'a::linorder list"
  by (induction xs) fastforce+

section \<open>Decimal numerals\<close>

text \<open>\<open>strconv.Itoa\<close> and the \<open>%d\<close> verb.\<close>

function decimal :: "nat \<Rightarrow> string" where
  "decimal n = (if n < 10 then [char_of (48 + n)] else decimal (n div 10) @ [char_of (48 + n mod 10)])"
  by pat_completeness auto
termination
  by (relation "measure (\<lambda>n. n)") auto

declare decimal.simps [simp del]

definition Itoa :: "int \<Rightarrow> string" where
  "Itoa i = (if i < 0 then CHR ''-'' # decimal (nat (- i)) else decimal (nat i))"

definition decimal_value :: "string \<Rightarrow> nat" where
  "decimal_value s = foldl (\<lambda>a c. 10 * a + (of_char c - 48)) 0 s"

lemma decimal_value_decimal: "decimal_value (decimal n) = n"
proof (induction n rule: decimal.induct)
  case (1 n)
  show ?case
  proof (cases "n < 10")
    case True
    then show ?thesis by (subst decimal.simps) (simp add: decimal_value_def)
  next
    case False
    with 1 have "decimal_value (decimal (n div 10)) = n div 10" by simp
    with False show ?thesis
      by (subst decimal.simps) (simp add: decimal_value_def)
  qed
qed

lemma decimal_inj [simp]: "decimal m = decimal n \<longleftrightarrow> m = n"
  by (metis decimal_value_decimal)

lemma decimal_digits: "\<forall>c\<in>set (decimal n). 48 \<le> (of_char c :: nat) \<and> (of_char c :: nat) \<le> 57"
proof (induction n rule: decimal.induct)
  case (1 n)
  then show ?case by (subst decimal.simps) (auto simp: less_Suc_eq_le)
qed

lemma decimal_not_Nil [simp]: "decimal n \<noteq> []"
  by (subst decimal.simps) simp

text \<open>There are no leading zeros.\<close>

lemma decimal_no_zero: "(hd (decimal n) = CHR ''0'' \<longrightarrow> tl (decimal n) = []) \<and> (0 < n \<longrightarrow> hd (decimal n) \<noteq> CHR ''0'')"
proof (induction n rule: decimal.induct)
  case (1 n)
  show ?case
  proof (cases "n < 10")
    case True
    have "(of_char (char_of (48 + n)) :: nat) = 48 + n" using True by simp
    moreover have "(of_char (CHR ''0'') :: nat) = 48" by simp
    ultimately have "char_of (48 + n) \<noteq> CHR ''0''" if "0 < n" using that by (metis add_cancel_right_right less_irrefl)
    with True show ?thesis by (subst (1 2 3) decimal.simps) simp
  next
    case False
    with 1 show ?thesis by (subst (1 2 3) decimal.simps) simp
  qed
qed

lemma decimal_hd: "decimal n \<noteq> CHR ''-'' # s"
  using decimal_digits [of n] by auto

lemma Itoa_inj [simp]: "Itoa i = Itoa j \<longleftrightarrow> i = j"
  using decimal_hd by (auto simp: Itoa_def) (metis decimal_hd)+

section \<open>Maps with string keys\<close>

type_synonym 'v gomap = "(string \<times> 'v) list"

fun map_put :: "'k::linorder \<Rightarrow> 'v \<Rightarrow> ('k \<times> 'v) list \<Rightarrow> ('k \<times> 'v) list" where
  "map_put k v [] = [(k, v)]"
| "map_put k v (p # m) =
     (if fst p < k then p # map_put k v m
      else if fst p = k then (k, v) # m
      else (k, v) # p # m)"

definition map_delete :: "'k \<Rightarrow> ('k \<times> 'v) list \<Rightarrow> ('k \<times> 'v) list" where
  "map_delete k m = filter (\<lambda>p. fst p \<noteq> k) m"

definition map_keys :: "('k \<times> 'v) list \<Rightarrow> 'k list" where
  "map_keys m = map fst m"

definition gomap_wf :: "('k::linorder \<times> 'v) list \<Rightarrow> bool" where
  "gomap_wf m \<longleftrightarrow> sorted_wrt (<) (map_keys m)"

text \<open>Go's \<open>m[k]\<close> on a map of strings: the zero value where the key is absent.\<close>

definition map_index :: "string gomap \<Rightarrow> string \<Rightarrow> string" where
  "map_index m k = (case map_of m k of None \<Rightarrow> [] | Some v \<Rightarrow> v)"

lemma map_keys_simps [gomap_simps, simp]:
  "map_keys [] = []"
  "map_keys (p # m) = fst p # map_keys m"
  by (simp_all add: map_keys_def)

lemma set_map_keys: "set (map_keys m) = dom (map_of m)"
  by (simp add: map_keys_def dom_map_of_conv_image_fst)

lemma map_of_map_put [gomap_simps, simp]: "map_of (map_put k v m) = (map_of m)(k \<mapsto> v)"
  by (induction m) (auto simp: fun_eq_iff)

lemma map_of_map_delete [gomap_simps, simp]: "map_of (map_delete k m) = (map_of m)(k := None)"
  by (induction m) (auto simp: map_delete_def fun_eq_iff)

lemma set_keys_map_put [simp]: "set (map_keys (map_put k v m)) = insert k (set (map_keys m))"
  by (auto simp: set_map_keys)

lemma map_keys_delete: "map_keys (map_delete k m) = filter (\<lambda>x. x \<noteq> k) (map_keys m)"
  by (induction m) (auto simp: map_delete_def)

lemma map_delete_absent: "map_of m k = None \<Longrightarrow> map_delete k m = m"
  by (auto simp: map_delete_def filter_id_conv map_of_eq_None_iff)

lemma gomap_wf_Nil [gomap_simps, simp]: "gomap_wf []"
  by (simp add: gomap_wf_def)

lemma gomap_wf_Cons [gomap_simps]:
  "gomap_wf (p # m) \<longleftrightarrow> (\<forall>k\<in>set (map_keys m). fst p < k) \<and> gomap_wf m"
  by (simp add: gomap_wf_def)

lemma gomap_wf_put [gomap_simps, simp]: "gomap_wf m \<Longrightarrow> gomap_wf (map_put k v m)"
  by (induction m) (auto simp: gomap_wf_Cons)

lemma gomap_wf_delete [gomap_simps, simp]: "gomap_wf m \<Longrightarrow> gomap_wf (map_delete k m)"
  by (simp add: gomap_wf_def map_keys_delete sorted_wrt_filter)

lemma gomap_wf_distinct: "gomap_wf m \<Longrightarrow> distinct (map fst m)"
  by (simp add: gomap_wf_def map_keys_def strict_sorted_iff)

lemma gomap_wf_sorted: "gomap_wf m \<Longrightarrow> sorted (map_keys m)"
  by (simp add: gomap_wf_def strict_sorted_iff)

text \<open>A well-formed map is determined by its lookups.\<close>

lemma gomap_as_graph:
  "distinct (map fst m) \<Longrightarrow> map (\<lambda>k. (k, the (map_of m k))) (map_keys m) = m"
  by (auto simp: map_keys_def intro!: map_idI)

lemma gomap_ext:
  assumes "gomap_wf m" and "gomap_wf m'" and "map_of m = map_of m'"
  shows "m = m'"
proof -
  have "map_keys m = map_keys m'"
    by (rule sorted_distinct_set_unique)
      (use assms in \<open>simp_all add: gomap_wf_def strict_sorted_iff set_map_keys\<close>)
  then show ?thesis
    using gomap_as_graph [of m] gomap_as_graph [of m'] assms gomap_wf_distinct by metis
qed

text \<open>The empty value and an absent key look alike to \<open>m[k]\<close>.\<close>

lemma map_index_eq_Nil: "map_index m k = [] \<longleftrightarrow> map_of m k = None \<or> map_of m k = Some []"
  by (auto simp: map_index_def split: option.splits)

lemma map_index_Some [simp]: "map_of m k = Some v \<Longrightarrow> map_index m k = v"
  by (simp add: map_index_def)

lemma map_index_None [simp]: "map_of m k = None \<Longrightarrow> map_index m k = []"
  by (simp add: map_index_def)

end
