(* ===== verification/Config.thy ===== *)
theory Config
  imports Prelude
begin

text \<open>
  \<open>config/config.go\<close> and \<open>config/errors.go\<close>: the settings with their defaults, and the initialisation, in which
  \<open>configor.Load\<close> is a parameter; the rest of the development runs on the defaults. Durations are in
  nanoseconds, as \<open>time.Duration\<close> is.
  (\<open>config.ErrDataNotFound\<close> is \<open>ErrDataNotFound\<close> of the prelude.)
\<close>

record config =
  Env :: string
  HTTPRequestTimeout :: int
  IdealResponseDuration :: int
  EtcdEndpoints :: "string list"
  RaftKey :: string
  RaftNodesKey :: string
  CacheNodesKey :: string
  ShardCount :: nat
  CacheMasterAddr :: string
  CacheBytes :: int
  AdminAddr :: string

definition Config :: config where
  "Config = \<lparr>Env = ''develop'',
     HTTPRequestTimeout = 100000000,
     IdealResponseDuration = 50000000,
     EtcdEndpoints = [''127.0.0.1:2379''],
     RaftKey = ''oncekv.nodes.http.adrr'',
     RaftNodesKey = ''oncekv.db.nodes'',
     CacheNodesKey = ''oncekv.cache.nodes'',
     ShardCount = 10,
     CacheMasterAddr = ''127.0.0.1:5550'',
     CacheBytes = 10485760,
     AdminAddr = ''127.0.0.1:5546''\<rparr>"

definition IsProduction :: "string \<Rightarrow> bool" where
  "IsProduction e \<longleftrightarrow> e = ''production''"

definition IsDevelop :: "string \<Rightarrow> bool" where
  "IsDevelop e \<longleftrightarrow> e = ''develop''"

definition IsTest :: "string \<Rightarrow> bool" where
  "IsTest e \<longleftrightarrow> e = ''test''"

section \<open>Initialisation\<close>

text \<open>\<open>path.Clean\<close> and \<open>path.Join\<close>: empty and \<open>.\<close> segments go, \<open>..\<close> takes the segment before it along.\<close>

fun segments :: "string \<Rightarrow> string \<Rightarrow> string list" where
  "segments acc [] = [rev acc]"
| "segments acc (c # cs) = (if c = CHR ''/'' then rev acc # segments [] cs else segments (c # acc) cs)"

fun clean_segments :: "bool \<Rightarrow> string list \<Rightarrow> string list \<Rightarrow> string list" where
  "clean_segments rooted out [] = rev out"
| "clean_segments rooted out (x # xs) =
     (if x = [] \<or> x = ''.'' then clean_segments rooted out xs
      else if x = ''..'' then
        (case out of
           y # ys \<Rightarrow> if y = ''..'' then clean_segments rooted (x # out) xs else clean_segments rooted ys xs
         | [] \<Rightarrow> if rooted then clean_segments rooted [] xs else clean_segments rooted [x] xs)
      else clean_segments rooted (x # out) xs)"

fun slash_join :: "string list \<Rightarrow> string" where
  "slash_join [] = []"
| "slash_join [x] = x"
| "slash_join (x # y # xs) = x @ ''/'' @ slash_join (y # xs)"

definition path_Clean :: "string \<Rightarrow> string" where
  "path_Clean p = (if p = [] then ''.''
     else let rooted = (hd p = CHR ''/''); r = (if rooted then ''/'' else []) @ slash_join (clean_segments rooted [] (segments [] p))
       in if r = [] then ''.'' else r)"

definition path_Join :: "string list \<Rightarrow> string" where
  "path_Join elems = (let es = filter (\<lambda>e. e \<noteq> []) elems in if es = [] then [] else path_Clean (slash_join es))"

text \<open>
  \<open>init\<close>: the root path and the configuration, or a panic. \<open>gopath\<close> is the environment variable, \<open>load\<close> what
  \<open>configor.Load\<close> makes of the defaults and the file.
\<close>

definition config_init :: "string \<Rightarrow> (string \<Rightarrow> config result) \<Rightarrow> (string \<times> config) result" where
  "config_init gopath load =
     (if gopath = [] then Err (GoPanic ''oncekv: envroinment param $GOPATH not set'')
      else let root = path_Join [gopath, ''src'', ''github.com'', ''Focinfi'', ''oncekv''] in
        case load (path_Join [root, ''config'', ''config.json'']) of
          Inl err \<Rightarrow> Err (GoPanic (err_text err)) | Inr conf \<Rightarrow> Ok (root, conf))"

lemma segments_not_Nil [simp]: "segments acc p \<noteq> []"
  by (induction acc p rule: segments.induct) auto

text \<open>A clean path has no empty segment, no \<open>.\<close>, and \<open>..\<close> only at the front of a relative one.\<close>

definition clean_list :: "bool \<Rightarrow> string list \<Rightarrow> bool" where
  "clean_list rooted xs \<longleftrightarrow> (\<exists>n ys. xs = replicate n ''..'' @ ys \<and> (rooted \<longrightarrow> n = 0) \<and> (\<forall>y\<in>set ys. y \<notin> {[], ''.'', ''..''}))"

lemma clean_listI: "xs = replicate n ''..'' @ ys \<Longrightarrow> (rooted \<Longrightarrow> n = 0) \<Longrightarrow> \<forall>y\<in>set ys. y \<notin> {[], ''.'', ''..''} \<Longrightarrow> clean_list rooted xs"
  unfolding clean_list_def by blast

lemma clean_list_snoc:
  assumes "clean_list rooted xs" and "y \<notin> {[], ''.'', ''..''}"
  shows "clean_list rooted (xs @ [y])"
proof -
  obtain n ys where "xs = replicate n ''..'' @ ys" "rooted \<longrightarrow> n = 0" "\<forall>z\<in>set ys. z \<notin> {[], ''.'', ''..''}"
    using assms(1) unfolding clean_list_def by blast
  with assms(2) show ?thesis by (intro clean_listI [of _ n "ys @ [y]"]) auto
qed

lemma clean_list_butlast:
  assumes "clean_list rooted (xs @ [y])" and "y \<noteq> ''..''"
  shows "clean_list rooted xs"
proof -
  obtain n ys where ys: "xs @ [y] = replicate n ''..'' @ ys" "rooted \<longrightarrow> n = 0" "\<forall>z\<in>set ys. z \<notin> {[], ''.'', ''..''}"
    using assms(1) unfolding clean_list_def by blast
  have "ys \<noteq> []"
  proof
    assume "ys = []"
    then have "y \<in> set (replicate n ''..'')" using ys(1) by (metis append_Nil2 in_set_conv_decomp)
    then show False using assms(2) by simp
  qed
  then obtain zs where "ys = zs @ [y]" using ys(1) by (cases ys rule: rev_cases) auto
  with ys show ?thesis unfolding clean_list_def by auto
qed

lemma clean_list_dots:
  assumes "clean_list rooted (xs @ [''..''])"
  shows "\<not> rooted \<and> xs @ [''..''] = replicate (Suc (length xs)) ''..''"
proof -
  obtain n ys where ys: "xs @ [''..''] = replicate n ''..'' @ ys" "rooted \<longrightarrow> n = 0" "\<forall>z\<in>set ys. z \<notin> {[], ''.'', ''..''}"
    using assms unfolding clean_list_def by blast
  then have "ys = []" by (cases ys rule: rev_cases) auto
  then have "xs @ [''..''] = replicate n ''..''" "n = Suc (length xs)" using ys(1) by (auto dest: arg_cong [where f = length])
  with ys(2) show ?thesis by auto
qed

lemma clean_segments_clean: "clean_list rooted (rev out) \<Longrightarrow> clean_list rooted (clean_segments rooted out xs)"
proof (induction rooted out xs rule: clean_segments.induct)
  case (2 rooted out x xs)
  consider "x = [] \<or> x = ''.''" | "x = ''..''" | "x \<notin> {[], ''.'', ''..''}" by blast
  then show ?case
  proof cases
    case 1
    with 2 show ?thesis by auto
  next
    case dots: 2
    show ?thesis
    proof (cases out)
      case Nil
      with dots 2 clean_listI [of "[''..'']" 1 "[]" rooted] clean_listI [of "[]" 0 "[]" rooted] show ?thesis by auto
    next
      case (Cons y ys)
      show ?thesis
      proof (cases "y = ''..''")
        case True
        with clean_list_dots [of rooted "rev ys"] Cons 2(7)
        have "\<not> rooted" "rev (x # out) = replicate (length ys + 2) ''..''" using dots by (auto simp: replicate_append_same)
        then have "clean_list rooted (rev (x # out))" by (intro clean_listI [of _ "length ys + 2" "[]"]) auto
        with 2 dots Cons True show ?thesis by auto
      next
        case False
        with clean_list_butlast [of rooted "rev ys" y] 2 dots Cons show ?thesis by auto
      qed
    qed
  next
    case 3
    with 2 clean_list_snoc [of rooted "rev out" x] show ?thesis by auto
  qed
qed simp

end
