(* ===== verification/Meta.thy ===== *)
theory Meta
  imports Config
begin

text \<open>
  The meta store: \<open>meta/meta.go\<close> (the interface), \<open>meta/etcd.go\<close> and \<open>utils/mock/meta.go\<close> (its two
  implementations). A value of the Go interface \<open>meta.Meta\<close> is a record of its two methods over
  the receiver's state. Both masters and the database service keep their tables in it.

  The contract the clients rely on is the locale \<open>meta_store\<close>; it is interpreted on the
  in-memory store, and \<open>etcd_meta_store\<close> gives it for etcd from the documented behaviour of
  the etcd client, which is a parameter (\<open>clientv3\<close> is third-party code).
\<close>

section \<open>The interface\<close>

record 'm Meta =
  meta_Get :: "'m \<Rightarrow> string \<Rightarrow> string result"
  meta_Put :: "'m \<Rightarrow> string \<Rightarrow> string \<Rightarrow> error \<times> 'm"

section \<open>The in-memory store\<close>

definition mock_Get :: "string gomap \<Rightarrow> string \<Rightarrow> string result" where
  "mock_Get data key = (case map_of data key of None \<Rightarrow> Err ErrDataNotFound | Some val \<Rightarrow> Ok val)"

definition mock_Put :: "string gomap \<Rightarrow> string \<Rightarrow> string \<Rightarrow> error \<times> string gomap" where
  "mock_Put data key value = (None, map_put key value data)"

text \<open>The first \<open>n\<close> ticks of the endless loop: every tick runs the callback.\<close>

fun mock_WatchModify :: "nat \<Rightarrow> ('s \<Rightarrow> 's) \<Rightarrow> 's \<Rightarrow> 's" where
  "mock_WatchModify 0 act s = s"
| "mock_WatchModify (Suc n) act s = mock_WatchModify n act (act s)"

definition mock_meta :: "string gomap Meta" where
  "mock_meta = \<lparr>meta_Get = mock_Get, meta_Put = mock_Put\<rparr>"

definition DefaultMeta :: "string gomap" where
  "DefaultMeta = []"

section \<open>etcd\<close>

text \<open>
  The client's \<open>Get\<close> returns the values of the matching pairs, its \<open>Put\<close> an error or nil.
\<close>

definition etcd_Get :: "('c \<Rightarrow> string \<Rightarrow> string list result) \<Rightarrow> 'c \<Rightarrow> string \<Rightarrow> string result" where
  "etcd_Get cli_Get c key = (case cli_Get c key of
     Inl err \<Rightarrow> Err err
   | Inr kvs \<Rightarrow> (case kvs of [] \<Rightarrow> Err ErrDataNotFound | v # _ \<Rightarrow> Ok v))"

definition etcd_Put :: "('c \<Rightarrow> string \<Rightarrow> string \<Rightarrow> error \<times> 'c) \<Rightarrow> 'c \<Rightarrow> string \<Rightarrow> string \<Rightarrow> error \<times> 'c" where
  "etcd_Put cli_Put c key value = cli_Put c key value"

definition etcd_meta ::
  "('c \<Rightarrow> string \<Rightarrow> string list result) \<Rightarrow> ('c \<Rightarrow> string \<Rightarrow> string \<Rightarrow> error \<times> 'c) \<Rightarrow> 'c Meta" where
  "etcd_meta cli_Get cli_Put = \<lparr>meta_Get = etcd_Get cli_Get, meta_Put = etcd_Put cli_Put\<rparr>"

text \<open>
  \<open>WatchModify\<close> on what the watch channel delivers. A response has its events (is it a
  modification, the new value), the cancel flag and \<open>Err()\<close>. The first line of the loop body
  logs \<open>resp.Events[0]\<close>, which panics on a response without events.
\<close>

record watch_response =
  Events :: "(bool \<times> string) list"
  Canceled :: bool
  watch_Err :: error

fun run_events :: "('s \<Rightarrow> 's) \<Rightarrow> (bool \<times> string) list \<Rightarrow> 's \<Rightarrow> 's" where
  "run_events act [] s = s"
| "run_events act (ev # evs) s = run_events act evs (if fst ev then act s else s)"

fun etcd_WatchModify :: "('s \<Rightarrow> 's) \<Rightarrow> watch_response list \<Rightarrow> 's \<Rightarrow> 's result" where
  "etcd_WatchModify act [] s = Ok s"
| "etcd_WatchModify act (resp # ch) s =
     (if Events resp = [] then Err (GoPanic ''index out of range'')
      else if Canceled resp then etcd_WatchModify act ch s
      else if watch_Err resp \<noteq> None then etcd_WatchModify act ch s
      else etcd_WatchModify act ch (run_events act (Events resp) s))"

text \<open>
  \<open>newEtcd\<close>, \<open>New\<close> and the package's \<open>init\<close>: \<open>dial\<close> is what \<open>clientv3.New\<close> returns for the endpoints. The store
  the process works with is the in-memory one in test mode and etcd otherwise; \<open>init\<close> panics when
  etcd cannot be dialled.
\<close>

datatype 'c default_meta = MockDefault "string gomap" | EtcdDefault 'c

definition newEtcd :: "(string list \<Rightarrow> 'c result) \<Rightarrow> 'c result" where
  "newEtcd dial = dial (EtcdEndpoints Config)"

definition meta_New :: "(string list \<Rightarrow> 'c result) \<Rightarrow> 'c result" where
  "meta_New dial = (case newEtcd dial of Inl err \<Rightarrow> Err err | Inr etcd \<Rightarrow> Ok etcd)"

definition meta_init :: "string \<Rightarrow> (string list \<Rightarrow> 'c result) \<Rightarrow> 'c default_meta result" where
  "meta_init env dial =
     (if IsTest env then Ok (MockDefault DefaultMeta)
      else case meta_New dial of Inl err \<Rightarrow> Err (GoPanic (err_text err)) | Inr m \<Rightarrow> Ok (EtcdDefault m))"

section \<open>The contract\<close>

text \<open>
  While the store is reachable (\<open>up\<close>), a read returns what was written last under the key and
  \<open>ErrDataNotFound\<close> for a key never written, and a write succeeds and changes its key alone.
\<close>

locale meta_store =
  fixes M :: "'m Meta"
    and up :: "'m \<Rightarrow> bool"
    and kv :: "'m \<Rightarrow> string \<Rightarrow> string option"
  assumes Get_kv: "up m \<Longrightarrow> meta_Get M m k = (case kv m k of None \<Rightarrow> Err ErrDataNotFound | Some v \<Rightarrow> Ok v)"
    and Put_kv: "up m \<Longrightarrow> \<exists>m'. meta_Put M m k v = (None, m') \<and> up m' \<and> kv m' = (kv m)(k \<mapsto> v)"
begin

lemma Put_cases:
  assumes "up m"
  obtains m' where "meta_Put M m k v = (None, m')" "up m'" "kv m' = (kv m)(k \<mapsto> v)"
  using Put_kv [OF assms] by blast

lemma Get_Put_same: "up m \<Longrightarrow> meta_Put M m k v = (None, m') \<Longrightarrow> meta_Get M m' k = Ok v"
  using Put_kv [of m k v] by (auto simp: Get_kv)

lemma Get_Put_other: "up m \<Longrightarrow> meta_Put M m k v = (None, m') \<Longrightarrow> k' \<noteq> k \<Longrightarrow> meta_Get M m' k' = meta_Get M m k'"
  using Put_kv [of m k v] by (auto simp: Get_kv)

lemma Put_up: "up m \<Longrightarrow> up (snd (meta_Put M m k v))"
  using Put_kv [of m k v] by auto

lemma Put_Put: "up m \<Longrightarrow> kv (snd (meta_Put M m k v)) = (kv m)(k \<mapsto> v)"
  using Put_kv [of m k v] by auto

end

interpretation mock: meta_store mock_meta "\<lambda>_. True" map_of
  by unfold_locales (auto simp: mock_meta_def mock_Get_def mock_Put_def)

text \<open>The documented behaviour of a reachable etcd client, as a predicate on its two calls.\<close>

definition etcd_client ::
  "('c \<Rightarrow> string \<Rightarrow> string list result) \<Rightarrow> ('c \<Rightarrow> string \<Rightarrow> string \<Rightarrow> error \<times> 'c) \<Rightarrow>
   ('c \<Rightarrow> bool) \<Rightarrow> ('c \<Rightarrow> string \<Rightarrow> string option) \<Rightarrow> bool" where
  "etcd_client cli_Get cli_Put up kv \<longleftrightarrow>
     (\<forall>c k. up c \<longrightarrow> cli_Get c k = Ok (case kv c k of None \<Rightarrow> [] | Some v \<Rightarrow> [v])) \<and>
     (\<forall>c k v. up c \<longrightarrow> (\<exists>c'. cli_Put c k v = (None, c') \<and> up c' \<and> kv c' = (kv c)(k \<mapsto> v)))"

lemma etcd_meta_store: "etcd_client g p up kv \<Longrightarrow> meta_store (etcd_meta g p) up kv"
  by (unfold_locales)
    (auto simp: etcd_client_def etcd_meta_def etcd_Get_def etcd_Put_def split: option.split)

section \<open>Watching\<close>

lemma run_events_count: "run_events act evs s = (act ^^ length (filter fst evs)) s"
  by (induction evs arbitrary: s) (auto simp: funpow_swap1)

definition delivered :: "watch_response list \<Rightarrow> (bool \<times> string) list" where
  "delivered ch = concat (map Events (filter (\<lambda>r. \<not> Canceled r \<and> watch_Err r = None) ch))"

lemma funpow_commute: "(f ^^ m) ((f ^^ n) s) = (f ^^ n) ((f ^^ m) s)"
  by (metis add.commute comp_apply funpow_add)

lemma etcd_WatchModify_delivers:
  "\<forall>r\<in>set ch. Events r \<noteq> [] \<Longrightarrow>
    etcd_WatchModify act ch s = Ok ((act ^^ length (filter fst (delivered ch))) s)"
  by (induction ch arbitrary: s)
    (auto simp: delivered_def run_events_count funpow_add funpow_commute)

lemma etcd_WatchModify_panics:
  "\<exists>r\<in>set ch. Events r = [] \<Longrightarrow> etcd_WatchModify act ch s = Err (GoPanic ''index out of range'')"
  by (induction ch arbitrary: s) auto

text \<open>
  The etcd watch loop runs its callback once per modification event of the responses that
  are neither cancelled nor failed, and goes on after those; but a response without events, which
  is how a cancellation arrives, panics the loop before the cancel flag is looked at.
\<close>

lemma etcd_WatchModify_outcome:
  "etcd_WatchModify act ch s =
     (if \<exists>r\<in>set ch. Events r = [] then Err (GoPanic ''index out of range'')
      else Ok ((act ^^ length (filter fst (delivered ch))) s))"
  by (simp add: etcd_WatchModify_delivers etcd_WatchModify_panics)

end
