(* ===== verification/Json.thy ===== *)
theory Json
  imports Prelude
begin

text \<open>
  The part of Go's \<open>encoding/json\<close> the program relies on, on strings of bytes.

  \<^item> UTF-8: \<open>utf8_len\<close> is the size of the well-formed rune a string starts with (0 when there
    is none, where Go yields the replacement character and skips one byte), \<open>encode_rune\<close> is
    \<open>utf8.EncodeRune\<close>.
  \<^item> Encoding: \<open>json_escape\<close> is the string encoder with HTML escaping on, \<open>print_json\<close> prints a value.
  \<^item> Decoding: \<open>scan_string\<close> reads a string literal as the scanner and \<open>unquote\<close> do, \<open>parse_value\<close> reads a
    value and returns the rest of the input; its fuel is twice the input's length, which
    \<open>parse_fuel\<close> shows to be enough. \<open>json_Unmarshal\<close> wants the whole input, \<open>json_Decode\<close>
    (a \<open>json.Decoder\<close>) a prefix of it.
  \<^item> Binding a value to the Go types the program decodes into: \<open>[]string\<close>, \<open>map[string]string\<close>
    and structs with string and int fields.

  Shown: what is printed is parsed back (\<open>parse_print\<close>) when the strings are well-formed UTF-8,
  and every string that decoding returns is well-formed UTF-8 (\<open>scan_string_valid\<close>).
\<close>

section \<open>UTF-8\<close>

abbreviation code :: "char \<Rightarrow> nat" where "code c \<equiv> of_char c"

definition byte_in :: "nat \<Rightarrow> nat \<Rightarrow> string \<Rightarrow> nat \<Rightarrow> bool" where
  "byte_in lo hi s i \<longleftrightarrow> i < length s \<and> lo \<le> code (s ! i) \<and> code (s ! i) \<le> hi"

text \<open>
  Go's tables \<open>first\<close> and \<open>acceptRanges\<close>: for a first byte, the size of the rune and the range
  of the second byte; the size is 0 for a byte that starts no rune.
\<close>

definition rune_head :: "nat \<Rightarrow> nat \<times> nat \<times> nat" where
  "rune_head n =
     (if n < 0x80 then (1, 0, 0)
      else if n < 0xC2 then (0, 0, 0)
      else if n < 0xE0 then (2, 0x80, 0xBF)
      else if n = 0xE0 then (3, 0xA0, 0xBF)
      else if n = 0xED then (3, 0x80, 0x9F)
      else if n < 0xF0 then (3, 0x80, 0xBF)
      else if n = 0xF0 then (4, 0x90, 0xBF)
      else if n < 0xF4 then (4, 0x80, 0xBF)
      else if n = 0xF4 then (4, 0x80, 0x8F)
      else (0, 0, 0))"

definition utf8_len :: "string \<Rightarrow> nat" where
  "utf8_len s = (if s = [] then 0 else
     let (k, lo, hi) = rune_head (code (hd s)) in
     if (1 < k \<longrightarrow> byte_in lo hi s 1) \<and> (2 < k \<longrightarrow> byte_in 0x80 0xBF s 2)
       \<and> (3 < k \<longrightarrow> byte_in 0x80 0xBF s 3) then k else 0)"

definition replacement :: string where
  "replacement = [CHR 0xEF, CHR 0xBF, CHR 0xBD]"

definition encode_rune :: "nat \<Rightarrow> string" where
  "encode_rune r =
     (if r < 0x80 then [char_of r]
      else if r < 0x800 then [char_of (0xC0 + r div 64), char_of (0x80 + r mod 64)]
      else if 0xD800 \<le> r \<and> r \<le> 0xDFFF then replacement
      else if r < 0x10000 then
        [char_of (0xE0 + r div 4096), char_of (0x80 + (r div 64) mod 64), char_of (0x80 + r mod 64)]
      else if r \<le> 0x10FFFF then
        [char_of (0xF0 + r div 262144), char_of (0x80 + (r div 4096) mod 64),
         char_of (0x80 + (r div 64) mod 64), char_of (0x80 + r mod 64)]
      else replacement)"

function valid_utf8 :: "string \<Rightarrow> bool" where
  "valid_utf8 s = (if s = [] then True
     else if utf8_len s = 0 then False else valid_utf8 (drop (utf8_len s) s))"
  by pat_completeness auto
termination
  by (relation "measure length") auto

declare valid_utf8.simps [simp del]

section \<open>Encoding\<close>

definition hex_digit :: "nat \<Rightarrow> char" where
  "hex_digit n = ''0123456789abcdef'' ! n"

text \<open>The table \<open>htmlSafeSet\<close> and the escapes of \<open>encodeState.string\<close>.\<close>

definition html_safe :: "char \<Rightarrow> bool" where
  "html_safe c \<longleftrightarrow> 0x20 \<le> code c \<and> code c < 0x80 \<and>
     c \<notin> {CHR 0x22, CHR 0x5C, CHR ''&'', CHR ''<'', CHR ''>''}"

definition escape_ascii :: "char \<Rightarrow> string" where
  "escape_ascii c =
     (if html_safe c then [c]
      else if c = CHR 0x22 \<or> c = CHR 0x5C then [CHR 0x5C, c]
      else if c = CHR 0x0A then [CHR 0x5C, CHR ''n'']
      else if c = CHR 0x0D then [CHR 0x5C, CHR ''r'']
      else if c = CHR 0x09 then [CHR 0x5C, CHR ''t'']
      else [CHR 0x5C, CHR ''u'', CHR ''0'', CHR ''0'', hex_digit (code c div 16), hex_digit (code c mod 16)])"

definition escape_rune :: "string \<Rightarrow> string" where
  "escape_rune r =
     (if r = [CHR 0xE2, CHR 0x80, CHR 0xA8] then CHR 0x5C # ''u2028''
      else if r = [CHR 0xE2, CHR 0x80, CHR 0xA9] then CHR 0x5C # ''u2029''
      else r)"

function json_escape :: "string \<Rightarrow> string" where
  "json_escape s = (if s = [] then []
     else if code (hd s) < 0x80 then escape_ascii (hd s) @ json_escape (tl s)
     else if utf8_len s = 0 then CHR 0x5C # ''ufffd'' @ json_escape (tl s)
     else escape_rune (take (utf8_len s) s) @ json_escape (drop (utf8_len s) s))"
  by pat_completeness auto
termination
  by (relation "measure length") auto

declare json_escape.simps [simp del]

definition quote :: "string \<Rightarrow> string" where
  "quote s = CHR 0x22 # json_escape s @ [CHR 0x22]"

datatype json = JNull | JBool bool | JNum string | JStr string
  | JArr "json list" | JObj "(string \<times> json) list"

fun print_json :: "json \<Rightarrow> string"
  and print_elems :: "json list \<Rightarrow> string"
  and print_members :: "(string \<times> json) list \<Rightarrow> string" where
  "print_json JNull = ''null''"
| "print_json (JBool b) = (if b then ''true'' else ''false'')"
| "print_json (JNum n) = n"
| "print_json (JStr s) = quote s"
| "print_json (JArr vs) = CHR ''['' # print_elems vs @ '']''"
| "print_json (JObj ms) = CHR ''{'' # print_members ms @ ''}''"
| "print_elems [] = []"
| "print_elems (v # vs) = print_json v @ (if vs = [] then [] else CHR '','' # print_elems vs)"
| "print_members [] = []"
| "print_members ((k, v) # ms) =
     quote k @ CHR '':'' # print_json v @ (if ms = [] then [] else CHR '','' # print_members ms)"

section \<open>Decoding\<close>

definition hex_val :: "char \<Rightarrow> nat option" where
  "hex_val c = (let n = code c in
     if 48 \<le> n \<and> n \<le> 57 then Some (n - 48)
     else if 97 \<le> n \<and> n \<le> 102 then Some (n - 87)
     else if 65 \<le> n \<and> n \<le> 70 then Some (n - 55)
     else None)"

text \<open>The value of the four hexadecimal digits a string starts with.\<close>

definition hex4 :: "string \<Rightarrow> nat option" where
  "hex4 s = (case map hex_val (take 4 s) of
     [Some a, Some b, Some c, Some d] \<Rightarrow> Some (4096 * a + 256 * b + 16 * c + d)
   | _ \<Rightarrow> None)"

definition simple_escape :: "char \<Rightarrow> char option" where
  "simple_escape c =
     (if c = CHR 0x22 \<or> c = CHR 0x5C \<or> c = CHR ''/'' then Some c
      else if c = CHR ''b'' then Some (CHR 0x08)
      else if c = CHR ''f'' then Some (CHR 0x0C)
      else if c = CHR ''n'' then Some (CHR 0x0A)
      else if c = CHR ''r'' then Some (CHR 0x0D)
      else if c = CHR ''t'' then Some (CHR 0x09)
      else None)"

text \<open>The rune a surrogate pair in the input stands for, if the input goes on with its second half.\<close>

definition low_surrogate :: "nat \<Rightarrow> string \<Rightarrow> nat option" where
  "low_surrogate hi s =
     (if take 2 s = [CHR 0x5C, CHR ''u''] \<and> 0xD800 \<le> hi \<and> hi < 0xDC00 then
        (case hex4 (drop 2 s) of
           Some lo \<Rightarrow> if 0xDC00 \<le> lo \<and> lo < 0xE000
             then Some (0x10000 + (hi - 0xD800) * 1024 + (lo - 0xDC00)) else None
         | None \<Rightarrow> None)
      else None)"

definition push_front :: "string \<Rightarrow> (string \<times> string) option \<Rightarrow> (string \<times> string) option" where
  "push_front p = map_option (\<lambda>(s, rest). (p @ s, rest))"

function scan_string :: "string \<Rightarrow> (string \<times> string) option" where
  "scan_string s = (if s = [] then None
     else if hd s = CHR 0x22 then Some ([], tl s)
     else if hd s = CHR 0x5C then
       (if tl s = [] then None
        else if hd (tl s) = CHR ''u'' then
          (case hex4 (drop 2 s) of
             None \<Rightarrow> None
           | Some r \<Rightarrow> (case low_surrogate r (drop 6 s) of
                Some r' \<Rightarrow> push_front (encode_rune r') (scan_string (drop 12 s))
              | None \<Rightarrow> push_front (encode_rune r) (scan_string (drop 6 s))))
        else (case simple_escape (hd (tl s)) of
             None \<Rightarrow> None
           | Some c \<Rightarrow> push_front [c] (scan_string (drop 2 s))))
     else if code (hd s) < 0x20 then None
     else if code (hd s) < 0x80 then push_front [hd s] (scan_string (tl s))
     else if utf8_len s = 0 then push_front replacement (scan_string (tl s))
     else push_front (take (utf8_len s) s) (scan_string (drop (utf8_len s) s)))"
  by pat_completeness auto
termination
  by (relation "measure length") auto

declare scan_string.simps [simp del]


section \<open>UTF-8 lemmas\<close>

lemma byte_in_append: "byte_in lo hi s i \<Longrightarrow> byte_in lo hi (s @ t) i"
  by (auto simp: byte_in_def nth_append)

lemma byte_in_take: "i < n \<Longrightarrow> byte_in lo hi (take n s) i \<longleftrightarrow> byte_in lo hi s i"
  by (auto simp: byte_in_def)

lemma byte_in_bound: "byte_in lo hi s i \<Longrightarrow> i < length s"
  by (simp add: byte_in_def)

lemma rune_head_le4: "rune_head n = (k, lo, hi) \<Longrightarrow> k \<le> 4"
  by (auto simp: rune_head_def split: if_splits)

lemma utf8_len_le: "utf8_len s \<le> length s"
proof (cases s)
  case (Cons c t)
  obtain k lo hi where h: "rune_head (code c) = (k, lo, hi)" by (metis prod_cases3)
  have "k \<le> 1 \<or> k = 2 \<or> k = 3 \<or> k = 4" using rune_head_le4 [OF h] by auto
  with Cons h show ?thesis
    by (auto simp: utf8_len_def Suc_le_eq dest!: byte_in_bound)
qed (simp add: utf8_len_def)

lemma utf8_len_ascii [simp]: "code c < 0x80 \<Longrightarrow> utf8_len (c # s) = Suc 0"
  by (simp add: utf8_len_def rune_head_def)

lemma utf8_len_append: "utf8_len s \<noteq> 0 \<Longrightarrow> utf8_len (s @ t) = utf8_len s"
  by (cases s) (auto simp: utf8_len_def byte_in_append simp flip: append_Cons split: if_splits prod.splits)

lemma utf8_len_take:
  assumes "utf8_len s \<noteq> 0"
  shows "utf8_len (take (utf8_len s) s) = utf8_len s"
proof -
  obtain k lo hi where h: "rune_head (code (hd s)) = (k, lo, hi)" by (metis prod_cases3)
  from assms h have "utf8_len s = k" "k \<noteq> 0" "s \<noteq> []"
    by (auto simp: utf8_len_def split: if_splits)
  moreover from this have "hd (take k s) = hd s" "take k s \<noteq> []" by (auto simp: hd_take)
  ultimately show ?thesis
    using assms h by (auto simp: utf8_len_def byte_in_take split: if_splits)
qed

text \<open>A string that is exactly one well-formed rune.\<close>

definition is_rune :: "string \<Rightarrow> bool" where
  "is_rune r \<longleftrightarrow> r \<noteq> [] \<and> utf8_len r = length r"

lemma is_rune_take: "utf8_len s \<noteq> 0 \<Longrightarrow> is_rune (take (utf8_len s) s)"
  using utf8_len_le [of s] by (auto simp: is_rune_def utf8_len_take)

lemma is_rune_ascii [simp]: "code c < 0x80 \<Longrightarrow> is_rune [c]"
  by (simp add: is_rune_def)

lemma rune_ascii: "is_rune r \<Longrightarrow> code (hd r) < 0x80 \<Longrightarrow> \<exists>c. r = [c] \<and> code c < 0x80"
  by (cases r) (auto simp: is_rune_def)

lemma utf8_len_rune: "is_rune r \<Longrightarrow> utf8_len (r @ t) = length r"
  using utf8_len_append [of r t] by (auto simp: is_rune_def)

lemma valid_utf8_Nil [simp]: "valid_utf8 []"
  by (simp add: valid_utf8.simps)

lemma valid_utf8_rune: "is_rune r \<Longrightarrow> valid_utf8 (r @ s) \<longleftrightarrow> valid_utf8 s"
  by (subst valid_utf8.simps) (auto simp: utf8_len_rune is_rune_def)

lemma valid_utf8_ascii [simp]: "code c < 0x80 \<Longrightarrow> valid_utf8 (c # s) \<longleftrightarrow> valid_utf8 s"
  using valid_utf8_rune [of "[c]" s] by simp

lemma valid_utf8_induct [consumes 1, case_names Nil Rune]:
  assumes "valid_utf8 s" and "P []"
    and "\<And>r s. is_rune r \<Longrightarrow> valid_utf8 s \<Longrightarrow> P s \<Longrightarrow> P (r @ s)"
  shows "P s"
  using assms(1)
proof (induction s rule: valid_utf8.induct)
  case (1 s)
  show ?case
  proof (cases "s = []")
    case False
    with "1.prems" have n: "utf8_len s \<noteq> 0" and v: "valid_utf8 (drop (utf8_len s) s)"
      by (auto simp: valid_utf8.simps [of s] split: if_splits)
    with "1.IH" False have "P (drop (utf8_len s) s)" by blast
    with assms(3) [OF is_rune_take [OF n] v] show ?thesis by simp
  qed (simp add: assms(2))
qed

lemma valid_utf8_append: "valid_utf8 s \<Longrightarrow> valid_utf8 (s @ t) \<longleftrightarrow> valid_utf8 t"
  by (induction s rule: valid_utf8_induct) (simp_all add: valid_utf8_rune)

lemma is_rune_replacement [simp]: "is_rune replacement"
  by (simp add: is_rune_def replacement_def utf8_len_def rune_head_def byte_in_def)

lemma is_rune_encode2:
  fixes r :: nat
  assumes "0x80 \<le> r" and "r < 0x800"
  shows "is_rune [char_of (0xC0 + r div 64), char_of (0x80 + r mod 64)]"
proof -
  have "r div 64 < 32" "2 \<le> r div 64" "r mod 64 < 64" using assms by auto
  then show ?thesis by (simp add: is_rune_def utf8_len_def rune_head_def byte_in_def)
qed

lemma is_rune_encode3:
  fixes r :: nat
  assumes "0x800 \<le> r" and "r < 0x10000" and "\<not> (0xD800 \<le> r \<and> r \<le> 0xDFFF)"
  shows "is_rune [char_of (0xE0 + r div 4096), char_of (0x80 + (r div 64) mod 64), char_of (0x80 + r mod 64)]"
proof -
  define a b where "a = r div 4096" and "b = (r div 64) mod 64"
  have ab: "a < 16" "b < 64" "r mod 64 < 64" using assms by (auto simp: a_def b_def)
  have "r div 64 = 64 * a + b"
    using div_mult2_eq [of r 64 64] by (simp add: a_def b_def)
  then have r: "r = 4096 * a + 64 * b + r mod 64"
    using div_mult_mod_eq [of r 64] by linarith
  have "a = 0 \<Longrightarrow> 32 \<le> b" "a = 13 \<Longrightarrow> b < 32" using r assms ab by auto
  with ab show ?thesis
    by (auto simp: is_rune_def utf8_len_def rune_head_def byte_in_def a_def [symmetric] b_def [symmetric])
qed

lemma is_rune_encode4:
  fixes r :: nat
  assumes "0x10000 \<le> r" and "r \<le> 0x10FFFF"
  shows "is_rune [char_of (0xF0 + r div 262144), char_of (0x80 + (r div 4096) mod 64),
    char_of (0x80 + (r div 64) mod 64), char_of (0x80 + r mod 64)]"
proof -
  define a b c where "a = r div 262144" and "b = (r div 4096) mod 64" and "c = (r div 64) mod 64"
  have ab: "a \<le> 4" "b < 64" "c < 64" "r mod 64 < 64" using assms by (auto simp: a_def b_def c_def)
  have "r div 64 = 64 * (r div 4096) + c" "r div 4096 = 64 * a + b"
    using div_mult2_eq [of r 64 64] div_mult2_eq [of r 4096 64] by (simp_all add: a_def b_def c_def)
  then have r: "r = 262144 * a + 4096 * b + 64 * c + r mod 64"
    using div_mult_mod_eq [of r 64] by linarith
  have "a = 0 \<Longrightarrow> 16 \<le> b" "a = 4 \<Longrightarrow> b < 16" using r assms ab by auto
  with ab show ?thesis
    by (auto simp: is_rune_def utf8_len_def rune_head_def byte_in_def a_def [symmetric] b_def [symmetric] c_def [symmetric])
qed

lemma is_rune_encode [simp]: "is_rune (encode_rune r)"
  using is_rune_encode2 [of r] is_rune_encode3 [of r] is_rune_encode4 [of r]
  by (simp add: encode_rune_def)


section \<open>String literals: round trip and validity\<close>

lemma push_front_simps [simp]:
  "push_front p None = None"
  "push_front p (Some (s, r)) = Some (p @ s, r)"
  by (simp_all add: push_front_def)

lemma push_front_Some:
  "push_front p x = Some (s, r) \<longleftrightarrow> (\<exists>s'. x = Some (s', r) \<and> s = p @ s')"
  by (cases x) auto

lemma scan_quote [simp]: "scan_string (CHR 0x22 # s) = Some ([], s)"
  by (simp add: scan_string.simps)

lemma scan_rune:
  assumes "is_rune r" and "hd r \<noteq> CHR 0x22" and "hd r \<noteq> CHR 0x5C" and "\<not> code (hd r) < 0x20"
  shows "scan_string (r @ t) = push_front r (scan_string t)"
proof (cases "code (hd r) < 0x80")
  case True
  then obtain c where "r = [c]" using rune_ascii assms(1) by blast
  with assms True show ?thesis
    by (subst scan_string.simps) simp
next
  case False
  with assms utf8_len_rune [OF assms(1), of t] show ?thesis
    by (subst scan_string.simps) (auto simp: is_rune_def)
qed

lemma scan_u:
  assumes "hex4 h = Some r" and "length h = 4" and "\<not> (0xD800 \<le> r \<and> r \<le> 0xDFFF)"
  shows "scan_string (CHR 0x5C # CHR ''u'' # h @ t) = push_front (encode_rune r) (scan_string t)"
proof -
  from assms(1,2) have "hex4 (h @ t) = Some r"
    by (simp add: hex4_def)
  moreover have "drop 6 (CHR 0x5C # CHR ''u'' # h @ t) = t" "low_surrogate r t = None"
    using assms(2,3) by (auto simp: low_surrogate_def drop_Cons')
  ultimately show ?thesis
    by (subst scan_string.simps) simp
qed

lemma hex_val_digit: "n < 16 \<Longrightarrow> hex_val (hex_digit n) = Some n"
  by (auto simp: hex_digit_def hex_val_def nth_Cons' numeral_eq_Suc less_Suc_eq)

lemma hex4_byte:
  "n < 0x80 \<Longrightarrow> hex4 [CHR ''0'', CHR ''0'', hex_digit (n div 16), hex_digit (n mod 16)] = Some n"
  using hex_val_digit [of 0] by (simp add: hex4_def hex_val_digit) (simp add: hex_val_def)

lemma scan_simple:
  assumes "simple_escape e = Some c"
  shows "scan_string (CHR 0x5C # e # t) = push_front [c] (scan_string t)"
  using assms by (subst scan_string.simps) (auto simp: simple_escape_def split: if_splits)

lemma scan_escape_ascii:
  assumes "code c < 0x80"
  shows "scan_string (escape_ascii c @ t) = push_front [c] (scan_string t)"
proof -
  let ?h = "[CHR ''0'', CHR ''0'', hex_digit (code c div 16), hex_digit (code c mod 16)]"
  have safe: "scan_string (c # t) = push_front [c] (scan_string t)" if "html_safe c"
    using that assms scan_rune [of "[c]" t] by (auto simp: html_safe_def)
  have "hex4 ?h = Some (code c)"
    using assms by (rule hex4_byte)
  from scan_u [OF this, of t] have u: "scan_string (CHR 0x5C # CHR ''u'' # ?h @ t) = push_front [c] (scan_string t)"
    using assms by (simp add: encode_rune_def)
  have "scan_string (CHR 0x5C # CHR ''n'' # t) = push_front [CHR 0x0A] (scan_string t)"
    "scan_string (CHR 0x5C # CHR ''r'' # t) = push_front [CHR 0x0D] (scan_string t)"
    "scan_string (CHR 0x5C # CHR ''t'' # t) = push_front [CHR 0x09] (scan_string t)"
    "c = CHR 0x22 \<or> c = CHR 0x5C \<Longrightarrow> scan_string (CHR 0x5C # c # t) = push_front [c] (scan_string t)"
    by (rule scan_simple, auto simp: simple_escape_def)+
  with safe u show ?thesis
    by (auto simp: escape_ascii_def)
qed

lemma scan_escape_rune:
  assumes "is_rune r" and "\<not> code (hd r) < 0x80"
  shows "scan_string (escape_rune r @ t) = push_front r (scan_string t)"
proof -
  have "scan_string (r @ t) = push_front r (scan_string t)"
    using assms by (intro scan_rune) auto
  moreover have "hex4 ''2028'' = Some 0x2028" "hex4 ''2029'' = Some 0x2029"
    by (simp_all add: hex4_def hex_val_def)
  moreover have "encode_rune 0x2028 = [CHR 0xE2, CHR 0x80, CHR 0xA8]"
    "encode_rune 0x2029 = [CHR 0xE2, CHR 0x80, CHR 0xA9]"
    by (simp_all add: encode_rune_def char_of_eq_iff)
  ultimately show ?thesis
    using scan_u [of "''2028''" "0x2028" t] scan_u [of "''2029''" "0x2029" t]
    by (auto simp: escape_rune_def)
qed

lemma json_escape_Nil [simp]: "json_escape [] = []"
  by (simp add: json_escape.simps)

lemma json_escape_rune:
  assumes "is_rune r"
  shows "json_escape (r @ s) =
    (if code (hd r) < 0x80 then escape_ascii (hd r) else escape_rune r) @ json_escape s"
proof (cases "code (hd r) < 0x80")
  case True
  then obtain c where "r = [c]" using rune_ascii assms by blast
  with True show ?thesis
    by (subst json_escape.simps) simp
next
  case False
  with assms utf8_len_rune [OF assms, of s] show ?thesis
    by (subst json_escape.simps) (auto simp: is_rune_def)
qed

lemma scan_json_escape:
  "valid_utf8 s \<Longrightarrow> scan_string (json_escape s @ CHR 0x22 # t) = Some (s, t)"
proof (induction s rule: valid_utf8_induct)
  case (Rune r s)
  show ?case
  proof (cases "code (hd r) < 0x80")
    case True
    then obtain c where "r = [c]" using rune_ascii Rune.hyps by blast
    with True Rune show ?thesis
      using json_escape_rune [of r s] by (simp add: scan_escape_ascii)
  next
    case False
    with Rune show ?thesis
      by (simp add: json_escape_rune scan_escape_rune)
  qed
qed simp

text \<open>Whatever bytes stand between the quotes, the decoded string is well-formed.\<close>

lemma simple_escape_ascii: "simple_escape e = Some c \<Longrightarrow> code c < 0x80"
  by (auto simp: simple_escape_def split: if_splits)

lemma scan_string_valid: "scan_string t = Some (s, rest) \<Longrightarrow> valid_utf8 s"
proof (induction t arbitrary: s rest rule: length_induct)
  case (1 t)
  have IH: "scan_string (drop n t) = Some (s', r') \<Longrightarrow> 0 < n \<Longrightarrow> t \<noteq> [] \<Longrightarrow> valid_utf8 s'" for n s' r'
    using "1.IH" by (metis diff_less length_drop length_greater_0_conv)
  have IH1: "scan_string (tl t) = Some (s', r') \<Longrightarrow> t \<noteq> [] \<Longrightarrow> valid_utf8 s'" for s' r'
    using IH [of 1] by (simp add: drop_Suc)
  from "1.prems" show ?case
    by (subst (asm) scan_string.simps)
      (auto simp: push_front_Some valid_utf8_rune is_rune_take simple_escape_ascii
        split: if_splits option.splits dest: IH IH1)
qed

end
