(* ===== verification/JsonValue.thy ===== *)
theory JsonValue
  imports Json
begin

text \<open>
  Reading JSON values and binding them to the program's Go types. \<open>parse_value\<close>, \<open>parse_elems\<close>
  and \<open>parse_members\<close> follow the scanner's states on a value, on the elements of an array and on
  the members of an object; each call spends one unit of fuel. \<open>json_Unmarshal\<close> and \<open>json_Decode\<close>
  give them \<open>2 * length s + 2\<close> units, and \<open>parse_fuel\<close> shows that more would change nothing.
\<close>

section \<open>The parser\<close>

definition is_ws :: "char \<Rightarrow> bool" where
  "is_ws c \<longleftrightarrow> c \<in> {CHR '' '', CHR 0x09, CHR 0x0A, CHR 0x0D}"

definition skip_ws :: "string \<Rightarrow> string" where
  "skip_ws s = dropWhile is_ws s"

definition starts :: "char \<Rightarrow> string \<Rightarrow> bool" where
  "starts c s \<longleftrightarrow> s \<noteq> [] \<and> hd s = c"

definition is_digit :: "char \<Rightarrow> bool" where
  "is_digit c \<longleftrightarrow> 48 \<le> code c \<and> code c \<le> 57"

text \<open>A number literal: sign, integer part, fraction, exponent, each kept as written.\<close>

definition scan_sign :: "char set \<Rightarrow> string \<Rightarrow> string \<times> string" where
  "scan_sign cs s = (if s \<noteq> [] \<and> hd s \<in> cs then ([hd s], tl s) else ([], s))"

definition scan_digits :: "string \<Rightarrow> (string \<times> string) option" where
  "scan_digits s = (if s \<noteq> [] \<and> is_digit (hd s)
     then Some (takeWhile is_digit s, dropWhile is_digit s) else None)"

definition scan_int :: "string \<Rightarrow> (string \<times> string) option" where
  "scan_int s = (let (sgn, t) = scan_sign {CHR ''-''} s in
     if starts (CHR ''0'') t then Some (sgn @ ''0'', tl t)
     else map_option (\<lambda>(d, u). (sgn @ d, u)) (scan_digits t))"

definition scan_frac :: "string \<Rightarrow> (string \<times> string) option" where
  "scan_frac s = (if starts (CHR ''.'') s
     then map_option (\<lambda>(d, u). (CHR ''.'' # d, u)) (scan_digits (tl s)) else Some ([], s))"

definition scan_exp :: "string \<Rightarrow> (string \<times> string) option" where
  "scan_exp s = (if starts (CHR ''e'') s \<or> starts (CHR ''E'') s
     then (let (sgn, t) = scan_sign {CHR ''+'', CHR ''-''} (tl s) in
       map_option (\<lambda>(d, u). (hd s # sgn @ d, u)) (scan_digits t))
     else Some ([], s))"

definition scan_number :: "string \<Rightarrow> (string \<times> string) option" where
  "scan_number s = (case scan_int s of None \<Rightarrow> None | Some (a, t) \<Rightarrow>
     (case scan_frac t of None \<Rightarrow> None | Some (b, u) \<Rightarrow>
       (case scan_exp u of None \<Rightarrow> None | Some (c, w) \<Rightarrow> Some (a @ b @ c, w))))"

definition scan_scalar :: "string \<Rightarrow> (json \<times> string) option" where
  "scan_scalar s =
     (if take 4 s = ''null'' then Some (JNull, drop 4 s)
      else if take 4 s = ''true'' then Some (JBool True, drop 4 s)
      else if take 5 s = ''false'' then Some (JBool False, drop 5 s)
      else map_option (\<lambda>(n, t). (JNum n, t)) (scan_number s))"

fun parse_value :: "nat \<Rightarrow> string \<Rightarrow> (json \<times> string) option"
  and parse_elems :: "nat \<Rightarrow> string \<Rightarrow> (json list \<times> string) option"
  and parse_members :: "nat \<Rightarrow> string \<Rightarrow> ((string \<times> json) list \<times> string) option" where
  "parse_value 0 s = None"
| "parse_value (Suc n) s = (let u = skip_ws s in
     if starts (CHR 0x22) u then map_option (\<lambda>(x, t). (JStr x, t)) (scan_string (tl u))
     else if starts (CHR ''['') u then
       (if starts (CHR '']'') (skip_ws (tl u)) then Some (JArr [], tl (skip_ws (tl u)))
        else map_option (\<lambda>(vs, t). (JArr vs, t)) (parse_elems n (tl u)))
     else if starts (CHR ''{'') u then
       (if starts (CHR ''}'') (skip_ws (tl u)) then Some (JObj [], tl (skip_ws (tl u)))
        else map_option (\<lambda>(ms, t). (JObj ms, t)) (parse_members n (tl u)))
     else scan_scalar u)"
| "parse_elems 0 s = None"
| "parse_elems (Suc n) s = (case parse_value n s of None \<Rightarrow> None | Some (v, t) \<Rightarrow>
     (let u = skip_ws t in
      if starts (CHR '','') u then map_option (\<lambda>(vs, w). (v # vs, w)) (parse_elems n (tl u))
      else if starts (CHR '']'') u then Some ([v], tl u)
      else None))"
| "parse_members 0 s = None"
| "parse_members (Suc n) s = (if \<not> starts (CHR 0x22) (skip_ws s) then None
     else case scan_string (tl (skip_ws s)) of None \<Rightarrow> None | Some (k, t) \<Rightarrow>
       if \<not> starts (CHR '':'') (skip_ws t) then None
       else case parse_value n (tl (skip_ws t)) of None \<Rightarrow> None | Some (v, w) \<Rightarrow>
         (let u = skip_ws w in
          if starts (CHR '','') u then map_option (\<lambda>(ms, x). ((k, v) # ms, x)) (parse_members n (tl u))
          else if starts (CHR ''}'') u then Some ([(k, v)], tl u)
          else None))"

definition json_error :: go_error where
  "json_error = Errorf ''json''"

text \<open>\<open>json.Unmarshal\<close> into a value, and one \<open>Decode\<close> of a fresh \<open>json.Decoder\<close>.\<close>

definition json_Unmarshal :: "string \<Rightarrow> json result" where
  "json_Unmarshal s = (case parse_value (2 * length s + 2) s of
     None \<Rightarrow> Err json_error
   | Some (v, t) \<Rightarrow> if skip_ws t = [] then Ok v else Err json_error)"

definition json_Decode :: "string \<Rightarrow> json result" where
  "json_Decode s = (case parse_value (2 * length s + 2) s of
     None \<Rightarrow> Err json_error | Some (v, t) \<Rightarrow> Ok v)"

section \<open>Fuel\<close>

lemma length_skip_ws: "length (skip_ws s) \<le> length s"
  by (simp add: skip_ws_def length_dropWhile_le)

lemma starts_length: "starts c s \<Longrightarrow> length (tl s) < length s"
  by (cases s) (auto simp: starts_def)

lemma scan_string_shorter: "scan_string t = Some (s, rest) \<Longrightarrow> length rest < length t"
proof (induction t arbitrary: s rest rule: length_induct)
  case (1 t)
  have IH: "length r' < length t"
    if "scan_string (drop n t) = Some (s', r')" "t \<noteq> []" "0 < n" for n s' r'
  proof -
    from that have "length (drop n t) < length t" by simp
    with "1.IH" that(1) have "length r' < length (drop n t)" by blast
    then show ?thesis by simp
  qed
  have IH1: "length r' < length t" if "scan_string (tl t) = Some (s', r')" "t \<noteq> []" for s' r'
    using IH [of 1] that by (simp add: drop_Suc)
  from "1.prems" show ?case
    by (subst (asm) scan_string.simps)
      (auto simp: push_front_Some split: if_splits option.splits dest: IH IH1)
qed

lemma scan_digits_shorter: "scan_digits s = Some (d, t) \<Longrightarrow> length t < length s"
  by (cases s) (auto simp: scan_digits_def le_imp_less_Suc length_dropWhile_le split: if_splits)

lemma scan_sign_le: "scan_sign cs s = (a, t) \<Longrightarrow> length t \<le> length s"
  by (auto simp: scan_sign_def split: if_splits)

lemma scan_int_shorter:
  assumes "scan_int s = Some (a, t)"
  shows "length t < length s"
proof -
  obtain sgn u where u: "scan_sign {CHR ''-''} s = (sgn, u)" by fastforce
  with assms have "length t < length u"
    by (auto simp: scan_int_def dest: scan_digits_shorter starts_length split: if_splits)
  with scan_sign_le [OF u] show ?thesis by simp
qed

lemma scan_frac_le: "scan_frac s = Some (a, t) \<Longrightarrow> length t \<le> length s"
  using starts_length [of "CHR ''.''" s]
  by (auto simp: scan_frac_def dest: scan_digits_shorter split: if_splits)

lemma scan_exp_le:
  assumes "scan_exp s = Some (a, t)"
  shows "length t \<le> length s"
proof -
  obtain sgn u where u: "scan_sign {CHR ''+'', CHR ''-''} (tl s) = (sgn, u)" by fastforce
  with assms have "t = s \<or> length t < length u"
    by (auto simp: scan_exp_def dest: scan_digits_shorter split: if_splits)
  with scan_sign_le [OF u] show ?thesis by auto
qed

lemma scan_number_shorter: "scan_number s = Some (v, t) \<Longrightarrow> length t < length s"
  by (auto simp: scan_number_def dest!: scan_int_shorter scan_frac_le scan_exp_le split: option.splits)

lemma scan_scalar_shorter:
  assumes "scan_scalar s = Some (v, t)"
  shows "length t < length s"
proof -
  have "take n s = c # cs \<Longrightarrow> length (drop m s) < length s" if "0 < m" for n m c cs
    using that by (cases s) auto
  with assms show ?thesis
    by (auto simp: scan_scalar_def dest: scan_number_shorter split: if_splits)
qed

lemma tl_skip_ws: "starts c (skip_ws s) \<Longrightarrow> length (tl (skip_ws s)) < length s"
  using length_skip_ws [of s] starts_length less_le_trans by blast


lemma parse_value_shorter_step:
  assumes "\<And>s vs t. parse_elems n s = Some (vs, t) \<Longrightarrow> length t < length s"
    and "\<And>s ms t. parse_members n s = Some (ms, t) \<Longrightarrow> length t < length s"
    and "parse_value (Suc n) s = Some (v, t)"
  shows "length t < length s"
proof -
  let ?u = "skip_ws s"
  have u: "length ?u \<le> length s" by (rule length_skip_ws)
  have tl: "length (tl ?u) < length s" if "starts c ?u" for c
    using that by (rule tl_skip_ws)
  have tl2: "length (tl (skip_ws (tl ?u))) < length (tl ?u)" if "starts c (skip_ws (tl ?u))" for c
    using that by (rule tl_skip_ws)
  consider (str) x where "starts (CHR 0x22) ?u" "scan_string (tl ?u) = Some (x, t)"
    | (empty) c d where "starts c ?u" "starts d (skip_ws (tl ?u))" "t = tl (skip_ws (tl ?u))"
    | (arr) c vs where "starts c ?u" "parse_elems n (tl ?u) = Some (vs, t)"
    | (obj) c ms where "starts c ?u" "parse_members n (tl ?u) = Some (ms, t)"
    | (scalar) "scan_scalar ?u = Some (v, t)"
    using assms(3) by (auto simp: Let_def split: if_splits)
  then show ?thesis
  proof cases
    case str
    with tl scan_string_shorter show ?thesis by (meson less_trans)
  next
    case empty
    with tl tl2 show ?thesis by (meson less_trans)
  next
    case arr
    with tl assms(1) show ?thesis by (meson less_trans)
  next
    case obj
    with tl assms(2) show ?thesis by (meson less_trans)
  next
    case scalar
    with u scan_scalar_shorter show ?thesis by (meson less_le_trans)
  qed
qed

lemma parse_elems_shorter_step:
  assumes "\<And>s v t. parse_value n s = Some (v, t) \<Longrightarrow> length t < length s"
    and "\<And>s vs t. parse_elems n s = Some (vs, t) \<Longrightarrow> length t < length s"
    and "parse_elems (Suc n) s = Some (vs, t)"
  shows "length t < length s"
proof -
  obtain v w c where v: "parse_value n s = Some (v, w)"
    and "(\<exists>us. parse_elems n (tl (skip_ws w)) = Some (us, t)) \<or> t = tl (skip_ws w)"
    and "starts c (skip_ws w)"
    using assms(3) by (auto simp: Let_def split: if_splits option.splits)
  then have "length t < length w"
    using assms(2) tl_skip_ws by (meson less_trans)
  with assms(1) [OF v] show ?thesis by simp
qed

lemma parse_members_shorter_step:
  assumes "\<And>s v t. parse_value n s = Some (v, t) \<Longrightarrow> length t < length s"
    and "\<And>s ms t. parse_members n s = Some (ms, t) \<Longrightarrow> length t < length s"
    and "parse_members (Suc n) s = Some (ms, t)"
  shows "length t < length s"
proof -
  obtain k x v w c where "starts (CHR 0x22) (skip_ws s)" "scan_string (tl (skip_ws s)) = Some (k, x)"
    and "starts (CHR '':'') (skip_ws x)" and v: "parse_value n (tl (skip_ws x)) = Some (v, w)"
    and t: "(\<exists>us. parse_members n (tl (skip_ws w)) = Some (us, t)) \<or> t = tl (skip_ws w)"
    and w: "starts c (skip_ws w)"
    using assms(3) by (auto simp: Let_def split: if_splits option.splits)
  then have "length (tl (skip_ws x)) < length s"
    using tl_skip_ws scan_string_shorter by (meson less_trans)
  moreover have "length t < length w"
    using t w assms(2) tl_skip_ws by (meson less_trans)
  ultimately show ?thesis
    using assms(1) [OF v] by simp
qed

lemma parse_shorter:
  shows "parse_value n s = Some (v, t) \<Longrightarrow> length t < length s"
    and "parse_elems n s = Some (vs, t) \<Longrightarrow> length t < length s"
    and "parse_members n s = Some (ms, t) \<Longrightarrow> length t < length s"
proof (induction n arbitrary: s v vs ms t)
  case (Suc n)
  { case 1 then show ?case using Suc.IH(2,3) parse_value_shorter_step by blast
  next case 2 then show ?case using Suc.IH(1,2) parse_elems_shorter_step by blast
  next case 3 then show ?case using Suc.IH(1,3) parse_members_shorter_step by blast }
qed simp_all

text \<open>Any fuel beyond twice the length of the input gives the same answer.\<close>

lemma parse_fuel_step:
  shows "2 * length s < n \<Longrightarrow> parse_value (Suc n) s = parse_value n s"
    and "2 * length s + 1 < n \<Longrightarrow> parse_elems (Suc n) s = parse_elems n s"
    and "2 * length s + 1 < n \<Longrightarrow> parse_members (Suc n) s = parse_members n s"
proof (induction n arbitrary: s)
  case (Suc n)
  { case 1
    have "parse_elems (Suc n) (tl (skip_ws s)) = parse_elems n (tl (skip_ws s))"
      "parse_members (Suc n) (tl (skip_ws s)) = parse_members n (tl (skip_ws s))"
      if "starts c (skip_ws s)" for c
      using Suc.IH(2,3) [of "tl (skip_ws s)"] tl_skip_ws [OF that] 1 by linarith+
    then show ?case
      by (auto simp: Let_def simp del: parse_elems.simps parse_members.simps)
  next
    case 2
    have "parse_value (Suc n) s = parse_value n s" using Suc.IH(1) 2 by simp
    moreover have "parse_elems (Suc n) (tl (skip_ws t)) = parse_elems n (tl (skip_ws t))"
      if "parse_value n s = Some (v, t)" "starts c (skip_ws t)" for v t c
      using Suc.IH(2) [of "tl (skip_ws t)"] tl_skip_ws [OF that(2)] parse_shorter(1) [OF that(1)] 2 by linarith
    ultimately show ?case
      by (subst (1 2) parse_elems.simps) (auto simp: Let_def simp del: parse_elems.simps parse_value.simps split: option.split)
  next
    case 3
    have v: "parse_value (Suc n) (tl (skip_ws t)) = parse_value n (tl (skip_ws t))"
      if "starts c (skip_ws s)" "scan_string (tl (skip_ws s)) = Some (k, t)" "starts d (skip_ws t)" for c k t d
      using Suc.IH(1) [of "tl (skip_ws t)"] tl_skip_ws [OF that(1)] scan_string_shorter [OF that(2)]
        tl_skip_ws [OF that(3)] 3 by linarith
    have "parse_members (Suc n) (tl (skip_ws w)) = parse_members n (tl (skip_ws w))"
      if "starts c (skip_ws s)" "scan_string (tl (skip_ws s)) = Some (k, t)" "starts d (skip_ws t)"
        "parse_value n (tl (skip_ws t)) = Some (v, w)" "starts e (skip_ws w)" for c k t d v w e
      using Suc.IH(3) [of "tl (skip_ws w)"] tl_skip_ws [OF that(1)] scan_string_shorter [OF that(2)]
        tl_skip_ws [OF that(3)] parse_shorter(1) [OF that(4)] tl_skip_ws [OF that(5)] 3 by linarith
    with v show ?case
      by (subst (1 2) parse_members.simps) (auto simp: Let_def simp del: parse_members.simps parse_value.simps split: option.split)
  }
qed simp_all

lemma parse_fuel:
  assumes "2 * length s < n" and "n \<le> m"
  shows "parse_value m s = parse_value n s"
  using assms(2)
proof (induction m rule: dec_induct)
  case (step k)
  with assms(1) show ?case by (simp only: parse_fuel_step(1))
qed simp


section \<open>Printing and parsing\<close>

text \<open>
  Values the program prints and reads back: the strings are well-formed UTF-8, and the numbers integers (the codes of
  \<open>service.Status\<close> and the counters of the statistics). Behind a number must stand nothing that continues it.
\<close>

definition int_number :: "string \<Rightarrow> bool" where
  "int_number n \<longleftrightarrow> (let d = snd (scan_sign {CHR ''-''} n) in d \<noteq> [] \<and> (\<forall>c\<in>set d. is_digit c) \<and> (hd d = CHR ''0'' \<longrightarrow> tl d = []))"

definition num_end :: "string \<Rightarrow> bool" where
  "num_end t \<longleftrightarrow> t = [] \<or> (\<not> is_digit (hd t) \<and> hd t \<notin> {CHR ''.'', CHR ''e'', CHR ''E''})"

fun wf_json :: "json \<Rightarrow> bool" where
  "wf_json JNull = True"
| "wf_json (JBool b) = True"
| "wf_json (JNum n) = int_number n"
| "wf_json (JStr s) = valid_utf8 s"
| "wf_json (JArr vs) = (\<forall>v\<in>set vs. wf_json v)"
| "wf_json (JObj ms) = (\<forall>p\<in>set ms. valid_utf8 (fst p) \<and> wf_json (snd p))"

definition value_start :: "char \<Rightarrow> bool" where
  "value_start c \<longleftrightarrow> \<not> is_ws c \<and> c \<noteq> CHR '']'' \<and> c \<noteq> CHR ''}''"

lemma starts_Cons [simp]: "starts c (d # s) \<longleftrightarrow> d = c"
  by (auto simp: starts_def)

lemma skip_ws_Cons: "\<not> is_ws c \<Longrightarrow> skip_ws (c # s) = c # s"
  by (simp add: skip_ws_def)

lemma digit_code: "is_digit c \<Longrightarrow> 48 \<le> code c \<and> code c \<le> 57"
  by (simp add: is_digit_def)

lemma int_number_hd:
  assumes "int_number n"
  obtains c s where "n = c # s" and "c = CHR ''-'' \<or> is_digit c"
  using assms by (cases n) (auto simp: int_number_def scan_sign_def split: if_splits)

lemma num_end_simps [simp]: "num_end []" "num_end (CHR '','' # t)" "num_end (CHR '']'' # t)" "num_end (CHR ''}'' # t)"
  by (simp_all add: num_end_def is_digit_def)

lemma scan_number_print:
  assumes "int_number n" and "num_end t"
  shows "scan_number (n @ t) = Some (n, t)"
proof -
  obtain sgn d where sgn: "scan_sign {CHR ''-''} n = (sgn, d)" by fastforce
  then have n: "n = sgn @ d" by (cases n) (auto simp: scan_sign_def split: if_splits)
  from sgn assms(1) have d: "d \<noteq> []" "\<forall>c\<in>set d. is_digit c" "hd d = CHR ''0'' \<longrightarrow> tl d = []" by (simp_all add: int_number_def)
  then have sign: "scan_sign {CHR ''-''} (n @ t) = (sgn, d @ t)" using sgn by (auto simp: scan_sign_def split: if_splits)
  have t: "takeWhile is_digit t = []" "dropWhile is_digit t = t" using assms(2) by (cases t; simp add: num_end_def)+
  have "scan_int (n @ t) = Some (n, t)"
  proof (cases "hd d = CHR ''0''")
    case True
    with d have "d = ''0''" by (cases d) auto
    then show ?thesis using sign n by (simp add: scan_int_def)
  next
    case False
    then have "\<not> starts (CHR ''0'') (d @ t)" using d(1) by (simp add: starts_def)
    moreover have "scan_digits (d @ t) = Some (d, t)" using d t by (simp add: scan_digits_def takeWhile_append dropWhile_append)
    ultimately show ?thesis using sign n by (simp add: scan_int_def)
  qed
  then show ?thesis using assms(2) by (auto simp: scan_number_def scan_frac_def scan_exp_def starts_def num_end_def)
qed

lemma scan_scalar_number:
  assumes "int_number n" and "num_end t"
  shows "scan_scalar (n @ t) = Some (JNum n, t)"
proof -
  obtain c s where "n = c # s" "c = CHR ''-'' \<or> is_digit c" using int_number_hd [OF assms(1)] .
  with scan_number_print [OF assms] show ?thesis by (auto simp: scan_scalar_def dest: digit_code)
qed

lemma int_number_decimal [simp]: "int_number (decimal n)"
proof -
  have d: "\<forall>c\<in>set (decimal n). is_digit c" using decimal_digits by (simp add: is_digit_def)
  have "scan_sign {CHR ''-''} (decimal n) = ([], decimal n)"
    using decimal_hd [of n] by (cases "decimal n") (auto simp: scan_sign_def)
  with d decimal_not_Nil decimal_no_zero [of n] show ?thesis by (cases "n = 0") (simp_all add: int_number_def)
qed

lemma print_json_start: "wf_json v \<Longrightarrow> \<exists>c s. print_json v = c # s \<and> value_start c"
proof (cases v)
  case (JNum n)
  assume "wf_json v"
  with JNum obtain c s where "n = c # s" "c = CHR ''-'' \<or> is_digit c" using int_number_hd by auto
  with JNum show ?thesis by (auto simp: value_start_def is_ws_def dest: digit_code)
qed (auto simp: quote_def value_start_def is_ws_def)

lemma print_json_skip:
  assumes "wf_json v"
  shows "skip_ws (print_json v @ t) = print_json v @ t"
    and "\<not> starts (CHR '']'') (print_json v @ t)" and "\<not> starts (CHR ''}'') (print_json v @ t)"
  using print_json_start [OF assms] by (auto simp: value_start_def skip_ws_Cons)

lemma not_ws [simp]:
  "\<not> is_ws (CHR 0x22)" "\<not> is_ws (CHR '','')" "\<not> is_ws (CHR '']'')" "\<not> is_ws (CHR ''}'')"
  "\<not> is_ws (CHR '':'')" "\<not> is_ws (CHR ''['')" "\<not> is_ws (CHR ''{'')"
  by (simp_all add: is_ws_def)

lemma scan_quoted: "valid_utf8 s \<Longrightarrow> scan_string (json_escape s @ CHR 0x22 # t) = Some (s, t)"
  by (rule scan_json_escape)

lemma scan_scalar_print:
  "scan_scalar (CHR ''n'' # CHR ''u'' # CHR ''l'' # CHR ''l'' # t) = Some (JNull, t)"
  "scan_scalar (CHR ''t'' # CHR ''r'' # CHR ''u'' # CHR ''e'' # t) = Some (JBool True, t)"
  "scan_scalar (CHR ''f'' # CHR ''a'' # CHR ''l'' # CHR ''s'' # CHR ''e'' # t) = Some (JBool False, t)"
  by (simp_all add: scan_scalar_def)

lemma parse_print_step:
  shows "wf_json v \<Longrightarrow> size v < n \<Longrightarrow> num_end t \<Longrightarrow> parse_value n (print_json v @ t) = Some (v, t)"
    and "\<forall>v\<in>set vs. wf_json v \<Longrightarrow> size_list size vs < n \<Longrightarrow> vs \<noteq> [] \<Longrightarrow>
      parse_elems n (print_elems vs @ CHR '']'' # t) = Some (vs, t)"
    and "\<forall>p\<in>set ms. valid_utf8 (fst p) \<and> wf_json (snd p) \<Longrightarrow>
      size_list (size_prod (\<lambda>_. 0) size) ms < n \<Longrightarrow> ms \<noteq> [] \<Longrightarrow>
      parse_members n (print_members ms @ CHR ''}'' # t) = Some (ms, t)"
proof (induction n arbitrary: v vs ms t)
  case (Suc n)
  { case 1
    show ?case
    proof (cases v)
      case (JArr vs)
      show ?thesis
      proof (cases vs)
        case (Cons w ws)
        with JArr 1 Suc.IH(2) [of vs t] show ?thesis
          by (simp add: skip_ws_Cons print_json_skip)
      qed (simp add: JArr skip_ws_Cons)
    next
      case (JNum m)
      then have m: "int_number m" "num_end t" using 1 by simp_all
      obtain c s where c: "m = c # s" "c = CHR ''-'' \<or> is_digit c" using int_number_hd [OF m(1)] .
      then have "c \<noteq> CHR 0x22 \<and> c \<noteq> CHR ''['' \<and> c \<noteq> CHR ''{''" "\<not> is_ws c" by (auto simp: is_ws_def dest: digit_code)
      with JNum c(1) scan_scalar_number [OF m] show ?thesis by (simp add: skip_ws_Cons)
    next
      case (JObj ms)
      show ?thesis
      proof (cases ms)
        case (Cons p ps)
        with JObj 1 Suc.IH(3) [of ms t] show ?thesis
          by (cases p) (simp add: skip_ws_Cons quote_def)
      qed (simp add: JObj skip_ws_Cons)
    qed (use 1 in \<open>auto simp: quote_def skip_ws_Cons scan_quoted scan_scalar_print is_ws_def\<close>)
  next
    case 2
    then obtain w ws where vs: "vs = w # ws" by (cases vs) auto
    with 2 Suc.IH(1) [of w] have "\<And>t. num_end t \<Longrightarrow> parse_value n (print_json w @ t) = Some (w, t)" by simp
    then show ?case
      using vs 2 Suc.IH(2) [of ws t] by (auto simp: skip_ws_Cons simp del: parse_value.simps)
  next
    case 3
    then obtain k w ws where ms: "ms = (k, w) # ws" by (cases ms) auto
    with 3 Suc.IH(1) [of w] have "\<And>t. num_end t \<Longrightarrow> parse_value n (print_json w @ t) = Some (w, t)" by simp
    then show ?case
      using ms 3 Suc.IH(3) [of ws t]
      by (auto simp: skip_ws_Cons quote_def scan_quoted simp del: parse_value.simps)
  }
qed simp_all

lemma parse_print:
  assumes "wf_json v" and "num_end t"
  shows "parse_value (2 * length (print_json v @ t) + 2) (print_json v @ t) = Some (v, t)"
proof -
  let ?s = "print_json v @ t" and ?n = "2 * length (print_json v @ t) + 2"
  have "parse_value (max ?n (Suc (size v))) ?s = Some (v, t)"
    by (rule parse_print_step(1)) (use assms in auto)
  moreover have "parse_value (max ?n (Suc (size v))) ?s = parse_value ?n ?s"
    by (rule parse_fuel) auto
  ultimately show ?thesis by simp
qed

lemma json_Unmarshal_print [json_simps]: "wf_json v \<Longrightarrow> json_Unmarshal (print_json v) = Ok v"
  using parse_print [of v "[]"] by (simp add: json_Unmarshal_def skip_ws_def)

lemma json_Decode_print [json_simps]: "wf_json v \<Longrightarrow> json_Decode (print_json v) = Ok v"
  using parse_print [of v "[]"] by (simp add: json_Decode_def)


text \<open>Every string in a parsed value is well-formed UTF-8.\<close>

fun utf8_json :: "json \<Rightarrow> bool" where
  "utf8_json (JStr s) = valid_utf8 s"
| "utf8_json (JArr vs) = (\<forall>v\<in>set vs. utf8_json v)"
| "utf8_json (JObj ms) = (\<forall>p\<in>set ms. valid_utf8 (fst p) \<and> utf8_json (snd p))"
| "utf8_json _ = True"

lemma scan_scalar_utf8: "scan_scalar s = Some (v, t) \<Longrightarrow> utf8_json v"
  by (auto simp: scan_scalar_def split: if_splits)

lemma parse_utf8:
  shows "parse_value n s = Some (v, t) \<Longrightarrow> utf8_json v"
    and "parse_elems n s = Some (vs, t) \<Longrightarrow> \<forall>v\<in>set vs. utf8_json v"
    and "parse_members n s = Some (ms, t) \<Longrightarrow> \<forall>p\<in>set ms. valid_utf8 (fst p) \<and> utf8_json (snd p)"
proof (induction n arbitrary: s v vs ms t)
  case (Suc n)
  { case 1 then show ?case
      using Suc.IH(2,3)
      by (auto simp: Let_def dest: scan_string_valid scan_scalar_utf8 split: if_splits)
  next
    case 2
    then obtain v w us where "parse_value n s = Some (v, w)" "vs = v # us"
      "us = [] \<or> parse_elems n (tl (skip_ws w)) = Some (us, t)"
      by (auto simp: Let_def split: if_splits option.splits)
    then show ?case using Suc.IH(1,2) by fastforce
  next
    case 3
    then obtain k x v w us where "scan_string (tl (skip_ws s)) = Some (k, x)"
      "parse_value n (tl (skip_ws x)) = Some (v, w)" "ms = (k, v) # us"
      "us = [] \<or> parse_members n (tl (skip_ws w)) = Some (us, t)"
      by (auto simp: Let_def split: if_splits option.splits)
    then show ?case using Suc.IH(1,3) scan_string_valid by fastforce
  }
qed simp_all

declare parse_value.simps [simp del] parse_elems.simps [simp del] parse_members.simps [simp del]
declare print_json.simps [simp del] print_elems.simps [simp del] print_members.simps [simp del]

lemma json_Decode_utf8: "json_Decode s = Ok v \<Longrightarrow> utf8_json v"
  by (auto simp: json_Decode_def dest: parse_utf8 split: option.splits)

lemma json_Unmarshal_utf8: "json_Unmarshal s = Ok v \<Longrightarrow> utf8_json v"
  by (auto simp: json_Unmarshal_def dest: parse_utf8 split: option.splits if_splits)

section \<open>Binding to Go types\<close>

text \<open>
  \<open>[]string\<close>: \<open>null\<close> gives the nil slice and a \<open>null\<close> element the empty string.
  \<open>map[string]string\<close>: a later member overrides an earlier one with the same key.
\<close>

fun elem_string :: "json \<Rightarrow> string result" where
  "elem_string (JStr s) = Ok s"
| "elem_string JNull = Ok []"
| "elem_string _ = Err json_error"

fun elem_strings :: "json list \<Rightarrow> string list result" where
  "elem_strings [] = Ok []"
| "elem_strings (v # vs) = (case (elem_string v, elem_strings vs) of
     (Inr s, Inr ss) \<Rightarrow> Ok (s # ss) | _ \<Rightarrow> Err json_error)"

fun bind_strings :: "json \<Rightarrow> string list result" where
  "bind_strings JNull = Ok []"
| "bind_strings (JArr vs) = elem_strings vs"
| "bind_strings _ = Err json_error"

fun member_strings :: "(string \<times> json) list \<Rightarrow> string gomap \<Rightarrow> string gomap result" where
  "member_strings [] m = Ok m"
| "member_strings ((k, v) # ms) m = (case elem_string v of
     Inl e \<Rightarrow> Err e | Inr s \<Rightarrow> member_strings ms (map_put k s m))"

fun bind_string_map :: "json \<Rightarrow> string gomap result" where
  "bind_string_map JNull = Ok []"
| "bind_string_map (JObj ms) = member_strings ms []"
| "bind_string_map _ = Err json_error"

text \<open>
  Structs. A member goes to the field with exactly its name, else to the first field that has
  its name up to case (\<open>fold_name\<close> also takes the Kelvin sign for \<open>k\<close> and the long s for \<open>s\<close>, as
  \<open>equalFoldRight\<close> does); other members are skipped. \<open>null\<close> leaves a string or int field as it
  was and empties a slice.
\<close>

datatype field_kind = FString | FInt | FStrings

fun fold_name :: "string \<Rightarrow> string" where
  "fold_name [] = []"
| "fold_name (c # s) =
     (if take 3 (c # s) = [CHR 0xE2, CHR 0x84, CHR 0xAA] then CHR ''K'' # fold_name (drop 2 s)
      else if take 2 (c # s) = [CHR 0xC5, CHR 0xBF] then CHR ''S'' # fold_name (drop 1 s)
      else (if 97 \<le> code c \<and> code c \<le> 122 then char_of (code c - 32) else c) # fold_name s)"

definition find_field :: "(string \<times> field_kind) list \<Rightarrow> string \<Rightarrow> (string \<times> field_kind) option" where
  "find_field fs k = (case find (\<lambda>f. fst f = k) fs of
     Some f \<Rightarrow> Some f | None \<Rightarrow> find (\<lambda>f. fold_name (fst f) = fold_name k) fs)"

text \<open>A literal that \<open>strconv.ParseInt(_, 10, 64)\<close> takes.\<close>

definition int_literal :: "string \<Rightarrow> int option" where
  "int_literal s = (let (sgn, d) = scan_sign {CHR ''-''} s;
       n = foldl (\<lambda>a c. 10 * a + int (code c - 48)) 0 d; i = (if sgn = [] then n else - n) in
     if d \<noteq> [] \<and> (\<forall>c\<in>set d. is_digit c) \<and> - (2 ^ 63) \<le> i \<and> i < 2 ^ 63 then Some i else None)"

fun accepts :: "field_kind \<Rightarrow> json \<Rightarrow> bool" where
  "accepts FString (JStr s) = True"
| "accepts FInt (JNum n) = (int_literal n \<noteq> None)"
| "accepts FStrings v = (case bind_strings v of Inl _ \<Rightarrow> False | Inr _ \<Rightarrow> True)"
| "accepts _ _ = False"

fun bind_members :: "(string \<times> field_kind) list \<Rightarrow> (string \<times> json) list \<Rightarrow> json gomap \<Rightarrow> json gomap result" where
  "bind_members fs [] m = Ok m"
| "bind_members fs ((k, v) # ms) m = (case find_field fs k of
     None \<Rightarrow> bind_members fs ms m
   | Some (f, kind) \<Rightarrow>
       if v = JNull \<and> kind \<noteq> FStrings then bind_members fs ms m
       else if accepts kind v then bind_members fs ms (map_put f v m)
       else Err json_error)"

fun bind_struct :: "(string \<times> field_kind) list \<Rightarrow> json \<Rightarrow> json gomap result" where
  "bind_struct fs JNull = Ok []"
| "bind_struct fs (JObj ms) = bind_members fs ms []"
| "bind_struct fs _ = Err json_error"

definition string_field :: "json gomap \<Rightarrow> string \<Rightarrow> string" where
  "string_field m f = (case map_of m f of Some (JStr s) \<Rightarrow> s | _ \<Rightarrow> [])"

definition strings_field :: "json gomap \<Rightarrow> string \<Rightarrow> string list" where
  "strings_field m f = (case map_of m f of
     Some v \<Rightarrow> (case bind_strings v of Inl _ \<Rightarrow> [] | Inr ss \<Rightarrow> ss) | None \<Rightarrow> [])"

definition bind_result :: "('a \<Rightarrow> 'b result) \<Rightarrow> 'a result \<Rightarrow> 'b result" where
  "bind_result f r = (case r of Inl e \<Rightarrow> Err e | Inr x \<Rightarrow> f x)"

definition json_of_strings :: "string list \<Rightarrow> json" where
  "json_of_strings ss = JArr (map JStr ss)"

definition json_of_map :: "string gomap \<Rightarrow> json" where
  "json_of_map m = JObj (map (\<lambda>p. (fst p, JStr (snd p))) m)"

definition marshal_strings :: "string list \<Rightarrow> string" where
  "marshal_strings ss = print_json (json_of_strings ss)"

definition unmarshal_strings :: "string \<Rightarrow> string list result" where
  "unmarshal_strings s = bind_result bind_strings (json_Unmarshal s)"

definition marshal_map :: "string gomap \<Rightarrow> string" where
  "marshal_map m = print_json (json_of_map m)"

definition unmarshal_map :: "string \<Rightarrow> string gomap result" where
  "unmarshal_map s = bind_result bind_string_map (json_Unmarshal s)"

text \<open>A struct of string fields; \<open>omitempty\<close> leaves out the empty ones.\<close>

definition json_of_fields :: "string gomap \<Rightarrow> json" where
  "json_of_fields fs = JObj (map (\<lambda>p. (fst p, JStr (snd p))) fs)"

definition omit_empty :: "string gomap \<Rightarrow> string gomap" where
  "omit_empty fs = filter (\<lambda>p. snd p \<noteq> []) fs"

lemma bind_result_simps [simp]:
  "bind_result f (Ok x) = f x" "bind_result f (Err e) = Err e"
  by (simp_all add: bind_result_def)

lemma bind_result_Ok: "bind_result f r = Ok y \<longleftrightarrow> (\<exists>x. r = Ok x \<and> f x = Ok y)"
  by (cases r) auto

lemma elem_strings_JStr [simp]: "elem_strings (map JStr ss) = Ok ss"
  by (induction ss) auto

lemma unmarshal_marshal_strings [json_simps]:
  "\<forall>s\<in>set ss. valid_utf8 s \<Longrightarrow> unmarshal_strings (marshal_strings ss) = Ok ss"
  by (simp add: unmarshal_strings_def marshal_strings_def json_of_strings_def json_simps)

lemma member_strings_acc:
  "member_strings (map (\<lambda>p. (fst p, JStr (snd p))) ps) m = Ok (fold (\<lambda>p. map_put (fst p) (snd p)) ps m)"
  by (induction ps arbitrary: m) auto

lemma map_of_fold_put:
  "distinct (map fst ps) \<Longrightarrow> map_of (fold (\<lambda>p. map_put (fst p) (snd p)) ps m) = map_of m ++ map_of ps"
  by (induction ps arbitrary: m) (auto simp: map_add_upd_left dom_map_of_conv_image_fst)

lemma gomap_wf_fold_put: "gomap_wf m \<Longrightarrow> gomap_wf (fold (\<lambda>p. map_put (fst p) (snd p)) ps m)"
  by (induction ps arbitrary: m) auto

lemma fold_put_id: "gomap_wf m \<Longrightarrow> fold (\<lambda>p. map_put (fst p) (snd p)) m [] = m"
  by (rule gomap_ext) (simp_all add: gomap_wf_fold_put map_of_fold_put gomap_wf_distinct)

lemma elem_strings_utf8:
  "elem_strings vs = Ok ss \<Longrightarrow> \<forall>v\<in>set vs. utf8_json v \<Longrightarrow> \<forall>s\<in>set ss. valid_utf8 s"
proof (induction vs arbitrary: ss)
  case (Cons v vs)
  then obtain s ss' where "elem_string v = Ok s" "elem_strings vs = Ok ss'" "ss = s # ss'"
    by (auto split: sum.splits)
  with Cons show ?case by (cases v) auto
qed simp

lemma bind_strings_utf8: "bind_strings v = Ok ss \<Longrightarrow> utf8_json v \<Longrightarrow> \<forall>s\<in>set ss. valid_utf8 s"
  by (cases v) (auto dest: elem_strings_utf8)

lemma unmarshal_strings_utf8: "unmarshal_strings s = Ok ss \<Longrightarrow> \<forall>x\<in>set ss. valid_utf8 x"
  by (auto simp: unmarshal_strings_def bind_result_Ok dest: json_Unmarshal_utf8 bind_strings_utf8)

definition utf8_map :: "string gomap \<Rightarrow> bool" where
  "utf8_map m \<longleftrightarrow> (\<forall>k v. map_of m k = Some v \<longrightarrow> valid_utf8 k \<and> valid_utf8 v)"

lemma utf8_map_Nil [simp]: "utf8_map []"
  by (simp add: utf8_map_def)

lemma utf8_map_put [simp]: "utf8_map m \<Longrightarrow> valid_utf8 k \<Longrightarrow> valid_utf8 v \<Longrightarrow> utf8_map (map_put k v m)"
  by (simp add: utf8_map_def)

lemma utf8_map_delete [simp]: "utf8_map m \<Longrightarrow> utf8_map (map_delete k m)"
  by (simp add: utf8_map_def)

lemma utf8_map_set: "gomap_wf m \<Longrightarrow> utf8_map m \<longleftrightarrow> (\<forall>p\<in>set m. valid_utf8 (fst p) \<and> valid_utf8 (snd p))"
  by (auto simp: utf8_map_def gomap_wf_distinct)

lemma unmarshal_marshal_map [json_simps]:
  "gomap_wf m \<Longrightarrow> utf8_map m \<Longrightarrow> unmarshal_map (marshal_map m) = Ok m"
  by (simp add: utf8_map_set unmarshal_map_def marshal_map_def json_of_map_def json_simps
      member_strings_acc fold_put_id)

lemma elem_string_utf8: "elem_string v = Ok s \<Longrightarrow> utf8_json v \<Longrightarrow> valid_utf8 s"
  by (cases v) auto

lemma member_strings_inv:
  "member_strings ms m = Ok m' \<Longrightarrow> gomap_wf m \<Longrightarrow> \<forall>p\<in>set ms. valid_utf8 (fst p) \<and> utf8_json (snd p) \<Longrightarrow>
    utf8_map m \<Longrightarrow> gomap_wf m' \<and> utf8_map m'"
proof (induction ms m rule: member_strings.induct)
  case (2 k v ms m)
  then obtain s where "elem_string v = Ok s" "member_strings ms (map_put k s m) = Ok m'"
    by (auto split: sum.splits)
  with 2 elem_string_utf8 show ?case by simp
qed simp

lemma bind_string_map_inv: "bind_string_map j = Ok m \<Longrightarrow> utf8_json j \<Longrightarrow> gomap_wf m \<and> utf8_map m"
  by (cases j) (auto dest: member_strings_inv)

lemma unmarshal_map_inv: "unmarshal_map s = Ok m \<Longrightarrow> gomap_wf m \<and> utf8_map m"
  unfolding unmarshal_map_def bind_result_Ok using json_Unmarshal_utf8 bind_string_map_inv by blast

definition utf8_fields :: "json gomap \<Rightarrow> bool" where
  "utf8_fields m \<longleftrightarrow> (\<forall>k v. map_of m k = Some v \<longrightarrow> utf8_json v)"

lemma utf8_fields_put [simp]: "utf8_fields m \<Longrightarrow> utf8_json v \<Longrightarrow> utf8_fields (map_put k v m)"
  by (simp add: utf8_fields_def)

lemma bind_members_utf8:
  "bind_members fs ms m = Ok m' \<Longrightarrow> \<forall>p\<in>set ms. utf8_json (snd p) \<Longrightarrow> utf8_fields m \<Longrightarrow> utf8_fields m'"
  by (induction fs ms m rule: bind_members.induct) (auto split: option.splits if_splits)

lemma bind_struct_utf8: "bind_struct fs j = Ok m \<Longrightarrow> utf8_json j \<Longrightarrow> utf8_fields m"
  by (cases j) (auto simp: utf8_fields_def [of "[]"] dest: bind_members_utf8)

lemma string_field_utf8: "utf8_fields m \<Longrightarrow> valid_utf8 (string_field m f)"
  by (auto simp: string_field_def utf8_fields_def split: option.splits json.splits)
    (metis utf8_json.simps(1))

end
