(* ===== verification/Urlutil.thy ===== *)
theory Urlutil
  imports Prelude "HOL-Library.Sublist"
begin

text \<open>
  \<open>utils/urlutil/urlutil.go\<close>: \<open>MakeURL\<close> completes an abbreviated address. Every URL the masters,
  the nodes and the client request goes through it, and the cache master keys its node map by it.
\<close>

definition HasPrefix :: "string \<Rightarrow> string \<Rightarrow> bool" where
  "HasPrefix s p \<longleftrightarrow> take (length p) s = p"

definition TrimSuffix :: "string \<Rightarrow> string \<Rightarrow> string" where
  "TrimSuffix s x = (if x \<noteq> [] \<and> length x \<le> length s \<and> drop (length s - length x) s = x
     then take (length s - length x) s else s)"

definition MakeURL :: "string \<Rightarrow> string" where
  "MakeURL addr =
     TrimSuffix
       (if HasPrefix addr '':'' then ''http://127.0.0.1'' @ addr
        else if \<not> HasPrefix addr ''http://'' \<and> \<not> HasPrefix addr ''https://'' then ''http://'' @ addr
        else addr)
       ''/''"

lemma HasPrefix_append [simp]: "HasPrefix (p @ s) p"
  by (simp add: HasPrefix_def)

lemma HasPrefix_prefix: "HasPrefix s p \<longleftrightarrow> prefix p s"
  by (auto simp: HasPrefix_def prefix_def) (metis append_take_drop_id)

lemma HasPrefix_hd: "HasPrefix s (c # p) \<Longrightarrow> s \<noteq> [] \<and> hd s = c"
  by (cases s) (auto simp: HasPrefix_def)

lemma HasPrefix_snoc:
  "s \<noteq> [] \<Longrightarrow> last s \<noteq> c \<Longrightarrow> p \<noteq> [] \<Longrightarrow> last (butlast p) = c \<or> butlast p = [] \<Longrightarrow>
    HasPrefix (s @ [c]) p \<longleftrightarrow> HasPrefix s p"
  by (auto simp: HasPrefix_prefix) (metis butlast_snoc)+

lemma TrimSuffix_snoc [simp]: "TrimSuffix (s @ [c]) [c] = s"
  by (simp add: TrimSuffix_def)

lemma TrimSuffix_other: "s = [] \<or> last s \<noteq> c \<Longrightarrow> TrimSuffix s [c] = s"
  by (cases s rule: rev_cases) (auto simp: TrimSuffix_def)

text \<open>A normal form: an absolute address that does not end in a slash.\<close>

definition is_url :: "string \<Rightarrow> bool" where
  "is_url u \<longleftrightarrow> (HasPrefix u ''http://'' \<or> HasPrefix u ''https://'') \<and> last u \<noteq> CHR ''/''"

text \<open>The address with its scheme, before the trailing slash is cut.\<close>

definition with_scheme :: "string \<Rightarrow> string" where
  "with_scheme addr =
     (if HasPrefix addr '':'' then ''http://127.0.0.1'' @ addr
      else if \<not> HasPrefix addr ''http://'' \<and> \<not> HasPrefix addr ''https://'' then ''http://'' @ addr
      else addr)"

lemma MakeURL_with_scheme: "MakeURL addr = TrimSuffix (with_scheme addr) ''/''"
  by (simp add: MakeURL_def with_scheme_def)

lemma with_scheme_prefix: "HasPrefix (with_scheme a) ''http://'' \<or> HasPrefix (with_scheme a) ''https://''"
  by (auto simp: with_scheme_def HasPrefix_def)

lemma with_scheme_last: "a \<noteq> [] \<Longrightarrow> with_scheme a \<noteq> [] \<and> last (with_scheme a) = last a"
  by (auto simp: with_scheme_def HasPrefix_def)

lemma with_scheme_snoc:
  assumes "a \<noteq> []" and "last a \<noteq> CHR ''/''"
  shows "with_scheme (a @ ''/'') = with_scheme a @ ''/''"
proof -
  have "HasPrefix (a @ ''/'') '':'' \<longleftrightarrow> HasPrefix a '':''"
    "HasPrefix (a @ ''/'') ''http://'' \<longleftrightarrow> HasPrefix a ''http://''"
    "HasPrefix (a @ ''/'') ''https://'' \<longleftrightarrow> HasPrefix a ''https://''"
    by (rule HasPrefix_snoc [OF assms], simp_all)+
  then show ?thesis by (simp add: with_scheme_def)
qed

lemma MakeURL_is_url:
  assumes "is_url u"
  shows "MakeURL u = u"
proof -
  have "hd u = CHR ''h''" using assms HasPrefix_hd unfolding is_url_def by blast
  then have "\<not> HasPrefix u '':''" using HasPrefix_hd [of u "CHR '':''" "[]"] by auto
  with assms show ?thesis by (auto simp: MakeURL_def is_url_def TrimSuffix_other)
qed

lemma MakeURL_no_slash:
  assumes "a \<noteq> []" and "last a \<noteq> CHR ''/''"
  shows "MakeURL a = with_scheme a" and "is_url (MakeURL a)"
proof -
  show u: "MakeURL a = with_scheme a"
    using assms with_scheme_last by (simp add: MakeURL_with_scheme TrimSuffix_other)
  show "is_url (MakeURL a)"
    using with_scheme_prefix with_scheme_last [OF assms(1)] assms(2) by (auto simp: u is_url_def)
qed

section \<open>Properties\<close>

text \<open>
  On an address with a host, MakeURL gives an absolute URL without a trailing slash, is
  idempotent, and gives the same URL for the address with a slash appended. So an address has
  one URL however often it is completed, which the keys of the cache master's node map rely on.
\<close>

lemma MakeURL_normalises:
  assumes "a \<noteq> []" and "last a \<noteq> CHR ''/''"
  shows "is_url (MakeURL a) \<and> MakeURL (MakeURL a) = MakeURL a \<and> MakeURL (a @ ''/'') = MakeURL a"
  using MakeURL_no_slash [OF assms] MakeURL_is_url with_scheme_snoc [OF assms]
  by (auto simp: MakeURL_with_scheme [of "a @ ''/''"])

end
