(* ===== verification/DbMaster.thy ===== *)
theory DbMaster
  imports Meta JsonValue Urlutil
begin

text \<open>
  \<open>db/master/master.go\<close> and \<open>db/master/key.go\<close>: the master of the database (raft) group. It keeps
  no state of its own: the list of HTTP addresses and the raft-to-HTTP address table live in the
  meta store, so each method is a function of that store (\<open>m\<close>, with its methods \<open>M\<close>).

  \<open>heartbeat\<close> pings all peers at once; the goroutines append the failing ones to \<open>toRemove\<close> in the
  order they finish. \<open>removeNodes\<close> turns the list into a set, so the model keeps them in peer order.
\<close>

section \<open>Model\<close>

definition raftNodesKey :: string where
  "raftNodesKey = RaftNodesKey Config"

definition httpAddrKeyOfRaftAddr :: "string \<Rightarrow> string" where
  "httpAddrKeyOfRaftAddr raftAddr = RaftKey Config @ ''.'' @ raftAddr"

definition fetchPeers :: "'m Meta \<Rightarrow> 'm \<Rightarrow> string list result" where
  "fetchPeers M m = (case meta_Get M m raftNodesKey of
     Inl err \<Rightarrow> if err = ErrDataNotFound then Ok [] else Err err
   | Inr val \<Rightarrow> unmarshal_strings val)"

definition Peers :: "'m Meta \<Rightarrow> 'm \<Rightarrow> string list result" where
  "Peers M m = fetchPeers M m"

definition UpdatePeers :: "'m Meta \<Rightarrow> 'm \<Rightarrow> string list \<Rightarrow> error \<times> 'm" where
  "UpdatePeers M m peers = meta_Put M m raftNodesKey (marshal_strings (sort peers))"

definition RegisterPeer :: "'m Meta \<Rightarrow> 'm \<Rightarrow> string \<Rightarrow> string \<Rightarrow> error \<times> 'm" where
  "RegisterPeer M m raftAddr httpAddr = meta_Put M m (httpAddrKeyOfRaftAddr raftAddr) httpAddr"

definition PeerHTTPAddr :: "'m Meta \<Rightarrow> 'm \<Rightarrow> string \<Rightarrow> string result" where
  "PeerHTTPAddr M m raftAddr = meta_Get M m (httpAddrKeyOfRaftAddr raftAddr)"

text \<open>The loop of \<open>removeNodes\<close> over the current peers: the kept ones, and whether any was dropped.\<close>

fun removeNodes_loop :: "string set \<Rightarrow> string list \<Rightarrow> string list \<Rightarrow> bool \<Rightarrow> string list \<times> bool" where
  "removeNodes_loop toRemove [] newPeers changed = (newPeers, changed)"
| "removeNodes_loop toRemove (peer # curNodes) newPeers changed =
     (if peer \<notin> toRemove then removeNodes_loop toRemove curNodes (newPeers @ [peer]) changed
      else removeNodes_loop toRemove curNodes newPeers True)"

text \<open>
  \<open>removeNodes\<close> reads the list and, when it has to, writes a shorter one. \<open>removeNodes_plan\<close> is what it does up to
  the write, with the list it is going to write; nothing locks the store in between, so \<open>removeNodes\<close> has the
  store as it reads it (\<open>m\<close>) and as it writes it (\<open>m'\<close>).
\<close>

definition removeNodes_plan :: "'m Meta \<Rightarrow> 'm \<Rightarrow> string list \<Rightarrow> string list option" where
  "removeNodes_plan M m nodes =
     (if nodes = [] then None
      else case fetchPeers M m of
        Inl _ \<Rightarrow> None
      | Inr curNodes \<Rightarrow>
          (let (newPeers, changed) = removeNodes_loop (set nodes) curNodes [] False
           in if changed then Some newPeers else None))"

definition removeNodes :: "'m Meta \<Rightarrow> 'm \<Rightarrow> 'm \<Rightarrow> string list \<Rightarrow> 'm" where
  "removeNodes M m m' nodes = (case removeNodes_plan M m nodes of
     None \<Rightarrow> m' | Some newPeers \<Rightarrow> snd (UpdatePeers M m' newPeers))"

text \<open>The check of one peer: removed on a failed request and on any status but 200.\<close>

definition shouldRemove :: "HTTPGetter \<Rightarrow> string \<Rightarrow> bool" where
  "shouldRemove getter url = (case getter (MakeURL url @ ''/ping'') of
     Inl _ \<Rightarrow> True | Inr resp \<Rightarrow> StatusCode resp \<noteq> StatusOK_http)"

text \<open>\<open>heartbeat\<close> up to the point where it hands \<open>toRemove\<close> to \<open>go m.removeNodes\<close>.\<close>

definition heartbeat_toRemove :: "'m Meta \<Rightarrow> HTTPGetter \<Rightarrow> 'm \<Rightarrow> string list" where
  "heartbeat_toRemove M getter m = (case fetchPeers M m of
     Inl _ \<Rightarrow> [] | Inr peers \<Rightarrow> filter (shouldRemove getter) peers)"

text \<open>
  One heartbeat with its removal: \<open>m\<close> is the store when the heartbeat reads the peers, \<open>m1\<close> the store when
  the removal, which runs in its own goroutine, reads them again, and \<open>m2\<close> the store when it writes.
\<close>

definition heartbeat :: "'m Meta \<Rightarrow> HTTPGetter \<Rightarrow> 'm \<Rightarrow> 'm \<Rightarrow> 'm \<Rightarrow> 'm" where
  "heartbeat M getter m m1 m2 =
     (let toRemove = heartbeat_toRemove M getter m
      in if toRemove = [] then m2 else removeNodes M m1 m2 toRemove)"

section \<open>Lemmas\<close>

lemma removeNodes_loop_eq:
  "removeNodes_loop R xs acc ch =
     (acc @ filter (\<lambda>x. x \<notin> R) xs, ch \<or> (\<exists>x\<in>set xs. x \<in> R))"
  by (induction xs arbitrary: acc ch) auto

lemma keys_differ [simp]: "httpAddrKeyOfRaftAddr a \<noteq> raftNodesKey" "raftNodesKey \<noteq> httpAddrKeyOfRaftAddr a"
  by (simp_all add: httpAddrKeyOfRaftAddr_def raftNodesKey_def Config_def)

lemma httpAddrKey_inj [simp]: "httpAddrKeyOfRaftAddr a = httpAddrKeyOfRaftAddr b \<longleftrightarrow> a = b"
  by (simp add: httpAddrKeyOfRaftAddr_def)

text \<open>The order in which the failing peers were collected does not matter.\<close>

lemma removeNodes_set:
  assumes "set xs = set ys"
  shows "removeNodes M m m' xs = removeNodes M m m' ys"
proof -
  have "xs = [] \<longleftrightarrow> ys = []" using assms by auto
  then show ?thesis unfolding removeNodes_def removeNodes_plan_def assms by simp
qed

context meta_store
begin

text \<open>The peer list in the store: absent, or the encoding of the given list.\<close>

definition has_peers :: "'m \<Rightarrow> string list \<Rightarrow> bool" where
  "has_peers m ps \<longleftrightarrow> up m \<and> sorted ps \<and> (\<forall>p\<in>set ps. valid_utf8 p) \<and>
     (kv m raftNodesKey = Some (marshal_strings ps) \<or> ps = [] \<and> kv m raftNodesKey = None)"

lemma fetchPeers_has: "has_peers m ps \<Longrightarrow> fetchPeers M m = Ok ps"
  by (auto simp: has_peers_def fetchPeers_def Get_kv json_simps)

lemma UpdatePeers_has:
  assumes "up m" and "\<forall>p\<in>set ps. valid_utf8 p"
  shows "fst (UpdatePeers M m ps) = None"
    and "has_peers (snd (UpdatePeers M m ps)) (sort ps)"
    and "kv (snd (UpdatePeers M m ps)) = (kv m)(raftNodesKey \<mapsto> marshal_strings (sort ps))"
  using Put_kv [OF assms(1), of raftNodesKey "marshal_strings (sort ps)"] assms(2)
  by (auto simp: UpdatePeers_def has_peers_def)

lemma removeNodes_plan_has:
  assumes "has_peers m ps"
  shows "removeNodes_plan M m nodes =
    (if \<exists>p\<in>set ps. p \<in> set nodes then Some (filter (\<lambda>p. p \<notin> set nodes) ps) else None)"
  using fetchPeers_has [OF assms] by (auto simp: removeNodes_plan_def removeNodes_loop_eq)

text \<open>A removal writes what it makes of the list it read, whatever the list has become since.\<close>

lemma removeNodes_has:
  assumes "has_peers m ps" and "has_peers m' ps'"
  shows "has_peers (removeNodes M m m' nodes)
    (if \<exists>p\<in>set ps. p \<in> set nodes then filter (\<lambda>p. p \<notin> set nodes) ps else ps')"
proof (cases "\<exists>p\<in>set ps. p \<in> set nodes")
  case True
  let ?ps = "filter (\<lambda>p. p \<notin> set nodes) ps"
  have "sort ?ps = ?ps" "\<forall>p\<in>set ?ps. valid_utf8 p" "up m'"
    using assms by (auto simp: has_peers_def sorted_filter_id sorted_sort_id)
  with UpdatePeers_has(2) [of m' ?ps] True show ?thesis
    by (simp add: removeNodes_def removeNodes_plan_has [OF assms(1)])
qed (use assms(2) in \<open>simp add: removeNodes_def removeNodes_plan_has [OF assms(1)]\<close>)

lemma removeNodes_other: "up m' \<Longrightarrow> k \<noteq> raftNodesKey \<Longrightarrow> kv (removeNodes M m m' nodes) k = kv m' k"
  by (simp add: removeNodes_def UpdatePeers_def Put_Put split: option.split)

lemma heartbeat_has:
  assumes "has_peers m ps" and "has_peers m1 ps1" and "has_peers m2 ps2"
  shows "has_peers (heartbeat M getter m m1 m2)
    (if \<exists>p\<in>set ps1. p \<in> set ps \<and> shouldRemove getter p
     then filter (\<lambda>p. \<not> (p \<in> set ps \<and> shouldRemove getter p)) ps1 else ps2)"
proof -
  let ?R = "filter (shouldRemove getter) ps"
  have R: "heartbeat_toRemove M getter m = ?R"
    using fetchPeers_has [OF assms(1)] by (simp add: heartbeat_toRemove_def)
  have dead: "x \<in> set ?R \<longleftrightarrow> x \<in> set ps \<and> shouldRemove getter x" for x by auto
  have "has_peers (removeNodes M m1 m2 ?R)
      (if \<exists>p\<in>set ps1. p \<in> set ps \<and> shouldRemove getter p
       then filter (\<lambda>p. \<not> (p \<in> set ps \<and> shouldRemove getter p)) ps1 else ps2)"
    using removeNodes_has [OF assms(2,3), of ?R] unfolding dead .
  moreover have "removeNodes M m1 m2 ?R = m2" if "?R = []" unfolding that by (simp add: removeNodes_def removeNodes_plan_def)
  ultimately show ?thesis unfolding heartbeat_def R Let_def by (cases "?R = []") simp_all
qed

lemma Register_lookup:
  assumes "up m" and "RegisterPeer M m r h = (None, m')"
  shows "PeerHTTPAddr M m' r = Ok h" and "r' \<noteq> r \<Longrightarrow> PeerHTTPAddr M m' r' = PeerHTTPAddr M m r'"
    and "fetchPeers M m' = fetchPeers M m"
  using assms Get_Put_same [OF assms(1), of "httpAddrKeyOfRaftAddr r" h m']
    Get_Put_other [OF assms(1), of "httpAddrKeyOfRaftAddr r" h m']
  by (auto simp: RegisterPeer_def PeerHTTPAddr_def fetchPeers_def) 

end


section \<open>Properties\<close>

text \<open>An in-memory client with the documented behaviour of etcd, for the witnesses.\<close>

definition mem_Get :: "string gomap \<Rightarrow> string \<Rightarrow> string list result" where
  "mem_Get c k = Ok (case map_of c k of None \<Rightarrow> [] | Some v \<Rightarrow> [v])"

definition mem_Put :: "string gomap \<Rightarrow> string \<Rightarrow> string \<Rightarrow> error \<times> string gomap" where
  "mem_Put c k v = (None, map_put k v c)"

lemma mem_etcd_client: "etcd_client mem_Get mem_Put (\<lambda>_. True) map_of"
  by (simp add: etcd_client_def mem_Get_def mem_Put_def)

text \<open>
  The peer list survives the store: on a reachable etcd, UpdatePeers succeeds and Peers
  then returns the same addresses, sorted, whatever the JSON encoding had to escape; the table
  of raft addresses is left alone.
\<close>

lemma UpdatePeers_Peers:
  assumes "etcd_client g p up kv" and "up m" and "\<forall>x\<in>set ps. valid_utf8 x"
    and "UpdatePeers (etcd_meta g p) m ps = (e, m')"
  shows "e = None \<and> Peers (etcd_meta g p) m' = Ok (sort ps)
    \<and> PeerHTTPAddr (etcd_meta g p) m' r = PeerHTTPAddr (etcd_meta g p) m r"
proof -
  note M = etcd_meta_store [OF assms(1)]
  note up = meta_store.UpdatePeers_has [OF M assms(2,3)]
  have "e = None" using up(1) assms(4) by simp
  moreover have "Peers (etcd_meta g p) m' = Ok (sort ps)"
    using meta_store.fetchPeers_has [OF M up(2)] assms(4) by (simp add: Peers_def)
  moreover have "PeerHTTPAddr (etcd_meta g p) m' r = PeerHTTPAddr (etcd_meta g p) m r"
    using meta_store.Get_Put_other [OF M assms(2), of raftNodesKey] assms(4) \<open>e = None\<close>
    by (simp add: UpdatePeers_def PeerHTTPAddr_def)
  ultimately show ?thesis by simp
qed

text \<open>
  C25: a heartbeat removes exactly the peers that fail their ping. The removal works on the list as it
  is when the removal reads it (ps1, in m1), so a peer that has joined since the heartbeat read the list
  (ps, in m) is kept, as long as nobody writes the list between the removal's read and its write.
\<close>

theorem heartbeat_removes_exactly_the_dead:
  assumes "etcd_client g p up kv"
    and "up m" and "kv m raftNodesKey = Some (marshal_strings ps)"
    and "up m1" and "kv m1 raftNodesKey = Some (marshal_strings ps1)"
    and "up m2" and "kv m2 raftNodesKey = kv m1 raftNodesKey"
    and "sorted ps" and "sorted ps1" and "\<forall>x\<in>set ps \<union> set ps1. valid_utf8 x"
  shows "Peers (etcd_meta g p) (heartbeat (etcd_meta g p) getter m m1 m2) =
    Ok (filter (\<lambda>x. \<not> (x \<in> set ps \<and> shouldRemove getter x)) ps1)"
proof -
  let ?dead = "\<lambda>x. x \<in> set ps \<and> shouldRemove getter x"
  note M = etcd_meta_store [OF assms(1)]
  have "meta_store.has_peers up kv m ps" "meta_store.has_peers up kv m1 ps1" "meta_store.has_peers up kv m2 ps1"
    using assms(2-10) by (auto simp: meta_store.has_peers_def [OF M])
  from meta_store.heartbeat_has [OF M this]
  have "Peers (etcd_meta g p) (heartbeat (etcd_meta g p) getter m m1 m2) =
      Ok (if \<exists>x\<in>set ps1. ?dead x then filter (\<lambda>x. \<not> ?dead x) ps1 else ps1)"
    unfolding Peers_def by (rule meta_store.fetchPeers_has [OF M])
  moreover have "filter (\<lambda>x. \<not> ?dead x) ps1 = ps1" if "\<not> (\<exists>x\<in>set ps1. ?dead x)"
    using that by (auto simp: filter_id_conv)
  ultimately show ?thesis by (auto split: if_splits)
qed

theorem heartbeat_removes_exactly_the_dead_witness:
  "Peers (etcd_meta mem_Get mem_Put) (heartbeat (etcd_meta mem_Get mem_Put)
     (\<lambda>u. if u = ''http://a:1/ping'' then Ok \<lparr>StatusCode = 200, Body = Ok ''pong''\<rparr> else Err (Errorf ''refused''))
     [(raftNodesKey, marshal_strings [''a:1'', ''b:2''])]
     [(raftNodesKey, marshal_strings [''a:1'', ''b:2'', ''c:3''])]
     [(raftNodesKey, marshal_strings [''a:1'', ''b:2'', ''c:3''])]) = Ok [''a:1'', ''c:3'']"
proof -
  have "sorted [''a:1'', ''b:2'', ''c:3'']" by (simp add: less_char_def)
  then show ?thesis
    using heartbeat_removes_exactly_the_dead [OF mem_etcd_client, of
        "[(raftNodesKey, marshal_strings [''a:1'', ''b:2''])]" "[''a:1'', ''b:2'']"
        "[(raftNodesKey, marshal_strings [''a:1'', ''b:2'', ''c:3''])]" "[''a:1'', ''b:2'', ''c:3'']"
        "[(raftNodesKey, marshal_strings [''a:1'', ''b:2'', ''c:3''])]"]
    by (simp add: shouldRemove_def MakeURL_def HasPrefix_def TrimSuffix_def)
qed

text \<open>
  C26: a removal overwrites what was published in the meantime. When the list the removal has read
  (ps1, in m1) holds a dead peer, then whatever list is in the store when it writes (ps2, in m2), a peer that
  is in ps2 but not in ps1, because a node has joined in between, is no longer published.
\<close>

theorem removal_overwrites_join:
  assumes "etcd_client g p up kv"
    and "up m" and "kv m raftNodesKey = Some (marshal_strings ps)"
    and "up m1" and "kv m1 raftNodesKey = Some (marshal_strings ps1)"
    and "up m2" and "kv m2 raftNodesKey = Some (marshal_strings ps2)"
    and "sorted ps" and "sorted ps1" and "sorted ps2" and "\<forall>x\<in>set ps \<union> set ps1 \<union> set ps2. valid_utf8 x"
    and "dead \<in> set ps" and "dead \<in> set ps1" and "shouldRemove getter dead"
    and "new \<in> set ps2" and "new \<notin> set ps1"
  shows "Peers (etcd_meta g p) m2 = Ok ps2
    \<and> (\<exists>qs. Peers (etcd_meta g p) (heartbeat (etcd_meta g p) getter m m1 m2) = Ok qs \<and> new \<notin> set qs)"
proof -
  note M = etcd_meta_store [OF assms(1)]
  have h: "meta_store.has_peers up kv m ps" "meta_store.has_peers up kv m1 ps1" "meta_store.has_peers up kv m2 ps2"
    using assms(2-11) by (auto simp: meta_store.has_peers_def [OF M])
  show ?thesis
    using meta_store.fetchPeers_has [OF M h(3)] meta_store.fetchPeers_has [OF M meta_store.heartbeat_has [OF M h, of getter]] assms(12-16)
    by (auto simp: Peers_def split: if_splits)
qed

theorem removal_overwrites_join_witness:
  "\<exists>qs. Peers (etcd_meta mem_Get mem_Put) (heartbeat (etcd_meta mem_Get mem_Put) (\<lambda>u. Err (Errorf ''refused''))
     [(raftNodesKey, marshal_strings [''a:1''])] [(raftNodesKey, marshal_strings [''a:1''])]
     [(raftNodesKey, marshal_strings [''a:1'', ''b:2''])]) = Ok qs \<and> ''b:2'' \<notin> set qs"
proof -
  have "sorted [''a:1'', ''b:2'']" by (simp add: less_char_def)
  then show ?thesis
    using removal_overwrites_join [OF mem_etcd_client, of "[(raftNodesKey, marshal_strings [''a:1''])]" "[''a:1'']"
        "[(raftNodesKey, marshal_strings [''a:1''])]" "[''a:1'']" "[(raftNodesKey, marshal_strings [''a:1'', ''b:2''])]"
        "[''a:1'', ''b:2'']" "''a:1''" "\<lambda>u. Err (Errorf ''refused'')" "''b:2''"]
    by (simp add: shouldRemove_def)
qed

text \<open>
  The raft-to-HTTP address table: after RegisterPeer succeeds, PeerHTTPAddr returns the
  registered address for that raft address, and all other entries and the peer list are as before.
\<close>

lemma RegisterPeer_PeerHTTPAddr:
  assumes "etcd_client g p up kv" and "up m" and "RegisterPeer (etcd_meta g p) m r h = (None, m')"
  shows "PeerHTTPAddr (etcd_meta g p) m' r' =
      (if r' = r then Ok h else PeerHTTPAddr (etcd_meta g p) m r')
    \<and> Peers (etcd_meta g p) m' = Peers (etcd_meta g p) m"
  using meta_store.Register_lookup [OF etcd_meta_store [OF assms(1)] assms(2,3)]
  by (simp add: Peers_def)


end
