(* ===== verification/Store.thy ===== *)
theory Store
  imports JsonValue
begin

text \<open>
  \<open>db/node/store/store.go\<close>: the key/value store behind a raft log, and \<open>utils/mock/store.go\<close>, its
  in-memory double.

  The raft library is a parameter. Of a \<open>*raft.Raft\<close> the store sees its state, the leader's address
  and the peers (fields of the record \<open>store\<close>), and from a future the error it ends with:
  the argument \<open>fut\<close> of the operations is that error for an entry that was not committed
  (enqueue timeout, shutdown, leadership lost), \<open>None\<close> for one that was. A committed entry is applied
  by the library's FSM loop, which stores what \<open>Apply\<close> returned in the future's \<open>Response\<close> and ends
  the future with a nil error (\<open>raft_Apply\<close>); the store asks only for the error.

  Interfaces: \<open>raft_fsm\<close> is what the raft library relies on (\<open>Apply\<close>, \<open>Snapshot\<close>, \<open>Restore\<close>),
  \<open>once_store\<close> what the HTTP service relies on (\<open>Get\<close> and \<open>Add\<close>).
\<close>

section \<open>Commands\<close>

record command =
  cmd_Op :: string
  cmd_Key :: string
  cmd_Value :: string

definition encode_command :: "command \<Rightarrow> string" where
  "encode_command c = print_json (json_of_fields (omit_empty
     [(''op'', cmd_Op c), (''key'', cmd_Key c), (''value'', cmd_Value c)]))"

definition decode_command :: "string \<Rightarrow> command result" where
  "decode_command data = bind_result
     (\<lambda>f. Ok \<lparr>cmd_Op = string_field f ''op'', cmd_Key = string_field f ''key'', cmd_Value = string_field f ''value''\<rparr>)
     (bind_result (bind_struct [(''op'', FString), (''key'', FString), (''value'', FString)]) (json_Unmarshal data))"

section \<open>The state machine\<close>

definition applySet :: "string \<Rightarrow> string \<Rightarrow> string gomap \<Rightarrow> error \<times> string gomap" where
  "applySet key value m = (None, map_put key value m)"

definition applyAdd :: "string \<Rightarrow> string \<Rightarrow> string gomap \<Rightarrow> error \<times> string gomap" where
  "applyAdd key value m = (case map_of m key of
     Some _ \<Rightarrow> (Some (Errorf ''key duplicated''), m)
   | None \<Rightarrow> (None, map_put key value m))"

definition applyDelete :: "string \<Rightarrow> string gomap \<Rightarrow> error \<times> string gomap" where
  "applyDelete key m = (None, map_delete key m)"

text \<open>\<open>Apply\<close> on a log entry: the response and the new map, or a panic.\<close>

definition fsm_Apply :: "string \<Rightarrow> string gomap \<Rightarrow> (error \<times> string gomap) result" where
  "fsm_Apply data m = (case decode_command data of
     Inl err \<Rightarrow> Err (GoPanic (''failed to unmarshal command: '' @ err_text err))
   | Inr c \<Rightarrow>
       if cmd_Op c = ''add'' then Ok (applyAdd (cmd_Key c) (cmd_Value c) m)
       else if cmd_Op c = ''set'' then Ok (applySet (cmd_Key c) (cmd_Value c) m)
       else if cmd_Op c = ''delete'' then Ok (applyDelete (cmd_Key c) m)
       else Err (GoPanic (''unrecognized command op: '' @ cmd_Op c)))"

text \<open>\<open>Snapshot\<close> clones the map pair by pair.\<close>

definition fsm_Snapshot :: "string gomap \<Rightarrow> string gomap" where
  "fsm_Snapshot m = fold (\<lambda>p o_map. map_put (fst p) (snd p) o_map) m []"

text \<open>
  \<open>Persist\<close> on a sink whose \<open>Write\<close> and \<open>Close\<close> end with the given errors: the error returned, the
  bytes the sink got, and whether it was cancelled.
\<close>

definition fsmSnapshot_Persist :: "error \<Rightarrow> error \<Rightarrow> string gomap \<Rightarrow> error \<times> string \<times> bool" where
  "fsmSnapshot_Persist write_err close_err s =
     (let b = marshal_map s in
      if write_err \<noteq> None then (write_err, [], True)
      else if close_err \<noteq> None then (close_err, b, True)
      else (None, b, False))"

definition fsm_Restore :: "string \<Rightarrow> string gomap \<Rightarrow> error \<times> string gomap" where
  "fsm_Restore rc m = (case bind_result bind_string_map (json_Decode rc) of
     Inl err \<Rightarrow> (Some err, m) | Inr o_map \<Rightarrow> (None, o_map))"

section \<open>The store\<close>

datatype RaftState = Follower | Candidate | Leader | Shutdown

record store =
  RaftDir :: string
  RaftBind :: string
  kvm :: "string gomap"
  raft_State :: RaftState
  raft_Leader :: string
  raft_Peers :: "string list result"

definition New_store :: store where
  "New_store = \<lparr>RaftDir = [], RaftBind = [], kvm = [], raft_State = Follower, raft_Leader = [], raft_Peers = Ok []\<rparr>"

text \<open>
  \<open>Open\<close>: what the calls it makes return, in their order, and the raft configuration it ends
  with: \<open>EnableSingleNode\<close> and \<open>DisableBootstrapAfterElect\<close> (true by default).
\<close>

record open_env =
  ResolveTCPAddr :: error
  NewTCPTransport :: error
  peerStore_Peers :: "string list result"
  NewFileSnapshotStore :: error
  NewBoltStore_err :: error
  NewRaft :: error

definition store_Open :: "open_env \<Rightarrow> bool \<Rightarrow> (bool \<times> bool) result" where
  "store_Open env enableSingle =
     (case ResolveTCPAddr env of Some err \<Rightarrow> Err err | None \<Rightarrow>
      case NewTCPTransport env of Some err \<Rightarrow> Err err | None \<Rightarrow>
      case peerStore_Peers env of Inl err \<Rightarrow> Err err | Inr peers \<Rightarrow>
      let conf = (if enableSingle \<and> length peers \<le> 1 then (True, False) else (False, True)) in
      case NewFileSnapshotStore env of Some err \<Rightarrow> Err (Errorf (''file snapshot store: '' @ err_text err)) | None \<Rightarrow>
      case NewBoltStore_err env of Some err \<Rightarrow> Err (Errorf (''new bolt store: '' @ err_text err)) | None \<Rightarrow>
      case NewRaft env of Some err \<Rightarrow> Err (Errorf (''new raft: '' @ err_text err)) | None \<Rightarrow> Ok conf)"

definition store_Get :: "store \<Rightarrow> string \<Rightarrow> string result" where
  "store_Get s key = Ok (map_index (kvm s) key)"

text \<open>The library's side of \<open>raft.Apply\<close> and of the FSM loop, as described above.\<close>

definition raft_Apply :: "error \<Rightarrow> string \<Rightarrow> store \<Rightarrow> error \<times> store" where
  "raft_Apply fut data s = (case fut of
     Some err \<Rightarrow> (Some err, s)
   | None \<Rightarrow> (case fsm_Apply data (kvm s) of
       Inl panic \<Rightarrow> (Some panic, s)
     | Inr (response, m') \<Rightarrow> (None, s\<lparr>kvm := m'\<rparr>)))"

definition store_command :: "error \<Rightarrow> command \<Rightarrow> store \<Rightarrow> error \<times> store" where
  "store_command fut c s =
     (if raft_State s \<noteq> Leader then (Some (Errorf ''not leader''), s)
      else raft_Apply fut (encode_command c) s)"

definition store_Set :: "error \<Rightarrow> store \<Rightarrow> string \<Rightarrow> string \<Rightarrow> error \<times> store" where
  "store_Set fut s key value = store_command fut \<lparr>cmd_Op = ''set'', cmd_Key = key, cmd_Value = value\<rparr> s"

definition store_Add :: "error \<Rightarrow> store \<Rightarrow> string \<Rightarrow> string \<Rightarrow> error \<times> store" where
  "store_Add fut s key value = store_command fut \<lparr>cmd_Op = ''add'', cmd_Key = key, cmd_Value = value\<rparr> s"

definition store_Delete :: "error \<Rightarrow> store \<Rightarrow> string \<Rightarrow> error \<times> store" where
  "store_Delete fut s key = store_command fut \<lparr>cmd_Op = ''delete'', cmd_Key = key, cmd_Value = []\<rparr> s"

text \<open>
  \<open>Join\<close>: \<open>addPeer addr\<close> is the outcome of the library's \<open>AddPeer\<close>, an error (\<open>ErrKnownPeer\<close> for a
  peer of the group, for one) or the peers the peer store holds once the entry is committed.
\<close>

definition store_Join :: "(string \<Rightarrow> string list result) \<Rightarrow> store \<Rightarrow> string \<Rightarrow> error \<times> store" where
  "store_Join addPeer s addr = (case addPeer addr of
     Inl err \<Rightarrow> (Some err, s)
   | Inr peers \<Rightarrow> (None, s\<lparr>raft_Peers := Ok peers\<rparr>))"

definition store_Peers :: "store \<Rightarrow> string list result" where
  "store_Peers s = raft_Peers s"

definition store_Leader :: "store \<Rightarrow> string" where
  "store_Leader s = raft_Leader s"

text \<open>\<open>Stats\<close>: what the library's \<open>raft.Stats()\<close> returns in a state is the argument \<open>raftStats\<close>.\<close>

definition store_Stats :: "(store \<Rightarrow> string gomap) \<Rightarrow> store \<Rightarrow> string gomap" where
  "store_Stats raftStats s = raftStats s"

section \<open>The in-memory double\<close>

record mock_store =
  mock_data :: "string gomap"
  mock_leader :: string
  mock_peers :: "string list"

definition NewMockStore :: mock_store where
  "NewMockStore = \<lparr>mock_data = [], mock_leader = [], mock_peers = []\<rparr>"

definition mockStore_Get :: "mock_store \<Rightarrow> string \<Rightarrow> string result" where
  "mockStore_Get s key = Ok (map_index (mock_data s) key)"

definition mockStore_Add :: "mock_store \<Rightarrow> string \<Rightarrow> string \<Rightarrow> error \<times> mock_store" where
  "mockStore_Add s key value =
     (if map_of (mock_data s) key \<noteq> None then (Some (Errorf ''duplicate''), s)
      else (None, s\<lparr>mock_data := map_put key value (mock_data s)\<rparr>))"

definition mockStore_Join :: "mock_store \<Rightarrow> string \<Rightarrow> error \<times> mock_store" where
  "mockStore_Join s addr =
     (if mock_peers s = [] then (None, s\<lparr>mock_peers := sort [mock_leader s, addr]\<rparr>)
      else (None, s\<lparr>mock_peers := mock_peers s @ [addr]\<rparr>))"

definition mockStore_Peers :: "mock_store \<Rightarrow> string list result" where
  "mockStore_Peers s = Ok (mock_peers s)"

definition mockStore_Leader :: "mock_store \<Rightarrow> string" where
  "mockStore_Leader s = mock_leader s"

definition mockStore_Stats :: "mock_store \<Rightarrow> string gomap" where
  "mockStore_Stats s = []"

definition mockStore_SetLeader :: "mock_store \<Rightarrow> string \<Rightarrow> mock_store" where
  "mockStore_SetLeader s leader = s\<lparr>mock_leader := leader\<rparr>"


section \<open>Commands: round trip\<close>

abbreviation add_command :: "string \<Rightarrow> string \<Rightarrow> command" where
  "add_command k v \<equiv> \<lparr>cmd_Op = ''add'', cmd_Key = k, cmd_Value = v\<rparr>"

definition utf8_command :: "command \<Rightarrow> bool" where
  "utf8_command c \<longleftrightarrow> valid_utf8 (cmd_Op c) \<and> valid_utf8 (cmd_Key c) \<and> valid_utf8 (cmd_Value c)"

lemma find_command_field [simp]:
  "find_field [(''op'', FString), (''key'', FString), (''value'', FString)] ''op'' = Some (''op'', FString)"
  "find_field [(''op'', FString), (''key'', FString), (''value'', FString)] ''key'' = Some (''key'', FString)"
  "find_field [(''op'', FString), (''key'', FString), (''value'', FString)] ''value'' = Some (''value'', FString)"
  by (simp_all add: find_field_def)

lemma decode_encode_command [json_simps]:
  assumes "utf8_command c"
  shows "decode_command (encode_command c) = Ok c"
proof -
  let ?fs = "omit_empty [(''op'', cmd_Op c), (''key'', cmd_Key c), (''value'', cmd_Value c)]"
  have "wf_json (json_of_fields ?fs)"
    using assms by (auto simp: utf8_command_def json_of_fields_def omit_empty_def)
  then have "json_Unmarshal (encode_command c) = Ok (json_of_fields ?fs)"
    by (simp add: encode_command_def json_simps)
  then show ?thesis
    by (simp add: decode_command_def json_of_fields_def omit_empty_def string_field_def)
qed

lemma decode_command_utf8: "decode_command d = Ok c \<Longrightarrow> utf8_command c"
  unfolding decode_command_def bind_result_Ok utf8_command_def
  by (auto dest!: json_Unmarshal_utf8 intro!: string_field_utf8 intro: bind_struct_utf8)

section \<open>The state machine: invariant, write-once, replay\<close>

definition fsm_inv :: "string gomap \<Rightarrow> bool" where
  "fsm_inv m \<longleftrightarrow> gomap_wf m \<and> utf8_map m"

lemma fsm_inv_Nil [simp]: "fsm_inv []"
  by (simp add: fsm_inv_def)

lemma fsm_Apply_inv: "fsm_inv m \<Longrightarrow> fsm_Apply d m = Ok (r, m') \<Longrightarrow> fsm_inv m'"
  by (auto simp: fsm_Apply_def fsm_inv_def applyAdd_def applySet_def applyDelete_def utf8_command_def
      dest!: decode_command_utf8 split: sum.splits if_splits option.splits)

lemma fsm_Apply_add:
  assumes "valid_utf8 k" and "valid_utf8 v"
  shows "fsm_Apply (encode_command (add_command k v)) m = Ok (applyAdd k v m)"
  using assms by (simp add: fsm_Apply_def decode_encode_command utf8_command_def)

lemma fsm_Snapshot_id: "gomap_wf m \<Longrightarrow> fsm_Snapshot m = m"
  by (simp add: fsm_Snapshot_def fold_put_id)

lemma restore_persist:
  assumes "fsm_inv m"
  shows "fsm_Restore (marshal_map (fsm_Snapshot m)) m0 = (None, m)"
proof -
  have wf: "gomap_wf m" "\<forall>p\<in>set m. valid_utf8 (fst p) \<and> valid_utf8 (snd p)"
    using assms utf8_map_set unfolding fsm_inv_def by blast+
  then have "json_Decode (marshal_map m) = Ok (json_of_map m)"
    by (simp add: marshal_map_def json_simps json_of_map_def)
  with wf show ?thesis
    by (simp add: fsm_Restore_def fsm_Snapshot_id json_of_map_def member_strings_acc fold_put_id)
qed

text \<open>
  What the raft library relies on in a state machine: a snapshot restores the state it was
  taken of. Then replaying a log from the start, and restoring a snapshot and replaying the
  rest of the log, end in the same state, so a replica may compact its log at any point.
\<close>

fun run_log :: "('e \<Rightarrow> 's \<Rightarrow> 's result) \<Rightarrow> 'e list \<Rightarrow> 's \<Rightarrow> 's result" where
  "run_log step [] s = Ok s"
| "run_log step (e # es) s = (case step e s of Inl err \<Rightarrow> Err err | Inr s' \<Rightarrow> run_log step es s')"

lemma run_log_append:
  "run_log step (xs @ ys) s = (case run_log step xs s of Inl err \<Rightarrow> Err err | Inr s' \<Rightarrow> run_log step ys s')"
  by (induction xs arbitrary: s) (auto split: sum.split)

locale raft_fsm =
  fixes step :: "'e \<Rightarrow> 's \<Rightarrow> 's result"
    and persist :: "'s \<Rightarrow> 'b"
    and restore :: "'b \<Rightarrow> 's \<Rightarrow> error \<times> 's"
    and inv :: "'s \<Rightarrow> bool"
  assumes step_inv: "inv s \<Longrightarrow> step e s = Ok s' \<Longrightarrow> inv s'"
    and restore_snapshot: "inv s \<Longrightarrow> restore (persist s) s0 = (None, s)"
begin

lemma run_log_inv: "inv s \<Longrightarrow> run_log step es s = Ok s' \<Longrightarrow> inv s'"
  by (induction es arbitrary: s) (auto dest: step_inv split: sum.splits)

lemma snapshot_then_suffix:
  assumes "inv s" and "run_log step xs s = Ok s'"
  shows "run_log step ys (snd (restore (persist s') s0)) = run_log step (xs @ ys) s"
  using assms run_log_inv [OF assms] by (simp add: run_log_append restore_snapshot)

end

definition fsm_step :: "string \<Rightarrow> string gomap \<Rightarrow> string gomap result" where
  "fsm_step d m = (case fsm_Apply d m of Inl err \<Rightarrow> Err err | Inr (r, m') \<Rightarrow> Ok m')"

interpretation fsm: raft_fsm fsm_step "\<lambda>m. marshal_map (fsm_Snapshot m)" fsm_Restore fsm_inv
proof
  fix s :: "string gomap" and e :: string and s' :: "string gomap"
  assume "fsm_inv s" and "fsm_step e s = Ok s'"
  then show "fsm_inv s'"
    by (auto simp: fsm_step_def dest: fsm_Apply_inv split: sum.splits)
qed (simp add: restore_persist)

text \<open>A log of additions alone: no key is ever given another value.\<close>

definition is_add :: "string \<Rightarrow> bool" where
  "is_add d \<longleftrightarrow> (case decode_command d of Inl _ \<Rightarrow> False | Inr c \<Rightarrow> cmd_Op c = ''add'')"

lemma applyAdd_mono: "map_of m \<subseteq>\<^sub>m map_of (snd (applyAdd k v m))"
  by (auto simp: applyAdd_def map_le_def split: option.splits)

lemma is_add_step: "is_add d \<Longrightarrow> \<exists>m'. fsm_step d m = Ok m' \<and> map_of m \<subseteq>\<^sub>m map_of m'"
  by (auto simp: is_add_def fsm_step_def fsm_Apply_def applyAdd_mono split: sum.splits prod.splits)
    (metis applyAdd_mono snd_conv)

lemma run_adds:
  "\<forall>d\<in>set ds. is_add d \<Longrightarrow> \<exists>m'. run_log fsm_step ds m = Ok m' \<and> map_of m \<subseteq>\<^sub>m map_of m'"
proof (induction ds arbitrary: m)
  case (Cons d ds)
  then obtain m1 where "fsm_step d m = Ok m1" "map_of m \<subseteq>\<^sub>m map_of m1"
    using is_add_step by fastforce
  then show ?case using Cons map_le_trans by fastforce
qed simp


section \<open>What the service relies on\<close>

text \<open>
  \<open>service.Store\<close> as a write-once table: a read gives the stored value or the empty string, an
  addition never changes a key that has a value, touches no other key, and, when it reports
  success on a key without a value, gives it that value. What the environment does to an
  addition (whether raft commits it) is its argument \<open>fut\<close>. Keys and values are well-formed
  UTF-8, as everything decoded from JSON is.
\<close>

locale once_store =
  fixes Get :: "'s \<Rightarrow> string \<Rightarrow> string result"
    and Add :: "'e \<Rightarrow> 's \<Rightarrow> string \<Rightarrow> string \<Rightarrow> error \<times> 's"
    and contents :: "'s \<Rightarrow> string \<Rightarrow> string option"
  assumes Get_contents: "Get s k = Ok (case contents s k of None \<Rightarrow> [] | Some v \<Rightarrow> v)"
    and Add_keeps: "valid_utf8 k \<Longrightarrow> valid_utf8 v \<Longrightarrow> contents s \<subseteq>\<^sub>m contents (snd (Add fut s k v))"
    and Add_frame: "valid_utf8 k \<Longrightarrow> valid_utf8 v \<Longrightarrow> k' \<noteq> k \<Longrightarrow>
      contents (snd (Add fut s k v)) k' = contents s k'"
    and Add_new: "valid_utf8 k \<Longrightarrow> valid_utf8 v \<Longrightarrow> Add fut s k v = (None, s') \<Longrightarrow> contents s k = None \<Longrightarrow>
      contents s' k = Some v"
    and Add_failed: "valid_utf8 k \<Longrightarrow> valid_utf8 v \<Longrightarrow> Add fut s k v = (Some e, s') \<Longrightarrow> contents s' = contents s"
begin

lemma Add_all_keeps:
  "\<forall>(fut, k, v)\<in>set ps. valid_utf8 k \<and> valid_utf8 v \<Longrightarrow>
    contents s \<subseteq>\<^sub>m contents (foldl (\<lambda>t (fut, k, v). snd (Add fut t k v)) s ps)"
  by (induction ps arbitrary: s) (auto intro: map_le_trans [OF Add_keeps])

lemma Add_all_only:
  "\<forall>(fut, k, v)\<in>set ps. valid_utf8 k \<and> valid_utf8 v \<and> k \<noteq> k' \<Longrightarrow>
    contents (foldl (\<lambda>t (fut, k, v). snd (Add fut t k v)) s ps) k' = contents s k'"
  by (induction ps arbitrary: s) (auto simp: Add_frame)

lemma first_write_wins:
  assumes "valid_utf8 k" and "valid_utf8 v" and "\<forall>(fut, k, v)\<in>set ps. valid_utf8 k \<and> valid_utf8 v"
    and "contents s k = None" and "Add fut s k v = (None, s')"
  shows "Get (foldl (\<lambda>t (fut, k, v). snd (Add fut t k v)) s' ps) k = Ok v"
proof -
  have "contents s' k = Some v" using assms Add_new by blast
  then have "contents (foldl (\<lambda>t (fut, k, v). snd (Add fut t k v)) s' ps) k = Some v"
    using Add_all_keeps [OF assms(3), of s'] by (auto simp: map_le_def dom_def)
  then show ?thesis by (simp add: Get_contents)
qed

lemma unset_stays_unset:
  assumes "\<forall>(fut, k, v)\<in>set ps. valid_utf8 k \<and> valid_utf8 v \<and> k \<noteq> k'" and "contents s k' = None"
  shows "Get (foldl (\<lambda>t (fut, k, v). snd (Add fut t k v)) s ps) k' = Ok []"
  using Add_all_only [OF assms(1)] assms(2) by (simp add: Get_contents)

end

lemma store_Add_eq:
  assumes "valid_utf8 k" and "valid_utf8 v"
  shows "store_Add fut s k v =
    (if raft_State s \<noteq> Leader then (Some (Errorf ''not leader''), s)
     else case fut of Some e \<Rightarrow> (Some e, s) | None \<Rightarrow> (None, s\<lparr>kvm := snd (applyAdd k v (kvm s))\<rparr>))"
  using fsm_Apply_add [OF assms, of "kvm s"]
  by (auto simp: store_Add_def store_command_def raft_Apply_def split: option.split prod.split)

abbreviation store_contents :: "store \<Rightarrow> string \<Rightarrow> string option" where
  "store_contents s \<equiv> map_of (kvm s)"

interpretation raft_kv: once_store store_Get store_Add store_contents
proof
  fix fut s k v k' s' e assume "valid_utf8 k" "valid_utf8 v"
  note eq = store_Add_eq [OF this]
  show "store_contents s \<subseteq>\<^sub>m store_contents (snd (store_Add fut s k v))"
    using applyAdd_mono [of "kvm s" k v] by (simp add: eq split: option.split)
  show "k' \<noteq> k \<Longrightarrow> store_contents (snd (store_Add fut s k v)) k' = store_contents s k'"
    by (simp add: eq applyAdd_def split: option.split)
  show "store_Add fut s k v = (None, s') \<Longrightarrow> store_contents s k = None \<Longrightarrow> store_contents s' k = Some v"
    by (auto simp: eq applyAdd_def split: option.splits if_splits)
  show "store_Add fut s k v = (Some e, s') \<Longrightarrow> store_contents s' = store_contents s"
    by (auto simp: eq split: option.splits if_splits)
qed (simp add: store_Get_def map_index_def)

interpretation mock_kv: once_store mockStore_Get "\<lambda>_. mockStore_Add" "\<lambda>s. map_of (mock_data s)"
proof
  show "mockStore_Get s k = Ok (case map_of (mock_data s) k of None \<Rightarrow> [] | Some v \<Rightarrow> v)" for s k
    by (simp add: mockStore_Get_def map_index_def)
qed (auto simp: mockStore_Add_def map_le_def split: if_splits)

section \<open>Properties\<close>

text \<open>
  Replicas agree for good. Take a log of additions, which is all the HTTP service ever
  appends. However far two replicas have applied it, a key that has a value at the one that is
  behind has the same value at the other: no key's value is ever changed, and applying the log
  never panics.
\<close>

lemma replicas_write_once:
  assumes "\<forall>d\<in>set ds. is_add d" and "i \<le> j"
  shows "\<exists>m1 m2. run_log fsm_step (take i ds) [] = Ok m1 \<and> run_log fsm_step (take j ds) [] = Ok m2
    \<and> map_of m1 \<subseteq>\<^sub>m map_of m2"
proof -
  have ds: "take j ds = take i ds @ drop i (take j ds)"
    using assms(2) by (metis append_take_drop_id min.absorb1 take_take)
  have adds: "\<forall>d\<in>set (take i ds). is_add d" "\<forall>d\<in>set (drop i (take j ds)). is_add d"
    using assms(1) by (meson in_set_dropD in_set_takeD)+
  from run_adds [OF adds(1), of "[]"] obtain m1 where m1: "run_log fsm_step (take i ds) [] = Ok m1" by blast
  then have "run_log fsm_step (take j ds) [] = run_log fsm_step (drop i (take j ds)) m1"
    by (subst ds) (simp add: run_log_append)
  with m1 run_adds [OF adds(2), of m1] show ?thesis by auto
qed

lemma replicas_write_once_witness:
  "\<exists>m1 m2. run_log fsm_step (take 1 [encode_command (add_command ''foo'' ''bar''), encode_command (add_command ''foo'' ''baz'')]) [] = Ok m1
    \<and> run_log fsm_step (take 2 [encode_command (add_command ''foo'' ''bar''), encode_command (add_command ''foo'' ''baz'')]) [] = Ok m2
    \<and> map_of m1 \<subseteq>\<^sub>m map_of m2"
  by (rule replicas_write_once) (simp_all add: is_add_def json_simps utf8_command_def)

text \<open>
  C9: log compaction is transparent. After any log the state machine has applied without a
  panic, restoring its snapshot over any old state and applying the rest of the log gives what
  applying the whole log gives, errors included.
\<close>

theorem snapshot_restore_replay:
  assumes "run_log fsm_step xs [] = Ok m"
  shows "fsm_Restore (marshal_map (fsm_Snapshot m)) m0 = (None, m)
    \<and> run_log fsm_step ys (snd (fsm_Restore (marshal_map (fsm_Snapshot m)) m0)) = run_log fsm_step (xs @ ys) []"
  using fsm.snapshot_then_suffix [of "[]" xs m ys m0] fsm.run_log_inv [of "[]" xs m] assms
  by (simp add: fsm.restore_snapshot)

theorem snapshot_restore_replay_witness:
  "fsm_Restore (marshal_map (fsm_Snapshot [(''foo'', ''bar'')])) [] = (None, [(''foo'', ''bar'')])"
proof -
  have "run_log fsm_step [encode_command (add_command ''foo'' ''bar'')] [] = Ok [(''foo'', ''bar'')]"
    by (simp add: fsm_step_def fsm_Apply_add applyAdd_def)
  from snapshot_restore_replay [OF this, of "[]" "[]"] show ?thesis by simp
qed

text \<open>
  The write path. On the leader, an addition whose log entry is committed reports success
  in every case and gives the key its value exactly when it had none; the duplicate the state
  machine reports is lost with the future's response. An entry that is not committed, and any
  addition on another node, reports an error and changes nothing.
\<close>

lemma store_Add_outcome:
  assumes "valid_utf8 k" and "valid_utf8 v" and "store_Add fut s k v = (err, s')"
  shows "err = (if raft_State s \<noteq> Leader then Some (Errorf ''not leader'') else fut)
    \<and> store_contents s' = (if raft_State s = Leader \<and> fut = None \<and> store_contents s k = None
        then (store_contents s)(k \<mapsto> v) else store_contents s)"
  using assms(3) by (auto simp: store_Add_eq [OF assms(1,2)] applyAdd_def split: option.splits if_splits)

text \<open>
  First write wins, through any later traffic. Once an addition on the leader has succeeded
  on a key without a value, Get returns that value after every further sequence of additions,
  whether the raft library commits or fails them.
\<close>

lemma store_first_write_wins:
  assumes "valid_utf8 k" and "valid_utf8 v" and "\<forall>(fut, k, v)\<in>set ps. valid_utf8 k \<and> valid_utf8 v"
    and "store_contents s k = None" and "store_Add fut s k v = (None, s')"
  shows "store_Get (foldl (\<lambda>t (fut, k, v). snd (store_Add fut t k v)) s' ps) k = Ok v"
  using assms by (rule raft_kv.first_write_wins)

lemma store_first_write_wins_witness:
  "store_Get (foldl (\<lambda>t (fut, k, v). snd (store_Add fut t k v))
      (New_store\<lparr>raft_State := Leader, kvm := [(''foo'', ''bar'')]\<rparr>)
      [(None, ''foo'', ''baz''), (Some (Errorf ''timeout''), ''qux'', ''1'')]) ''foo'' = Ok ''bar''"
proof -
  have "store_Add None (New_store\<lparr>raft_State := Leader\<rparr>) ''foo'' ''bar'' =
      (None, New_store\<lparr>raft_State := Leader, kvm := [(''foo'', ''bar'')]\<rparr>)"
    by (simp add: store_Add_eq applyAdd_def New_store_def)
  from store_first_write_wins [OF _ _ _ _ this,
      of "[(None, ''foo'', ''baz''), (Some (Errorf ''timeout''), ''qux'', ''1'')]"]
  show ?thesis by (simp add: New_store_def)
qed

end
