(* ===== verification/RaftBolt.thy ===== *)
theory RaftBolt
  imports Prelude
begin

unbundle bit_operations_syntax

text \<open>
  \<open>raftboltdb/bolt_store.go\<close> and \<open>util.go\<close>: the raft log and stable store on a bolt database.

  Bolt is third-party code; what the store uses of it is described by its documentation: a database
  has named buckets (here the two the store uses, absent before \<open>initialize\<close>), a bucket is a map from
  non-empty byte strings to byte strings whose cursor walks the keys in byte order, and a write
  transaction takes effect at \<open>Commit\<close> or not at all. The outcome of a commit (\<open>commit_err\<close>), of
  \<open>bolt.Open\<close> and the msgpack codec (\<open>enc\<close>, \<open>dec\<close>) are parameters.

  Log entries are stored under the big-endian bytes of their index, so that the byte order of the
  keys is the order of the indexes. The locale \<open>log_store\<close> states what raft expects of a log store.
\<close>

section \<open>Byte strings\<close>

type_synonym bytes = "8 word list"

text \<open>\<open>binary.BigEndian.Uint64\<close> reads the first eight bytes and panics when there are fewer.\<close>

definition bytesToUint64 :: "bytes \<Rightarrow> 64 word result" where
  "bytesToUint64 b =
     (if length b < 8 then Err (GoPanic ''index out of range'')
      else Ok (foldl (\<lambda>u x. push_bit 8 u OR ucast x) 0 (take 8 b)))"

definition uint64ToBytes :: "64 word \<Rightarrow> bytes" where
  "uint64ToBytes u = map (\<lambda>i. ucast (drop_bit (8 * i) u)) [7, 6, 5, 4, 3, 2, 1, 0]"

text \<open>The number a byte string stands for in base 256.\<close>

definition be_value :: "bytes \<Rightarrow> nat" where
  "be_value b = foldl (\<lambda>n x. n * 256 + unat x) 0 b"

fun digits :: "nat \<Rightarrow> nat \<Rightarrow> nat list" where
  "digits 0 n = []"
| "digits (Suc k) n = digits k (n div 256) @ [n mod 256]"

lemma digits_value: "foldl (\<lambda>a d. a * 256 + d) 0 (digits k n) = n mod 256 ^ k"
proof (induction k arbitrary: n)
  case (Suc k)
  show ?case by (simp add: Suc mod_mult2_eq mult.commute)
qed simp

lemma digits_div: "digits k n = map (\<lambda>i. n div 256 ^ i mod 256) (rev [0..<k])"
proof (induction k arbitrary: n)
  case (Suc k)
  have "[0..<Suc k] = 0 # map Suc [0..<k]" by (simp add: map_Suc_upt upt_conv_Cons del: upt_Suc)
  then show ?case by (simp add: Suc rev_map div_mult2_eq del: upt_Suc)
qed simp

lemma unat_byte:
  fixes u :: "64 word"
  shows "unat (ucast (drop_bit (8 * i) u) :: 8 word) = unat u div 256 ^ i mod 256"
proof -
  have "unat (drop_bit (8 * i) u) = unat u div 256 ^ i"
    unfolding unsigned_drop_bit_eq
    by (simp add: drop_bit_eq_div power_mult take_bit_nat_eq_self unsigned_less [where 'a = nat, of u, simplified])
  then show ?thesis by (simp add: unsigned_ucast_eq take_bit_eq_mod)
qed

lemma uint64ToBytes_digits: "map unat (uint64ToBytes u) = digits 8 (unat u)"
proof -
  have "[7, 6, 5, 4, 3, 2, 1, 0] = rev [0..<8::nat]" by (simp add: upt_rec)
  then show ?thesis by (simp add: uint64ToBytes_def digits_div unat_byte comp_def del: One_nat_def)
qed

lemma length_uint64ToBytes [simp]: "length (uint64ToBytes u) = 8"
  by (simp add: uint64ToBytes_def)

lemma be_value_map: "be_value b = foldl (\<lambda>a d. a * 256 + d) 0 (map unat b)"
  by (simp add: be_value_def foldl_map)

lemma be_value_uint64ToBytes [simp]: "be_value (uint64ToBytes u) = unat u"
proof -
  have "unat u < 256 ^ 8" using unsigned_less [of u] by simp
  then show ?thesis by (simp add: be_value_map uint64ToBytes_digits digits_value)
qed

lemma be_value_simps [simp]:
  "be_value [] = 0" "be_value (b @ [x]) = be_value b * 256 + unat x"
  by (simp_all add: be_value_def)

lemma be_value_bound: "be_value b < 256 ^ length b"
proof (induction b rule: rev_induct)
  case (snoc x b)
  have "unat x < 256" using unsigned_less [of x] by simp
  moreover have "be_value b * 256 + 256 \<le> 256 ^ length b * 256"
    using snoc by (metis Suc_leI mult_Suc add.commute mult_le_mono1)
  ultimately show ?case by simp
qed simp

lemma be_value_Cons: "be_value (x # b) = unat x * 256 ^ length b + be_value b"
proof (induction b rule: rev_induct)
  case (snoc y b)
  have "be_value (x # b @ [y]) = be_value (x # b) * 256 + unat y"
    using be_value_simps(2) [of "x # b" y] by simp
  with snoc show ?case by (simp add: algebra_simps)
qed (simp add: be_value_def)

text \<open>On byte strings of one length the byte order is the order of the numbers.\<close>

lemma be_value_less: "length a = length b \<Longrightarrow> a < b \<longleftrightarrow> be_value a < be_value b"
proof (induction a b rule: list_induct2)
  case (Cons x a y b)
  let ?k = "256 ^ length b :: nat"
  have bound: "be_value a < ?k" "be_value b < ?k" using be_value_bound Cons.hyps by metis+
  consider "unat x < unat y" | "unat y < unat x" | "x = y" by (metis linorder_neqE_nat unsigned_word_eqI)
  then show ?case
  proof cases
    case 1
    then have "unat x * ?k + ?k \<le> unat y * ?k" by (metis Suc_leI add.commute mult_Suc mult_le_mono1)
    with 1 bound Cons show ?thesis by (simp add: be_value_Cons word_less_nat_alt)
  next
    case 2
    then have "unat y * ?k + ?k \<le> unat x * ?k" by (metis Suc_leI add.commute mult_Suc mult_le_mono1)
    with 2 bound Cons show ?thesis by (auto simp: be_value_Cons word_less_nat_alt)
  next
    case 3
    with Cons show ?thesis by (simp add: be_value_Cons)
  qed
qed simp

lemma be_value_inj: "length a = length b \<Longrightarrow> be_value a = be_value b \<longleftrightarrow> a = b"
  by (metis be_value_less less_irrefl linorder_neqE)

lemma append_byte: "push_bit 8 u OR ucast x = u * 256 + ucast x" for u :: "64 word" and x :: "8 word"
proof -
  have "push_bit 8 u AND ucast x = (0 :: 64 word)"
    by (rule bit_word_eqI) (auto simp: bit_simps dest: bit_imp_le_length)
  then have "push_bit 8 u + ucast x = push_bit 8 u OR ucast x" by (rule disjunctive_add_eq_or)
  then show ?thesis by (simp add: push_bit_eq_mult)
qed

lemma be_word: "foldl (\<lambda>u x. push_bit 8 u OR ucast x) 0 b = (of_nat (be_value b) :: 64 word)"
  by (induction b rule: rev_induct) (simp_all add: append_byte)

lemma bytesToUint64_value: "8 \<le> length b \<Longrightarrow> bytesToUint64 b = Ok (of_nat (be_value (take 8 b)))"
  by (simp add: bytesToUint64_def be_word)

lemma bytesToUint64_uint64ToBytes [simp]: "bytesToUint64 (uint64ToBytes u) = Ok u"
  by (simp add: bytesToUint64_value)

lemma uint64ToBytes_less [simp]: "uint64ToBytes u < uint64ToBytes v \<longleftrightarrow> u < v"
  by (simp add: be_value_less word_less_nat_alt)

lemma uint64ToBytes_inj [simp]: "uint64ToBytes u = uint64ToBytes v \<longleftrightarrow> u = v"
  by (metis bytesToUint64_uint64ToBytes sum.inject(2))

lemma uint64ToBytes_le [simp]: "uint64ToBytes u \<le> uint64ToBytes v \<longleftrightarrow> u \<le> v"
  by (metis linorder_not_le uint64ToBytes_less)

lemma bytes8_index: "length b = 8 \<Longrightarrow> \<exists>u. b = uint64ToBytes u"
proof -
  assume b: "length b = 8"
  then have "be_value b < 2 ^ 64" using be_value_bound [of b] by simp
  then have "be_value (uint64ToBytes (of_nat (be_value b))) = be_value b" by (simp add: unsigned_of_nat take_bit_nat_eq_self)
  then show ?thesis using be_value_inj [of b "uint64ToBytes (of_nat (be_value b))"] b by auto
qed

section \<open>Bolt\<close>

abbreviation ErrDatabaseNotOpen :: go_error where "ErrDatabaseNotOpen \<equiv> Sentinel ''bolt.ErrDatabaseNotOpen''"
abbreviation ErrDatabaseReadOnly :: go_error where "ErrDatabaseReadOnly \<equiv> Sentinel ''bolt.ErrDatabaseReadOnly''"
abbreviation ErrKeyRequired :: go_error where "ErrKeyRequired \<equiv> Sentinel ''bolt.ErrKeyRequired''"
abbreviation ErrKeyTooLarge :: go_error where "ErrKeyTooLarge \<equiv> Sentinel ''bolt.ErrKeyTooLarge''"
abbreviation ErrValueTooLarge :: go_error where "ErrValueTooLarge \<equiv> Sentinel ''bolt.ErrValueTooLarge''"
abbreviation ErrLogNotFound :: go_error where "ErrLogNotFound \<equiv> Sentinel ''raft.ErrLogNotFound''"

definition nil_deref :: go_error where
  "nil_deref = GoPanic ''invalid memory address or nil pointer dereference''"

type_synonym bucket = "(bytes \<times> bytes) list"

record bolt_db =
  db_opened :: bool
  db_readOnly :: bool
  dbLogs :: "bucket option"
  dbConf :: "bucket option"

text \<open>\<open>DB.Begin\<close>: the error, if any.\<close>

definition db_Begin :: "bool \<Rightarrow> bolt_db \<Rightarrow> error" where
  "db_Begin writable db =
     (if writable \<and> db_readOnly db then Some ErrDatabaseReadOnly
      else if \<not> db_opened db then Some ErrDatabaseNotOpen else None)"

definition bucket_Put :: "bytes \<Rightarrow> bytes \<Rightarrow> bucket \<Rightarrow> bucket result" where
  "bucket_Put k v b =
     (if k = [] then Err ErrKeyRequired
      else if 32768 < length k then Err ErrKeyTooLarge
      else if 2147483646 < length v then Err ErrValueTooLarge
      else Ok (map_put k v b))"

text \<open>
  A write transaction: \<open>body\<close> works on the database of the transaction; an error of the body rolls it
  back (the deferred \<open>Rollback\<close>), otherwise it is committed, which may fail too.
\<close>

definition write_tx :: "error \<Rightarrow> (bolt_db \<Rightarrow> bolt_db result) \<Rightarrow> bolt_db \<Rightarrow> error \<times> bolt_db" where
  "write_tx commit_err body db = (case db_Begin True db of
     Some err \<Rightarrow> (Some err, db)
   | None \<Rightarrow> (case body db of
       Inl err \<Rightarrow> (Some err, db)
     | Inr db' \<Rightarrow> (case commit_err of Some err \<Rightarrow> (Some err, db) | None \<Rightarrow> (None, db'))))"

text \<open>A read transaction over one bucket; a missing bucket is a nil pointer.\<close>

definition read_tx :: "(bolt_db \<Rightarrow> bucket option) \<Rightarrow> (bucket \<Rightarrow> 'a result) \<Rightarrow> bolt_db \<Rightarrow> 'a result" where
  "read_tx bk body db = (case db_Begin False db of
     Some err \<Rightarrow> Err err
   | None \<Rightarrow> (case bk db of None \<Rightarrow> Err nil_deref | Some b \<Rightarrow> body b))"

section \<open>The store\<close>

definition ErrKeyNotFound :: go_error where
  "ErrKeyNotFound = Sentinel ''raftboltdb.ErrKeyNotFound''"

definition ErrKeyDuplicated :: go_error where
  "ErrKeyDuplicated = Sentinel ''raftboltdb.ErrKeyDuplicated''"

record raft_log =
  Index :: "64 word"
  Term :: "64 word"
  LogType :: "8 word"
  Data :: bytes

text \<open>\<open>BoltOptions\<close> is \<open>None\<close> for nil, else its \<open>ReadOnly\<close> flag.\<close>

record Options =
  Path :: string
  BoltOptions :: "bool option"

definition opt_readOnly :: "Options \<Rightarrow> bool" where
  "opt_readOnly o' = (BoltOptions o' = Some True)"

definition bolt_initialize :: "error \<Rightarrow> bolt_db \<Rightarrow> error \<times> bolt_db" where
  "bolt_initialize commit_err = write_tx commit_err (\<lambda>db. Ok (db
     \<lparr>dbLogs := Some (case dbLogs db of None \<Rightarrow> [] | Some b \<Rightarrow> b),
      dbConf := Some (case dbConf db of None \<Rightarrow> [] | Some b \<Rightarrow> b)\<rparr>))"

text \<open>\<open>bolt_open\<close> is the outcome of \<open>bolt.Open\<close>; on a failed \<open>initialize\<close> the handle is closed again.\<close>

definition bolt_New :: "(Options \<Rightarrow> bolt_db result) \<Rightarrow> error \<Rightarrow> Options \<Rightarrow> bolt_db result" where
  "bolt_New bolt_open commit_err options = (case bolt_open options of
     Inl err \<Rightarrow> Err err
   | Inr db \<Rightarrow>
       if opt_readOnly options then Ok db
       else (case bolt_initialize commit_err db of (Some err, _) \<Rightarrow> Err err | (None, db') \<Rightarrow> Ok db'))"

definition NewBoltStore :: "(Options \<Rightarrow> bolt_db result) \<Rightarrow> error \<Rightarrow> string \<Rightarrow> bolt_db result" where
  "NewBoltStore bolt_open commit_err path = bolt_New bolt_open commit_err \<lparr>Path = path, BoltOptions = None\<rparr>"

definition bolt_Close :: "bolt_db \<Rightarrow> bolt_db" where
  "bolt_Close db = db\<lparr>db_opened := False\<rparr>"

definition FirstIndex :: "bolt_db \<Rightarrow> 64 word result" where
  "FirstIndex = read_tx dbLogs (\<lambda>b. case b of [] \<Rightarrow> Ok 0 | (first, _) # _ \<Rightarrow> bytesToUint64 first)"

definition LastIndex :: "bolt_db \<Rightarrow> 64 word result" where
  "LastIndex = read_tx dbLogs (\<lambda>b. if b = [] then Ok 0 else bytesToUint64 (fst (last b)))"

definition GetLog :: "(bytes \<Rightarrow> raft_log result) \<Rightarrow> 64 word \<Rightarrow> bolt_db \<Rightarrow> raft_log result" where
  "GetLog dec idx = read_tx dbLogs (\<lambda>b. case map_of b (uint64ToBytes idx) of
     None \<Rightarrow> Err ErrLogNotFound | Some val \<Rightarrow> dec val)"

fun put_logs :: "(raft_log \<Rightarrow> bytes result) \<Rightarrow> raft_log list \<Rightarrow> bolt_db \<Rightarrow> bolt_db result" where
  "put_logs enc [] db = Ok db"
| "put_logs enc (log # logs) db = (case enc log of
     Inl err \<Rightarrow> Err err
   | Inr val \<Rightarrow> (case dbLogs db of
       None \<Rightarrow> Err nil_deref
     | Some bk \<Rightarrow> (case bucket_Put (uint64ToBytes (Index log)) val bk of
         Inl err \<Rightarrow> Err err | Inr bk' \<Rightarrow> put_logs enc logs (db\<lparr>dbLogs := Some bk'\<rparr>))))"

definition StoreLogs :: "(raft_log \<Rightarrow> bytes result) \<Rightarrow> error \<Rightarrow> raft_log list \<Rightarrow> bolt_db \<Rightarrow> error \<times> bolt_db" where
  "StoreLogs enc commit_err logs = write_tx commit_err (put_logs enc logs)"

definition StoreLog :: "(raft_log \<Rightarrow> bytes result) \<Rightarrow> error \<Rightarrow> raft_log \<Rightarrow> bolt_db \<Rightarrow> error \<times> bolt_db" where
  "StoreLog enc commit_err log = StoreLogs enc commit_err [log]"

text \<open>The cursor loop of \<open>DeleteRange\<close>: the keys it has still to visit, and the bucket.\<close>

fun delete_loop :: "64 word \<Rightarrow> bytes list \<Rightarrow> bucket \<Rightarrow> bucket result" where
  "delete_loop mx [] b = Ok b"
| "delete_loop mx (k # ks) b = (case bytesToUint64 k of
     Inl panic \<Rightarrow> Err panic
   | Inr i \<Rightarrow> if i > mx then Ok b else delete_loop mx ks (map_delete k b))"

definition cursor_Seek :: "bytes \<Rightarrow> bucket \<Rightarrow> bytes list" where
  "cursor_Seek k b = dropWhile (\<lambda>x. x < k) (map_keys b)"

definition DeleteRange :: "error \<Rightarrow> 64 word \<Rightarrow> 64 word \<Rightarrow> bolt_db \<Rightarrow> error \<times> bolt_db" where
  "DeleteRange commit_err mn mx = write_tx commit_err (\<lambda>db. case dbLogs db of
     None \<Rightarrow> Err nil_deref
   | Some b \<Rightarrow> (case delete_loop mx (cursor_Seek (uint64ToBytes mn) b) b of
       Inl err \<Rightarrow> Err err | Inr b' \<Rightarrow> Ok (db\<lparr>dbLogs := Some b'\<rparr>)))"

definition bolt_Set :: "error \<Rightarrow> bytes \<Rightarrow> bytes \<Rightarrow> bolt_db \<Rightarrow> error \<times> bolt_db" where
  "bolt_Set commit_err k v = write_tx commit_err (\<lambda>db. case dbConf db of
     None \<Rightarrow> Err nil_deref
   | Some b \<Rightarrow> (case bucket_Put k v b of Inl err \<Rightarrow> Err err | Inr b' \<Rightarrow> Ok (db\<lparr>dbConf := Some b'\<rparr>)))"

definition bolt_Add :: "error \<Rightarrow> bytes \<Rightarrow> bytes \<Rightarrow> bolt_db \<Rightarrow> error \<times> bolt_db" where
  "bolt_Add commit_err k v = write_tx commit_err (\<lambda>db. case dbConf db of
     None \<Rightarrow> Err nil_deref
   | Some b \<Rightarrow>
       if (case map_of b k of None \<Rightarrow> False | Some val \<Rightarrow> val \<noteq> []) then Err ErrKeyDuplicated
       else (case bucket_Put k v b of Inl err \<Rightarrow> Err err | Inr b' \<Rightarrow> Ok (db\<lparr>dbConf := Some b'\<rparr>)))"

definition bolt_Get :: "bytes \<Rightarrow> bolt_db \<Rightarrow> bytes result" where
  "bolt_Get k = read_tx dbConf (\<lambda>b. case map_of b k of None \<Rightarrow> Err ErrKeyNotFound | Some val \<Rightarrow> Ok val)"

definition SetUint64 :: "error \<Rightarrow> bytes \<Rightarrow> 64 word \<Rightarrow> bolt_db \<Rightarrow> error \<times> bolt_db" where
  "SetUint64 commit_err key val = bolt_Set commit_err key (uint64ToBytes val)"

definition GetUint64 :: "bytes \<Rightarrow> bolt_db \<Rightarrow> 64 word result" where
  "GetUint64 key db = (case bolt_Get key db of Inl err \<Rightarrow> Err err | Inr val \<Rightarrow> bytesToUint64 val)"

section \<open>Transactions\<close>

lemma word_succ_le: "m < b \<Longrightarrow> m + 1 \<le> x \<longleftrightarrow> m < x" for m b x :: "64 word"
proof -
  assume "m < b"
  then have "unat m + 1 < 2 ^ 64" using unsigned_less [where 'a = nat, of b] by (simp add: word_less_nat_alt)
  then have "unat (m + 1) = Suc (unat m)" by (simp add: unat_word_ariths)
  then show ?thesis by (simp add: word_le_nat_alt word_less_nat_alt Suc_le_eq)
qed

lemma write_tx_None:
  "write_tx ce body db = (None, db') \<longleftrightarrow> db_Begin True db = None \<and> body db = Ok db' \<and> ce = None"
  by (auto simp: write_tx_def split: option.splits sum.splits)

lemma write_tx_Some: "write_tx ce body db = (Some e, db') \<Longrightarrow> db' = db"
  by (auto simp: write_tx_def split: option.splits sum.splits)

lemma bucket_Put_Ok: "bucket_Put k v b = Ok b' \<longleftrightarrow>
    k \<noteq> [] \<and> length k \<le> 32768 \<and> length v \<le> 2147483646 \<and> b' = map_put k v b"
  by (auto simp: bucket_Put_def)

section \<open>The log\<close>

text \<open>
  The store is usable, its buckets are maps, and every log key is an index under which an entry of
  that index is stored.
\<close>

definition conf_ok :: "bolt_db \<Rightarrow> bool" where
  "conf_ok db \<longleftrightarrow> db_opened db \<and> \<not> db_readOnly db \<and> (\<exists>c. dbConf db = Some c \<and> gomap_wf c)"

definition logs_ok :: "(bytes \<Rightarrow> raft_log result) \<Rightarrow> bucket \<Rightarrow> bool" where
  "logs_ok dec b \<longleftrightarrow> gomap_wf b \<and>
     (\<forall>k v. map_of b k = Some v \<longrightarrow> length k = 8 \<and> (\<exists>l. dec v = Ok l \<and> k = uint64ToBytes (Index l)))"

definition log_inv :: "(bytes \<Rightarrow> raft_log result) \<Rightarrow> bolt_db \<Rightarrow> bool" where
  "log_inv dec db \<longleftrightarrow> conf_ok db \<and> (\<exists>b. dbLogs db = Some b \<and> logs_ok dec b)"

definition log_entry :: "(bytes \<Rightarrow> raft_log result) \<Rightarrow> bolt_db \<Rightarrow> 64 word \<Rightarrow> raft_log option" where
  "log_entry dec db i = (case dbLogs db of None \<Rightarrow> None
     | Some b \<Rightarrow> (case map_of b (uint64ToBytes i) of None \<Rightarrow> None
       | Some v \<Rightarrow> (case dec v of Inl _ \<Rightarrow> None | Inr l \<Rightarrow> Some l)))"

text \<open>What raft expects of a log store: a partial map from indexes to entries.\<close>

locale log_store =
  fixes inv :: "'s \<Rightarrow> bool"
    and entry :: "'s \<Rightarrow> 64 word \<Rightarrow> 'l option"
    and index :: "'l \<Rightarrow> 64 word"
    and first :: "'s \<Rightarrow> 64 word result"
    and final :: "'s \<Rightarrow> 64 word result"
    and get :: "64 word \<Rightarrow> 's \<Rightarrow> 'l result"
    and store :: "'l list \<Rightarrow> 's \<Rightarrow> error \<times> 's"
    and delete :: "64 word \<Rightarrow> 64 word \<Rightarrow> 's \<Rightarrow> error \<times> 's"
  assumes first_min: "inv s \<Longrightarrow> first s = Ok (if dom (entry s) = {} then 0 else Min (dom (entry s)))"
    and final_max: "inv s \<Longrightarrow> final s = Ok (if dom (entry s) = {} then 0 else Max (dom (entry s)))"
    and get_entry: "inv s \<Longrightarrow> get i s = (case entry s i of None \<Rightarrow> Err ErrLogNotFound | Some l \<Rightarrow> Ok l)"
    and store_entry: "inv s \<Longrightarrow> store ls s = (None, s') \<Longrightarrow>
      inv s' \<and> entry s' = entry s ++ map_of (rev (map (\<lambda>l. (index l, l)) ls))"
    and store_fail: "store ls s = (Some e, s') \<Longrightarrow> s' = s"
    and delete_entry: "inv s \<Longrightarrow> delete a b s = (None, s') \<Longrightarrow>
      inv s' \<and> entry s' = entry s |` {i. \<not> (a \<le> i \<and> i \<le> b)}"
    and delete_fail: "delete a b s = (Some e, s') \<Longrightarrow> s' = s"
begin

text \<open>The log holds exactly the entries from \<open>a\<close> to \<open>b\<close>, as a raft log does.\<close>

definition spans :: "'s \<Rightarrow> 64 word \<Rightarrow> 64 word \<Rightarrow> bool" where
  "spans s a b \<longleftrightarrow> inv s \<and> a \<le> b \<and> dom (entry s) = {a..b}"

lemma spans_bounds: "spans s a b \<Longrightarrow> first s = Ok a \<and> final s = Ok b"
  by (auto simp: spans_def first_min final_max intro: Min_eqI Max_eqI)

lemma append_spans:
  assumes "spans s a b" and "b < index l" and "index l = b + 1" and "store [l] s = (None, s')"
  shows "spans s' a (index l) \<and> get (index l) s' = Ok l \<and> (\<forall>i\<le>b. get i s' = get i s)"
proof -
  have s': "inv s'" "entry s' = (entry s)(index l \<mapsto> l)"
    using store_entry [of s "[l]" s'] assms(1,4) by (auto simp: spans_def)
  have "x \<le> index l \<longleftrightarrow> x \<le> b \<or> x = index l" for x
    using assms(2,3) word_succ_le [of b "index l" x] by (auto simp: not_le)
  then have "{a..index l} = insert (index l) {a..b}" using assms(1,2) by (auto simp: spans_def)
  with s' assms(1,2) show ?thesis by (auto simp: spans_def get_entry)
qed

lemma compact_spans:
  assumes "spans s a b" and "a \<le> m" and "m < b" and "delete a m s = (None, s')"
  shows "spans s' (m + 1) b \<and> (\<forall>i. m < i \<longrightarrow> get i s' = get i s)"
proof -
  have s': "inv s'" "entry s' = entry s |` {i. \<not> (a \<le> i \<and> i \<le> m)}"
    using delete_entry assms(1,4) by (auto simp: spans_def)
  have "i \<in> {a..b} \<inter> {i. \<not> (a \<le> i \<and> i \<le> m)} \<longleftrightarrow> i \<in> {m + 1..b}" for i
    unfolding Int_iff atLeastAtMost_iff mem_Collect_eq word_succ_le [OF assms(3)] not_le [symmetric]
    using assms(2) order_trans by auto
  then have "{a..b} \<inter> {i. \<not> (a \<le> i \<and> i \<le> m)} = {m + 1..b}" by blast
  moreover have "m + 1 \<le> b" using assms(3) word_succ_le by blast
  moreover have "get i s' = get i s" if "m < i" for i
    using that s' assms(1) by (auto simp: spans_def get_entry restrict_map_def)
  ultimately show ?thesis using s' assms(1) by (auto simp: spans_def)
qed

end

section \<open>The store keeps the contract\<close>

lemma log_inv_Begin: "log_inv dec db \<Longrightarrow> db_Begin w db = None"
  by (simp add: log_inv_def conf_ok_def db_Begin_def)

lemma log_invE:
  assumes "log_inv dec db"
  obtains b where "dbLogs db = Some b" "logs_ok dec b"
  using assms by (auto simp: log_inv_def)

lemma logs_okD:
  assumes "logs_ok dec b" and "map_of b k = Some v"
  obtains l where "dec v = Ok l" "k = uint64ToBytes (Index l)"
  using assms unfolding logs_ok_def by blast

lemma logs_ok_key:
  assumes "logs_ok dec b" and "k \<in> set (map_keys b)"
  obtains i where "k = uint64ToBytes i"
  using assms by (auto simp: set_map_keys elim: logs_okD)

lemma log_entry_dom:
  assumes "dbLogs db = Some b" and "logs_ok dec b"
  shows "i \<in> dom (log_entry dec db) \<longleftrightarrow> uint64ToBytes i \<in> set (map_keys b)"
  using assms by (auto simp: log_entry_def set_map_keys split: option.splits sum.splits elim: logs_okD)

lemma logs_ok_sorted: "logs_ok dec b \<Longrightarrow> sorted (map_keys b)"
  by (simp add: logs_ok_def gomap_wf_sorted)

lemma dom_empty:
  assumes "dbLogs db = Some b" and "logs_ok dec b"
  shows "dom (log_entry dec db) = {} \<longleftrightarrow> b = []"
proof (cases b)
  case (Cons p b')
  then obtain i where "fst p = uint64ToBytes i" using assms(2) by (auto elim: logs_ok_key)
  with Cons have "i \<in> dom (log_entry dec db)" by (simp add: log_entry_dom [OF assms])
  with Cons show ?thesis by blast
qed (use log_entry_dom [OF assms] in auto)

lemma FirstIndex_min:
  assumes "log_inv dec db"
  shows "FirstIndex db = Ok (if dom (log_entry dec db) = {} then 0 else Min (dom (log_entry dec db)))"
proof -
  obtain b where b: "dbLogs db = Some b" "logs_ok dec b" using assms by (rule log_invE)
  show ?thesis
  proof (cases b)
    case Nil
    with b assms dom_empty show ?thesis by (simp add: FirstIndex_def read_tx_def log_inv_Begin)
  next
    case (Cons p b')
    then obtain i where i: "fst p = uint64ToBytes i" using b(2) by (auto elim: logs_ok_key)
    have "Min (dom (log_entry dec db)) = i"
    proof (rule Min_eqI)
      fix j assume "j \<in> dom (log_entry dec db)"
      then have "fst p \<le> uint64ToBytes j"
        using log_entry_dom [OF b] logs_ok_sorted [OF b(2)] Cons by auto
      with i show "i \<le> j" by simp
    qed (use i Cons log_entry_dom [OF b] in auto)
    then show ?thesis
      using b Cons i dom_empty [OF b] assms
      by (cases p) (simp add: FirstIndex_def read_tx_def log_inv_Begin)
  qed
qed

lemma LastIndex_max:
  assumes "log_inv dec db"
  shows "LastIndex db = Ok (if dom (log_entry dec db) = {} then 0 else Max (dom (log_entry dec db)))"
proof -
  obtain b where b: "dbLogs db = Some b" "logs_ok dec b" using assms by (rule log_invE)
  show ?thesis
  proof (cases "b = []")
    case True
    with b assms dom_empty show ?thesis by (simp add: LastIndex_def read_tx_def log_inv_Begin)
  next
    case False
    have l: "fst (last b) = last (map_keys b)" using False by (simp add: map_keys_def last_map)
    have ne: "map_keys b \<noteq> []" using False by (simp add: map_keys_def)
    then have "last (map_keys b) \<in> set (map_keys b)" by (rule last_in_set)
    with b(2) obtain i where i: "last (map_keys b) = uint64ToBytes i" by (rule logs_ok_key)
    have "Max (dom (log_entry dec db)) = i"
    proof (rule Max_eqI)
      fix j assume "j \<in> dom (log_entry dec db)"
      then have "uint64ToBytes j \<le> last (map_keys b)"
        using log_entry_dom [OF b] logs_ok_sorted [OF b(2)] by (simp add: sorted_le_last)
      with i show "j \<le> i" by simp
    qed (use i log_entry_dom [OF b] \<open>last (map_keys b) \<in> _\<close> in auto)
    then show ?thesis
      using b False i l dom_empty [OF b] assms
      by (simp add: LastIndex_def read_tx_def log_inv_Begin)
  qed
qed

lemma GetLog_entry:
  assumes "log_inv dec db"
  shows "GetLog dec i db = (case log_entry dec db i of None \<Rightarrow> Err ErrLogNotFound | Some l \<Rightarrow> Ok l)"
proof -
  obtain b where b: "dbLogs db = Some b" "logs_ok dec b" using assms by (rule log_invE)
  then show ?thesis
    using assms by (auto simp: GetLog_def read_tx_def log_inv_Begin log_entry_def split: option.split sum.split elim: logs_okD)
qed

lemma delete_loop_fold:
  "\<forall>k\<in>set ks. length k = 8 \<Longrightarrow>
    delete_loop mx ks b = Ok (filter (\<lambda>p. fst p \<notin> set (takeWhile (\<lambda>k. k \<le> uint64ToBytes mx) ks)) b)"
proof (induction ks arbitrary: b)
  case (Cons k ks)
  then obtain i where "k = uint64ToBytes i" using bytes8_index by auto
  with Cons show ?case by (auto simp: map_delete_def not_le intro!: filter_cong)
qed simp

lemma delete_range_bucket:
  assumes "logs_ok dec b"
  shows "delete_loop mx (cursor_Seek (uint64ToBytes mn) b) b =
    Ok (filter (\<lambda>p. uint64ToBytes mn \<le> fst p \<longrightarrow> \<not> fst p \<le> uint64ToBytes mx) b)"
proof -
  have srt: "sorted (map_keys b)" using assms by (rule logs_ok_sorted)
  have "\<forall>k\<in>set (cursor_Seek (uint64ToBytes mn) b). length k = 8"
    using assms by (auto simp: cursor_Seek_def dest!: set_dropWhileD elim: logs_ok_key)
  moreover have "set (takeWhile (\<lambda>k. k \<le> uint64ToBytes mx) (cursor_Seek (uint64ToBytes mn) b)) =
      {k \<in> set (map_keys b). uint64ToBytes mn \<le> k \<and> k \<le> uint64ToBytes mx}"
    using srt by (auto simp: cursor_Seek_def set_takeWhile_le set_dropWhile_less sorted_dropWhile)
  ultimately show ?thesis
    by (auto simp: delete_loop_fold map_keys_def intro!: filter_cong)
qed

text \<open>The codec reads back what it wrote.\<close>

definition codec_ok :: "(raft_log \<Rightarrow> bytes result) \<Rightarrow> (bytes \<Rightarrow> raft_log result) \<Rightarrow> bool" where
  "codec_ok enc dec \<longleftrightarrow> (\<forall>l v. enc l = Ok v \<longrightarrow> dec v = Ok l)"

lemma log_inv_put:
  assumes "log_inv dec db" and "dbLogs db = Some b" and "dec v = Ok l"
  shows "log_inv dec (db\<lparr>dbLogs := Some (map_put (uint64ToBytes (Index l)) v b)\<rparr>)"
    and "log_entry dec (db\<lparr>dbLogs := Some (map_put (uint64ToBytes (Index l)) v b)\<rparr>) = (log_entry dec db)(Index l \<mapsto> l)"
  using assms by (auto simp: log_inv_def conf_ok_def logs_ok_def log_entry_def fun_eq_iff)

lemma put_logs_entry:
  assumes "codec_ok enc dec" and "log_inv dec db" and "put_logs enc ls db = Ok db'"
  shows "log_inv dec db' \<and> log_entry dec db' = log_entry dec db ++ map_of (rev (map (\<lambda>l. (Index l, l)) ls))"
  using assms(2,3)
proof (induction ls arbitrary: db)
  case (Cons l ls)
  then obtain v b where v: "enc l = Ok v" "dbLogs db = Some b"
      "put_logs enc ls (db\<lparr>dbLogs := Some (map_put (uint64ToBytes (Index l)) v b)\<rparr>) = Ok db'"
    by (auto simp: bucket_Put_Ok split: sum.splits option.splits)
  then have "dec v = Ok l" using assms(1) by (simp add: codec_ok_def)
  note put = log_inv_put [OF Cons.prems(1) v(2) this]
  from Cons.IH [OF put(1) v(3)] show ?case
    by (simp add: put(2) map_add_upd_left [symmetric] map_add_def fun_eq_iff split: option.splits)
qed simp

lemma put_logs_succeeds:
  assumes "dbLogs db \<noteq> None"
  shows "(\<exists>db'. put_logs enc ls db = Ok db') \<longleftrightarrow> (\<forall>l\<in>set ls. \<exists>v. enc l = Ok v \<and> length v \<le> 2147483646)"
  using assms
proof (induction ls arbitrary: db)
  case (Cons l ls)
  then obtain b where b: "dbLogs db = Some b" by blast
  show ?case
  proof (cases "\<exists>v. enc l = Ok v \<and> length v \<le> 2147483646")
    case True
    then obtain v where v: "enc l = Ok v" "length v \<le> 2147483646" by blast
    have "uint64ToBytes (Index l) \<noteq> []" using length_uint64ToBytes by (metis list.size(3) zero_neq_numeral)
    with v b show ?thesis using Cons.IH by (auto simp: bucket_Put_def)
  next
    case False
    with b show ?thesis by (auto simp: bucket_Put_Ok split: sum.splits)
  qed
qed simp

lemma DeleteRange_entry:
  assumes "log_inv dec db" and "DeleteRange ce mn mx db = (None, db')"
  shows "log_inv dec db' \<and> log_entry dec db' = log_entry dec db |` {i. \<not> (mn \<le> i \<and> i \<le> mx)}"
proof -
  obtain b where b: "dbLogs db = Some b" "logs_ok dec b" using assms(1) by (rule log_invE)
  let ?b = "filter (\<lambda>p. uint64ToBytes mn \<le> fst p \<longrightarrow> \<not> fst p \<le> uint64ToBytes mx) b"
  have db': "db' = db\<lparr>dbLogs := Some ?b\<rparr>"
    using assms(2) b by (simp add: DeleteRange_def write_tx_None delete_range_bucket)
  have map: "map_of ?b k = (if uint64ToBytes mn \<le> k \<and> k \<le> uint64ToBytes mx then None else map_of b k)" for k
    by (induction b) auto
  have "map_keys ?b = filter (\<lambda>k. \<not> (uint64ToBytes mn \<le> k \<and> k \<le> uint64ToBytes mx)) (map_keys b)"
    by (induction b) auto
  then have "gomap_wf ?b" using b(2) by (simp add: logs_ok_def gomap_wf_def sorted_wrt_filter)
  then have "logs_ok dec ?b" using b(2) unfolding logs_ok_def map by auto
  moreover have "log_entry dec db' = log_entry dec db |` {i. \<not> (mn \<le> i \<and> i \<le> mx)}"
    unfolding db' using b by (auto simp: log_entry_def map restrict_map_def fun_eq_iff)
  ultimately show ?thesis using assms(1) db' by (simp add: log_inv_def conf_ok_def)
qed

locale msgpack =
  fixes enc :: "raft_log \<Rightarrow> bytes result"
    and dec :: "bytes \<Rightarrow> raft_log result"
    and commit_err :: error
  assumes codec: "codec_ok enc dec"

sublocale msgpack \<subseteq> bolt: log_store "log_inv dec" "log_entry dec" Index FirstIndex LastIndex
  "GetLog dec" "StoreLogs enc commit_err" "DeleteRange commit_err"
proof
  fix ls db db'
  assume "log_inv dec db" and "StoreLogs enc commit_err ls db = (None, db')"
  then show "log_inv dec db' \<and> log_entry dec db' = log_entry dec db ++ map_of (rev (map (\<lambda>l. (Index l, l)) ls))"
    unfolding StoreLogs_def write_tx_None using put_logs_entry [OF codec, of db ls db'] by blast
qed (auto simp: FirstIndex_min LastIndex_max GetLog_entry DeleteRange_entry StoreLogs_def DeleteRange_def write_tx_None
      dest: write_tx_Some)

text \<open>A codec that keeps the contract: fixed fields first, then the data.\<close>

definition plain_enc :: "raft_log \<Rightarrow> bytes result" where
  "plain_enc l = Ok (uint64ToBytes (Index l) @ uint64ToBytes (Term l) @ LogType l # Data l)"

definition plain_dec :: "bytes \<Rightarrow> raft_log result" where
  "plain_dec b = (case (bytesToUint64 b, bytesToUint64 (drop 8 b), drop 16 b) of
     (Inr i, Inr t, ty # d) \<Rightarrow> Ok \<lparr>Index = i, Term = t, LogType = ty, Data = d\<rparr>
   | _ \<Rightarrow> Err (Errorf ''short''))"

lemma bytesToUint64_append: "bytesToUint64 (uint64ToBytes u @ b) = Ok u"
  by (simp add: bytesToUint64_value)

lemma plain_codec: "codec_ok plain_enc plain_dec"
  by (auto simp: codec_ok_def plain_enc_def plain_dec_def bytesToUint64_append)

interpretation plain: msgpack plain_enc plain_dec None
  by unfold_locales (rule plain_codec)

context msgpack
begin

lemma log_ends:
  assumes "log_inv dec db" and "a \<le> b"
    and "\<forall>i. (\<exists>l. GetLog dec i db = Ok l) \<longleftrightarrow> a \<le> i \<and> i \<le> b"
    and "StoreLog enc commit_err l db = (None, db1)" and "Index l = b + 1" and "b < b + 1"
    and "DeleteRange commit_err a m db = (None, db2)" and "a \<le> m" and "m < b"
  shows "FirstIndex db = Ok a \<and> LastIndex db = Ok b \<and>
    FirstIndex db1 = Ok a \<and> LastIndex db1 = Ok (b + 1) \<and>
    FirstIndex db2 = Ok (m + 1) \<and> LastIndex db2 = Ok b"
proof -
  have "i \<in> dom (log_entry dec db) \<longleftrightarrow> a \<le> i \<and> i \<le> b" for i
    using assms(3) [THEN spec, of i] by (auto simp: GetLog_entry [OF assms(1)] split: option.splits)
  then have "dom (log_entry dec db) = {a..b}"
    by (intro set_eqI) (simp only: atLeastAtMost_iff)
  then have s: "bolt.spans db a b"
    unfolding bolt.spans_def using assms(1,2) by simp
  have s1: "bolt.spans db1 a (Index l)"
    using bolt.append_spans [OF s, of l db1] assms(4-6) by (simp add: StoreLog_def)
  have s2: "bolt.spans db2 (m + 1) b"
    using bolt.compact_spans [OF s assms(8,9,7)] by simp
  show ?thesis
    using bolt.spans_bounds [OF s] bolt.spans_bounds [OF s1] bolt.spans_bounds [OF s2] assms(5) by simp
qed

end

section \<open>Properties\<close>

lemma StoreLogs_None:
  "log_inv dec db \<Longrightarrow> fst (StoreLogs enc ce ls db) = None \<longleftrightarrow>
    ce = None \<and> (\<forall>l\<in>set ls. \<exists>v. enc l = Ok v \<and> length v \<le> 2147483646)"
proof -
  assume inv: "log_inv dec db"
  have "fst (StoreLogs enc ce ls db) = None \<longleftrightarrow> (\<exists>db'. StoreLogs enc ce ls db = (None, db'))"
    by (metis fst_conv prod.collapse)
  also have "\<dots> \<longleftrightarrow> (\<exists>db'. put_logs enc ls db = Ok db') \<and> ce = None"
    using log_inv_Begin [OF inv] by (auto simp: StoreLogs_def write_tx_None)
  finally show ?thesis
    using put_logs_succeeds [of db enc ls] inv by (auto simp: log_inv_def)
qed

text \<open>An empty store after \<open>initialize\<close>.\<close>

definition fresh_db :: bolt_db where
  "fresh_db = \<lparr>db_opened = True, db_readOnly = False, dbLogs = Some [], dbConf = Some []\<rparr>"

lemma fresh_inv [simp]: "log_inv dec fresh_db" "conf_ok fresh_db"
  by (simp_all add: log_inv_def conf_ok_def logs_ok_def fresh_db_def)

abbreviation entry_at :: "64 word \<Rightarrow> raft_log" where
  "entry_at i \<equiv> \<lparr>Index = i, Term = 1, LogType = 0, Data = [7]\<rparr>"

text \<open>
  The keys of the log. The eight bytes of an index decode to it again, and the byte order in
  which bolt keeps the keys is the numeric order of the indexes.
\<close>

lemma uint64_codec:
  "bytesToUint64 (uint64ToBytes u) = Ok u \<and> length (uint64ToBytes u) = 8
    \<and> (uint64ToBytes u < uint64ToBytes v \<longleftrightarrow> u < v)"
  by simp

text \<open>
  C36: storing log entries. StoreLogs succeeds exactly when the commit does and every entry can be
  encoded within bolt's size limit; then every stored entry is read back (the last one, where an
  index occurs twice), all other indexes read as before and the invariant is kept. When it
  fails nothing has changed: a batch is stored as a whole or not at all.
\<close>

theorem StoreLogs_atomic:
  assumes "codec_ok enc dec" and "log_inv dec db" and "StoreLogs enc ce ls db = (e, db')"
  shows "(e = None \<longleftrightarrow> ce = None \<and> (\<forall>l\<in>set ls. \<exists>v. enc l = Ok v \<and> length v \<le> 2147483646))
    \<and> (if e = None
       then log_inv dec db' \<and> GetLog dec i db' =
         (case map_of (rev (map (\<lambda>l. (Index l, l)) ls)) i of Some l \<Rightarrow> Ok l | None \<Rightarrow> GetLog dec i db)
       else db' = db)"
proof -
  have e: "e = None \<longleftrightarrow> ce = None \<and> (\<forall>l\<in>set ls. \<exists>v. enc l = Ok v \<and> length v \<le> 2147483646)"
    using StoreLogs_None [OF assms(2), of enc ce ls] assms(3) by simp
  show ?thesis
  proof (cases e)
    case None
    then have "put_logs enc ls db = Ok db'" using assms(3) by (simp add: StoreLogs_def write_tx_None)
    from put_logs_entry [OF assms(1,2) this] show ?thesis
      using e None by (auto simp: GetLog_entry assms(2) map_add_def split: option.splits)
  next
    case (Some err)
    then show ?thesis using e assms(3) write_tx_Some by (auto simp: StoreLogs_def)
  qed
qed

theorem StoreLogs_atomic_witness:
  "\<exists>db'. StoreLogs plain_enc None [entry_at 5, entry_at 6] fresh_db = (None, db')
     \<and> GetLog plain_dec 6 db' = Ok (entry_at 6)"
proof -
  obtain e db' where s: "StoreLogs plain_enc None [entry_at 5, entry_at 6] fresh_db = (e, db')" by fastforce
  from StoreLogs_atomic [OF plain_codec fresh_inv(1) s, of 6] s show ?thesis by (simp add: plain_enc_def)
qed

text \<open>
  C37: deleting a range. DeleteRange removes exactly the entries whose index is between the bounds,
  both included; every other index reads as before.
\<close>

theorem DeleteRange_exact:
  assumes "log_inv dec db" and "DeleteRange ce mn mx db = (None, db')"
  shows "log_inv dec db' \<and> GetLog dec i db' = (if mn \<le> i \<and> i \<le> mx then Err ErrLogNotFound else GetLog dec i db)"
  using DeleteRange_entry [OF assms] by (auto simp: GetLog_entry assms(1) restrict_map_def)

theorem DeleteRange_exact_witness:
  "\<exists>db'. DeleteRange None 1 3 fresh_db = (None, db') \<and> GetLog plain_dec 2 db' = Err ErrLogNotFound"
proof -
  have d: "DeleteRange None 1 3 fresh_db = (None, fresh_db)"
    by (simp add: DeleteRange_def write_tx_def fresh_db_def db_Begin_def cursor_Seek_def)
  from DeleteRange_exact [OF fresh_inv(1) d, of plain_dec 2] d show ?thesis by simp
qed

text \<open>
  C38: the ends of the log. When the log holds exactly the entries from a to b, FirstIndex and
  LastIndex return a and b; after appending entry b + 1 it holds a to b + 1; after deleting the
  entries up to some m below b, as raft does after a snapshot, it holds m + 1 to b.
\<close>

theorem log_append_compact:
  assumes "codec_ok enc dec" and "log_inv dec db" and "a \<le> b"
    and "\<forall>i. (\<exists>l. GetLog dec i db = Ok l) \<longleftrightarrow> a \<le> i \<and> i \<le> b"
    and "StoreLog enc ce l db = (None, db1)" and "Index l = b + 1" and "b < b + 1"
    and "DeleteRange ce a m db = (None, db2)" and "a \<le> m" and "m < b"
  shows "FirstIndex db = Ok a \<and> LastIndex db = Ok b \<and>
    FirstIndex db1 = Ok a \<and> LastIndex db1 = Ok (b + 1) \<and>
    FirstIndex db2 = Ok (m + 1) \<and> LastIndex db2 = Ok b"
  using msgpack.log_ends [OF msgpack.intro [OF assms(1)] assms(2-10)] .

text \<open>A log of the entries 5 and 6, for the witness.\<close>

definition log56 :: bolt_db where
  "log56 = snd (StoreLogs plain_enc None [entry_at 5, entry_at 6] fresh_db)"

lemma store_succeeds:
  "log_inv plain_dec db \<Longrightarrow> \<forall>l\<in>set ls. length (Data l) \<le> 8 \<Longrightarrow> \<exists>db'. StoreLogs plain_enc None ls db = (None, db')"
  using StoreLogs_None [of plain_dec db plain_enc None ls] by (cases "StoreLogs plain_enc None ls db") (auto simp: plain_enc_def)

lemma log56_entries:
  "log_inv plain_dec log56" "log_entry plain_dec log56 = [5 \<mapsto> entry_at 5, 6 \<mapsto> entry_at 6]"
proof -
  obtain db' where "StoreLogs plain_enc None [entry_at 5, entry_at 6] fresh_db = (None, db')"
    using store_succeeds [OF fresh_inv(1), of "[entry_at 5, entry_at 6]"] by auto
  then have "StoreLogs plain_enc None [entry_at 5, entry_at 6] fresh_db = (None, log56)"
    by (simp add: log56_def)
  then have "put_logs plain_enc [entry_at 5, entry_at 6] fresh_db = Ok log56"
    unfolding StoreLogs_def write_tx_None by blast
  moreover have "log_entry plain_dec fresh_db = Map.empty" by (simp add: log_entry_def fresh_db_def fun_eq_iff)
  ultimately show "log_inv plain_dec log56" "log_entry plain_dec log56 = [5 \<mapsto> entry_at 5, 6 \<mapsto> entry_at 6]"
    using put_logs_entry [OF plain_codec fresh_inv(1), of "[entry_at 5, entry_at 6]" log56] by simp_all
qed

lemma between_5_6: "5 \<le> i \<and> i \<le> 6 \<longleftrightarrow> i = 5 \<or> i = 6" for i :: "64 word"
  by (auto simp: word_le_nat_alt word_unat_eq_iff)

theorem log_append_compact_witness:
  "\<exists>db1 db2. StoreLog plain_enc None (entry_at 7) log56 = (None, db1) \<and> LastIndex db1 = Ok 7
     \<and> DeleteRange None 5 5 log56 = (None, db2) \<and> FirstIndex db2 = Ok 6"
proof -
  obtain db1 where s1: "StoreLog plain_enc None (entry_at 7) log56 = (None, db1)"
    using store_succeeds [OF log56_entries(1), of "[entry_at 7]"] by (auto simp: StoreLog_def)
  obtain b where "dbLogs log56 = Some b" "logs_ok plain_dec b" using log56_entries(1) by (rule log_invE)
  then obtain db2 where s2: "DeleteRange None 5 5 log56 = (None, db2)"
    using log_inv_Begin [OF log56_entries(1)] by (auto simp: DeleteRange_def write_tx_None delete_range_bucket)
  have "(\<exists>l. GetLog plain_dec i log56 = Ok l) \<longleftrightarrow> 5 \<le> i \<and> i \<le> 6" for i
    by (simp add: GetLog_entry [OF log56_entries(1)] log56_entries(2) between_5_6)
  from log_append_compact [OF plain_codec log56_entries(1) _ _ s1 _ _ s2] this s1 s2 show ?thesis by simp
qed

text \<open>
  The key/value side. A successful Set is read back by Get and leaves other keys alone; Add
  refuses a key with a non-empty value with ErrKeyDuplicated and changes nothing, and otherwise does what
  Set does, so an empty value can be overwritten; a number stored by SetUint64 is read back.
\<close>

lemma conf_Set_Add_Get:
  assumes "conf_ok db"
  shows "(bolt_Set ce k v db = (None, db') \<longrightarrow>
      conf_ok db' \<and> bolt_Get k' db' = (if k' = k then Ok v else bolt_Get k' db))
    \<and> bolt_Add ce k v db = (if \<exists>w. bolt_Get k db = Ok w \<and> w \<noteq> [] then (Some ErrKeyDuplicated, db) else bolt_Set ce k v db)
    \<and> (SetUint64 ce k n db = (None, db') \<longrightarrow> GetUint64 k db' = Ok n)"
proof -
  obtain c where c: "dbConf db = Some c" "gomap_wf c" "db_Begin w db = None" for w
    using assms by (auto simp: conf_ok_def db_Begin_def)
  have Set: "bolt_Set ce k v db = (None, db') \<Longrightarrow> conf_ok db' \<and> bolt_Get k' db' = (if k' = k then Ok v else bolt_Get k' db)"
    for v k' db'
    using assms c
    by (auto simp: bolt_Set_def bolt_Get_def read_tx_def write_tx_None bucket_Put_Ok conf_ok_def db_Begin_def split: sum.splits)
  moreover have "bolt_Add ce k v db = (if \<exists>w. bolt_Get k db = Ok w \<and> w \<noteq> [] then (Some ErrKeyDuplicated, db) else bolt_Set ce k v db)"
    using c by (auto simp: bolt_Add_def bolt_Set_def bolt_Get_def read_tx_def write_tx_def split: option.splits)
  moreover have "SetUint64 ce k n db = (None, db') \<Longrightarrow> GetUint64 k db' = Ok n"
    using Set [of "uint64ToBytes n" db' k] by (simp add: SetUint64_def GetUint64_def)
  ultimately show ?thesis by blast
qed

end
