(* ===== verification/Gin.thy ===== *)
theory Gin
  imports JsonValue
begin

text \<open>
  What the handlers use of the gin web framework. The context keeps what goes over the wire: the
  status line is sent once, by the first write or by \<open>AbortWithError\<close>, and a later status is ignored
  (gin's \<open>responseWriter\<close>). \<open>BindJSON\<close> aborts with 400 itself when the body does not decode, before
  the handler's own answer.
\<close>

section \<open>The gin context\<close>

record gin_ctx =
  wire_status :: "nat option"
  wire_body :: string

definition new_ctx :: gin_ctx where
  "new_ctx = \<lparr>wire_status = None, wire_body = []\<rparr>"

definition send_header :: "nat \<Rightarrow> gin_ctx \<Rightarrow> gin_ctx" where
  "send_header status ctx = (case wire_status ctx of
     None \<Rightarrow> ctx\<lparr>wire_status := Some status\<rparr> | Some _ \<Rightarrow> ctx)"

definition ctx_JSON :: "nat \<Rightarrow> json \<Rightarrow> gin_ctx \<Rightarrow> gin_ctx" where
  "ctx_JSON status obj ctx = (let ctx' = send_header status ctx
     in ctx'\<lparr>wire_body := wire_body ctx' @ print_json obj\<rparr>)"

text \<open>\<open>BindJSON\<close> into a struct with the given fields: the context, and the fields or the error.\<close>

definition ctx_BindJSON :: "(string \<times> field_kind) list \<Rightarrow> string \<Rightarrow> gin_ctx \<Rightarrow> gin_ctx \<times> json gomap result" where
  "ctx_BindJSON fs body ctx = (case bind_result (bind_struct fs) (json_Decode body) of
     Inl err \<Rightarrow> (send_header StatusBadRequest ctx, Err err)
   | Inr obj \<Rightarrow> (ctx, Ok obj))"

definition ctx_response :: "gin_ctx \<Rightarrow> http_response" where
  "ctx_response ctx = \<lparr>StatusCode = (case wire_status ctx of None \<Rightarrow> StatusOK_http | Some s \<Rightarrow> s),
     Body = Ok (wire_body ctx)\<rparr>"

text \<open>\<open>WriteHeader\<close> and \<open>Write\<close> of the context's writer.\<close>

definition ctx_Write :: "nat \<Rightarrow> string \<Rightarrow> gin_ctx \<Rightarrow> gin_ctx" where
  "ctx_Write status body ctx = (let ctx' = send_header status ctx
     in ctx'\<lparr>wire_body := wire_body ctx' @ body\<rparr>)"

abbreviation answer :: "nat \<Rightarrow> json \<Rightarrow> http_response" where
  "answer st obj \<equiv> \<lparr>StatusCode = st, Body = Ok (print_json obj)\<rparr>"

text \<open>
  Gin's \<open>RedirectTrailingSlash\<close>, which \<open>gin.Default\<close> leaves on: a request whose path has one slash too many
  is sent to the path without it. The short page in a redirect to a GET is left out.
\<close>

definition strip_slash :: "string \<Rightarrow> string option" where
  "strip_slash path = (if path \<noteq> [] \<and> last path = CHR ''/'' then Some (butlast path) else None)"

definition redirect_status :: "string \<Rightarrow> nat" where
  "redirect_status httpMethod = (if httpMethod = ''GET'' then 301 else 307)"

section \<open>Lemmas\<close>

lemma ctx_response_sent [simp]:
  "ctx_response \<lparr>wire_status = Some st, wire_body = b\<rparr> = \<lparr>StatusCode = st, Body = Ok b\<rparr>"
  by (simp add: ctx_response_def)

lemma send_header_new [simp]: "send_header st new_ctx = \<lparr>wire_status = Some st, wire_body = []\<rparr>"
  by (simp add: send_header_def new_ctx_def)

lemma send_header_sent [simp]: "send_header st \<lparr>wire_status = Some w, wire_body = b\<rparr> = \<lparr>wire_status = Some w, wire_body = b\<rparr>"
  by (simp add: send_header_def)

lemma ctx_JSON_new [simp]: "ctx_JSON st obj new_ctx = \<lparr>wire_status = Some st, wire_body = print_json obj\<rparr>"
  by (simp add: ctx_JSON_def)

lemma ctx_JSON_sent [simp]:
  "ctx_JSON st obj \<lparr>wire_status = Some w, wire_body = b\<rparr> = \<lparr>wire_status = Some w, wire_body = b @ print_json obj\<rparr>"
  by (simp add: ctx_JSON_def)

lemma ctx_BindJSON_new:
  "ctx_BindJSON fs body new_ctx = (case bind_result (bind_struct fs) (json_Decode body) of
     Inl err \<Rightarrow> (\<lparr>wire_status = Some StatusBadRequest, wire_body = []\<rparr>, Err err) | Inr obj \<Rightarrow> (new_ctx, Ok obj))"
  by (simp add: ctx_BindJSON_def split: sum.split)

lemma ctx_Write_new [simp]: "ctx_Write st b new_ctx = \<lparr>wire_status = Some st, wire_body = b\<rparr>"
  by (simp add: ctx_Write_def)

end
