(* ===== verification/Service.thy ===== *)
theory Service
  imports DbMaster Store RaftBolt Gin
begin

text \<open>
  \<open>db/node/service/service.go\<close> and \<open>response.go\<close>: the HTTP service of a database node. A handler is a
  function of the store behind the interface \<open>service.Store\<close> (a record of its methods, which
  \<open>store.Store\<close> and \<open>mock.Store\<close> implement), of the request and of the gin context.
  The web-socket statistics loop is in \<open>Programs\<close>.
\<close>

section \<open>Responses\<close>

text \<open>The codes of the responses.\<close>

abbreviation OK :: nat where
  "OK \<equiv> 1000"

abbreviation ParamsError :: nat where
  "ParamsError \<equiv> 1001"

abbreviation KeyNotFound :: nat where
  "KeyNotFound \<equiv> 1002"

abbreviation KeyDuplicate :: nat where
  "KeyDuplicate \<equiv> 1003"

abbreviation InternalError :: nat where
  "InternalError \<equiv> 1004"

abbreviation NotLeaderError :: nat where
  "NotLeaderError \<equiv> 1005"

record Status =
  Code :: nat
  Message :: string

definition StatusParamsError :: Status where
  "StatusParamsError = \<lparr>Code = ParamsError, Message = ''params error''\<rparr>"

definition StatusNotLeaderError :: Status where
  "StatusNotLeaderError = \<lparr>Code = NotLeaderError, Message = ''i am not the leader''\<rparr>"

definition StatusKeyNotFound :: Status where
  "StatusKeyNotFound = \<lparr>Code = KeyNotFound, Message = ''key not found''\<rparr>"

definition StatusKeyDuplicate :: Status where
  "StatusKeyDuplicate = \<lparr>Code = KeyDuplicate, Message = ''key duplicate''\<rparr>"

definition StatusInternalError :: Status where
  "StatusInternalError = \<lparr>Code = InternalError, Message = ''internal error''\<rparr>"

definition StatusOK :: Status where
  "StatusOK = \<lparr>Code = OK, Message = []\<rparr>"

definition json_of_Status :: "Status \<Rightarrow> json" where
  "json_of_Status st = JObj [(''Code'', JNum (decimal (Code st))), (''Message'', JStr (Message st))]"

definition json_of_kvResp :: "string \<Rightarrow> string \<Rightarrow> json" where
  "json_of_kvResp key value = JObj [(''key'', JStr key), (''value'', JStr value)]"

section \<open>The store interface\<close>

record 's StoreI =
  Store_Open :: "bool \<Rightarrow> 's \<Rightarrow> error \<times> 's"
  Store_Get :: "'s \<Rightarrow> string \<Rightarrow> string result"
  Store_Add :: "'s \<Rightarrow> string \<Rightarrow> string \<Rightarrow> error \<times> 's"
  Store_Join :: "'s \<Rightarrow> string \<Rightarrow> error \<times> 's"
  Store_Peers :: "'s \<Rightarrow> string list result"
  Store_Leader :: "'s \<Rightarrow> string"
  Store_Stats :: "'s \<Rightarrow> string gomap"

definition raft_store :: "(store \<Rightarrow> string gomap) \<Rightarrow> open_env \<Rightarrow> error \<Rightarrow> (string \<Rightarrow> string list result) \<Rightarrow> store StoreI" where
  "raft_store raftStats env fut addPeer =
     \<lparr>Store_Open = (\<lambda>single s. (err_of (store_Open env single), s)), Store_Get = store_Get,
      Store_Add = store_Add fut, Store_Join = store_Join addPeer,
      Store_Peers = store_Peers, Store_Leader = store_Leader, Store_Stats = store_Stats raftStats\<rparr>"

definition mock_store_if :: "mock_store StoreI" where
  "mock_store_if =
     \<lparr>Store_Open = (\<lambda>single s. (None, s)), Store_Get = mockStore_Get, Store_Add = mockStore_Add,
      Store_Join = mockStore_Join, Store_Peers = mockStore_Peers, Store_Leader = mockStore_Leader,
      Store_Stats = mockStore_Stats\<rparr>"

section \<open>Handlers\<close>

record Service =
  raftAddr :: string
  httpAddr :: string

definition handleGet :: "'s StoreI \<Rightarrow> Service \<Rightarrow> 's \<Rightarrow> string \<Rightarrow> gin_ctx \<Rightarrow> gin_ctx" where
  "handleGet S svc s key ctx =
     (if raftAddr svc \<noteq> Store_Leader S s then ctx_JSON StatusBadRequest (json_of_Status StatusNotLeaderError) ctx
      else if key = [] then ctx_JSON StatusBadRequest (json_of_Status StatusParamsError) ctx
      else case Store_Get S s key of
        Inl err \<Rightarrow> ctx_JSON StatusInternalServerError (json_of_Status StatusInternalError) ctx
      | Inr val \<Rightarrow>
          if val = [] then ctx_JSON StatusNotFound (json_of_Status StatusKeyNotFound) ctx
          else ctx_JSON StatusOK_http (json_of_kvResp key val) ctx)"

definition handleSet :: "'s StoreI \<Rightarrow> Service \<Rightarrow> 's \<Rightarrow> string \<Rightarrow> gin_ctx \<Rightarrow> gin_ctx \<times> 's" where
  "handleSet S svc s body ctx =
     (if raftAddr svc \<noteq> Store_Leader S s
      then (ctx_JSON StatusBadRequest (json_of_Status StatusNotLeaderError) ctx, s)
      else case ctx_BindJSON [(''key'', FString), (''value'', FString)] body ctx of
        (ctx', Inl err) \<Rightarrow> (ctx_JSON StatusOK_http (json_of_Status StatusParamsError) ctx', s)
      | (ctx', Inr params) \<Rightarrow>
          (case Store_Add S s (string_field params ''key'') (string_field params ''value'') of
             (Some err, s') \<Rightarrow>
               if err = ErrKeyDuplicated then (ctx_JSON StatusOK_http (json_of_Status StatusKeyDuplicate) ctx', s')
               else (ctx_JSON StatusOK_http (json_of_Status StatusInternalError) ctx', s')
           | (None, s') \<Rightarrow> (ctx_JSON StatusOK_http (json_of_Status StatusOK) ctx', s')))"

text \<open>The last component says whether \<open>go s.updatePeers()\<close> was started.\<close>

definition handleJoin :: "'s StoreI \<Rightarrow> Service \<Rightarrow> 's \<Rightarrow> string \<Rightarrow> gin_ctx \<Rightarrow> gin_ctx \<times> 's \<times> bool" where
  "handleJoin S svc s body ctx =
     (if raftAddr svc \<noteq> Store_Leader S s
      then (ctx_JSON StatusBadRequest (json_of_Status StatusNotLeaderError) ctx, s, False)
      else case ctx_BindJSON [(''addr'', FString)] body ctx of
        (ctx', Inl err) \<Rightarrow> (ctx_JSON StatusBadRequest (json_of_Status StatusParamsError) ctx', s, False)
      | (ctx', Inr params) \<Rightarrow>
          (case Store_Join S s (string_field params ''addr'') of
             (Some err, s') \<Rightarrow>
               (ctx_JSON StatusInternalServerError (json_of_Status StatusInternalError) ctx', s', False)
           | (None, s') \<Rightarrow> (ctx_JSON StatusOK_http (json_of_Status StatusOK) ctx', s', True)))"

text \<open>
  The routes \<open>New\<close> registers, on the decoded path of the request; a \<open>:key\<close> segment is not empty and holds no
  slash. A path with one slash after a route is redirected, also with an empty key segment.
\<close>

datatype route = GetKey string | SetKey | JoinPeer | Ping | Stats | WsStats | Redirect nat | NoRoute

definition registered :: "string \<Rightarrow> string \<Rightarrow> route" where
  "registered httpMethod path =
     (if httpMethod = ''GET'' \<and> HasPrefix path ''/i/key/'' \<and> drop 7 path \<noteq> [] \<and> CHR ''/'' \<notin> set (drop 7 path)
      then GetKey (drop 7 path)
      else if httpMethod = ''POST'' \<and> path = ''/key'' then SetKey
      else if httpMethod = ''POST'' \<and> path = ''/join'' then JoinPeer
      else if httpMethod = ''GET'' \<and> path = ''/ping'' then Ping
      else if httpMethod = ''GET'' \<and> path = ''/stats'' then Stats
      else if httpMethod = ''GET'' \<and> path = ''/ws/stats'' then WsStats
      else NoRoute)"

definition route_of :: "string \<Rightarrow> string \<Rightarrow> route" where
  "route_of httpMethod path = (case registered httpMethod path of
     NoRoute \<Rightarrow> (case strip_slash path of
         None \<Rightarrow> NoRoute
       | Some p \<Rightarrow>
           if registered httpMethod p \<noteq> NoRoute \<or> httpMethod = ''GET'' \<and> p = ''/i/key/''
           then Redirect (redirect_status httpMethod) else NoRoute)
   | r \<Rightarrow> r)"

text \<open>
  What a request is answered, and its effect: the statistics are those of the store behind the service. A web-socket
  upgrade has no HTTP answer (\<open>None\<close>); gin answers 404 where no route matches.
\<close>

definition serve :: "'s StoreI \<Rightarrow> Service \<Rightarrow> 's \<Rightarrow> string \<Rightarrow> string \<Rightarrow> string \<Rightarrow> (http_response \<times> 's) option" where
  "serve S svc s httpMethod path body = (case route_of httpMethod path of
     GetKey key \<Rightarrow> Some (ctx_response (handleGet S svc s key new_ctx), s)
   | SetKey \<Rightarrow> (let (ctx, s') = handleSet S svc s body new_ctx in Some (ctx_response ctx, s'))
   | JoinPeer \<Rightarrow> (let (ctx, s', _) = handleJoin S svc s body new_ctx in Some (ctx_response ctx, s'))
   | Ping \<Rightarrow> Some (\<lparr>StatusCode = StatusOK_http, Body = Ok ''pong''\<rparr>, s)
   | Stats \<Rightarrow> Some (\<lparr>StatusCode = StatusOK_http, Body = Ok (marshal_map (Store_Stats S s))\<rparr>, s)
   | WsStats \<Rightarrow> None
   | Redirect status \<Rightarrow> Some (\<lparr>StatusCode = status, Body = Ok []\<rparr>, s)
   | NoRoute \<Rightarrow> Some (\<lparr>StatusCode = StatusNotFound, Body = Ok ''404 page not found''\<rparr>, s))"

section \<open>Joining and starting\<close>

definition register :: "'m Meta \<Rightarrow> Service \<Rightarrow> 'm \<Rightarrow> error \<times> 'm" where
  "register M svc m = RegisterPeer M m (raftAddr svc) (httpAddr svc)"

fun peer_addrs :: "'m Meta \<Rightarrow> 'm \<Rightarrow> string list \<Rightarrow> string list result" where
  "peer_addrs M m [] = Ok []"
| "peer_addrs M m (r # rs) = (case PeerHTTPAddr M m r of
     Inl err \<Rightarrow> Err err
   | Inr peer \<Rightarrow> (case peer_addrs M m rs of Inl err \<Rightarrow> Err err | Inr peers \<Rightarrow> Ok (peer # peers)))"

definition updatePeers :: "'s StoreI \<Rightarrow> 'm Meta \<Rightarrow> Service \<Rightarrow> 's \<Rightarrow> 'm \<Rightarrow> error \<times> 'm" where
  "updatePeers S M svc s m = (case Store_Peers S s of
     Inl err \<Rightarrow> (Some err, m)
   | Inr raftPeers \<Rightarrow>
       if raftPeers = [] then UpdatePeers M m [httpAddr svc]
       else (case peer_addrs M m raftPeers of
           Inl err \<Rightarrow> (Some err, m)
         | Inr peers \<Rightarrow> UpdatePeers M m peers))"

definition joinParams :: "Service \<Rightarrow> string" where
  "joinParams svc = print_json (JObj [(''addr'', JStr (raftAddr svc))])"

definition failed_to_join :: go_error where
  "failed_to_join = Errorf (''db/node/service: failed to join'' @ [CHR 0x0A])"

fun tryToJoin_loop :: "HTTPPoster \<Rightarrow> Service \<Rightarrow> string list \<Rightarrow> error" where
  "tryToJoin_loop post svc [] = Some failed_to_join"
| "tryToJoin_loop post svc (peer # peers) =
     (if peer = httpAddr svc then tryToJoin_loop post svc peers
      else case post (MakeURL peer @ ''/join'') (joinParams svc) of
        Inl err \<Rightarrow> tryToJoin_loop post svc peers
      | Inr res \<Rightarrow> if StatusCode res = StatusOK_http then None else tryToJoin_loop post svc peers)"

definition tryToJoin :: "HTTPPoster \<Rightarrow> Service \<Rightarrow> string list \<Rightarrow> error" where
  "tryToJoin post svc peers = (if peers = [] then None else tryToJoin_loop post svc peers)"

text \<open>
  \<open>Start\<close> up to serving: \<open>Inl err\<close> is \<open>log.DB.Fatal(err)\<close>, which ends the process; \<open>Inr\<close> the store and
  the meta store when the HTTP server starts.
\<close>

definition Start :: "'s StoreI \<Rightarrow> 'm Meta \<Rightarrow> HTTPPoster \<Rightarrow> Service \<Rightarrow> 's \<Rightarrow> 'm \<Rightarrow> ('s \<times> 'm) result" where
  "Start S M post svc s m = (case register M svc m of
     (Some err, _) \<Rightarrow> Err err
   | (None, m1) \<Rightarrow> (case Peers M m1 of
       Inl err \<Rightarrow> Err err
     | Inr peers \<Rightarrow>
         if peers = [] then (case Store_Open S True s of
             (Some err, _) \<Rightarrow> Err err
           | (None, s') \<Rightarrow> (case UpdatePeers M m1 [httpAddr svc] of
               (Some err, _) \<Rightarrow> Err err | (None, m2) \<Rightarrow> Ok (s', m2)))
         else (case Store_Open S False s of
             (Some err, _) \<Rightarrow> Err err
           | (None, s') \<Rightarrow> (case tryToJoin post svc peers of
               Some err \<Rightarrow> Err err | None \<Rightarrow> Ok (s', m1)))))"


section \<open>Lemmas\<close>

text \<open>The key and value of a request body: what \<open>BindJSON\<close> makes of it, if it decodes.\<close>

definition set_params :: "string \<Rightarrow> (string \<times> string) option" where
  "set_params body = (case bind_result (bind_struct [(''key'', FString), (''value'', FString)]) (json_Decode body) of
     Inl _ \<Rightarrow> None | Inr obj \<Rightarrow> Some (string_field obj ''key'', string_field obj ''value''))"

lemma set_params_utf8: "set_params body = Some (k, v) \<Longrightarrow> valid_utf8 k \<and> valid_utf8 v"
  by (auto simp: set_params_def bind_result_Ok split: sum.splits
      dest!: json_Decode_utf8 intro!: string_field_utf8 intro: bind_struct_utf8)

text \<open>The body the client sends (\<open>kvParams\<close>, empty fields left out) is read back.\<close>

lemma set_params_kv:
  assumes "valid_utf8 k" and "valid_utf8 v"
  shows "set_params (print_json (json_of_fields (omit_empty [(''key'', k), (''value'', v)]))) = Some (k, v)"
proof -
  let ?fs = "omit_empty [(''key'', k), (''value'', v)]"
  have "wf_json (json_of_fields ?fs)"
    using assms by (auto simp: json_of_fields_def omit_empty_def)
  then have "json_Decode (print_json (json_of_fields ?fs)) = Ok (json_of_fields ?fs)"
    by (rule json_Decode_print)
  then show ?thesis
    by (simp add: set_params_def json_of_fields_def omit_empty_def find_field_def string_field_def)
qed

lemma handleSet_eq:
  "handleSet S svc s body new_ctx =
     (if raftAddr svc \<noteq> Store_Leader S s
      then (ctx_JSON StatusBadRequest (json_of_Status StatusNotLeaderError) new_ctx, s)
      else case set_params body of
        None \<Rightarrow> (ctx_JSON StatusBadRequest (json_of_Status StatusParamsError) new_ctx, s)
      | Some (k, v) \<Rightarrow> (case Store_Add S s k v of
          (Some err, s') \<Rightarrow> (ctx_JSON StatusOK_http
             (json_of_Status (if err = ErrKeyDuplicated then StatusKeyDuplicate else StatusInternalError)) new_ctx, s')
        | (None, s') \<Rightarrow> (ctx_JSON StatusOK_http (json_of_Status StatusOK) new_ctx, s')))"
  by (auto simp: handleSet_def set_params_def ctx_BindJSON_new split: sum.split option.split prod.split)

lemma json_of_Status_inj: "json_of_Status a = json_of_Status b \<longleftrightarrow> a = b"
  by (cases a; cases b) (simp add: json_of_Status_def)

lemma tryToJoin_loop_None:
  "tryToJoin_loop post svc peers = None \<longleftrightarrow>
    (\<exists>p\<in>set peers. p \<noteq> httpAddr svc \<and>
      (\<exists>res. post (MakeURL p @ ''/join'') (joinParams svc) = Ok res \<and> StatusCode res = StatusOK_http))"
  by (induction peers) (auto split: sum.splits)

lemma tryToJoin_loop_error: "tryToJoin_loop post svc peers \<in> {None, Some failed_to_join}"
  by (induction peers) (auto split: sum.splits)

lemma peer_addrs_Ok: "peer_addrs M m rs = Ok hs \<longleftrightarrow> list_all2 (\<lambda>r h. PeerHTTPAddr M m r = Ok h) rs hs"
proof (induction rs arbitrary: hs)
  case (Cons r rs)
  then show ?case
    by (cases hs) (auto simp flip: Cons.IH split: sum.split)
qed auto

lemma registered_addrs:
  assumes "meta_store M up kv" and "up m"
  shows "peer_addrs M m rs =
    (if \<forall>r\<in>set rs. kv m (httpAddrKeyOfRaftAddr r) \<noteq> None
     then Ok (map (\<lambda>r. the (kv m (httpAddrKeyOfRaftAddr r))) rs) else Err ErrDataNotFound)"
  by (induction rs) (auto simp: PeerHTTPAddr_def meta_store.Get_kv [OF assms] split: option.split)

section \<open>Properties\<close>

text \<open>A write body for the key and value, and a leading node, for the witnesses.\<close>

abbreviation write_body :: "string \<Rightarrow> string \<Rightarrow> string" where
  "write_body k v \<equiv> print_json (json_of_fields (omit_empty [(''key'', k), (''value'', v)]))"

abbreviation leading :: "string gomap \<Rightarrow> store" where
  "leading m \<equiv> New_store\<lparr>kvm := m, raft_State := Leader, raft_Leader := ''r:1''\<rparr>"

abbreviation raft1 :: "store StoreI" where
  "raft1 \<equiv> raft_store (\<lambda>_. []) \<lparr>ResolveTCPAddr = None, NewTCPTransport = None, peerStore_Peers = Ok [],
     NewFileSnapshotStore = None, NewBoltStore_err = None, NewRaft = None\<rparr> None (\<lambda>a. Ok [a])"

abbreviation svc1 :: Service where
  "svc1 \<equiv> \<lparr>raftAddr = ''r:1'', httpAddr = ''h:1''\<rparr>"

lemma leading_simps [simp]:
  "raft_Leader (leading m) = ''r:1''" "raft_State (leading m) = Leader" "store_contents (leading m) = map_of m"
  by simp_all

lemma raft_store_simps [simp]:
  "Store_Leader (raft_store stats env fut ap) s = raft_Leader s"
  "Store_Get (raft_store stats env fut ap) s k = store_Get s k"
  "Store_Add (raft_store stats env fut ap) s k v = store_Add fut s k v"
  "Store_Join (raft_store stats env fut ap) s a = store_Join ap s a"
  "Store_Peers (raft_store stats env fut ap) s = raft_Peers s"
  "Store_Stats (raft_store stats env fut ap) s = stats s"
  "Store_Open (raft_store stats env fut ap) b s = (err_of (store_Open env b), s)"
  by (simp_all add: raft_store_def store_Leader_def store_Peers_def store_Stats_def)

lemma get_response:
  "ctx_response (handleGet (raft_store stats env fut ap) svc s k new_ctx) =
     (if raftAddr svc \<noteq> raft_Leader s then answer 400 (json_of_Status StatusNotLeaderError)
      else if k = [] then answer 400 (json_of_Status StatusParamsError)
      else if store_contents s k = None \<or> store_contents s k = Some [] then answer 404 (json_of_Status StatusKeyNotFound)
      else answer 200 (json_of_kvResp k (the (store_contents s k))))"
  by (auto simp: handleGet_def store_Get_def map_index_def split: option.splits)

text \<open>A write request changes nothing or gives a fresh key its value, keeping what there is.\<close>

lemma handleSet_store:
  assumes "handleSet (raft_store stats env fut ap) svc s body new_ctx = (ctx, s')"
  obtains "s' = s" | k v where "valid_utf8 k" "valid_utf8 v" "map_of (kvm s) k = None" "s' = s\<lparr>kvm := map_put k v (kvm s)\<rparr>"
proof (cases "set_params body")
  case None
  with assms that(1) show ?thesis by (auto simp: handleSet_eq split: if_splits)
next
  case (Some kv)
  obtain k v where kv: "kv = (k, v)" by fastforce
  with Some have u: "valid_utf8 k" "valid_utf8 v" using set_params_utf8 by blast+
  have "s' = s \<or> map_of (kvm s) k = None \<and> s' = s\<lparr>kvm := map_put k v (kvm s)\<rparr>"
    using assms Some kv store_Add_eq [OF u, of fut s]
    by (auto simp: handleSet_eq applyAdd_def split: if_splits option.splits prod.splits)
  with u that show ?thesis by blast
qed

lemma handleSet_keeps:
  assumes "handleSet (raft_store stats env fut ap) svc s body new_ctx = (ctx, s')"
  shows "map_of (kvm s) k = Some v \<Longrightarrow> map_of (kvm s') k = Some v" and "utf8_map (kvm s) \<Longrightarrow> utf8_map (kvm s')"
  using assms by (cases rule: handleSet_store; auto)+

text \<open>
  C24: a write request. Off the leader, or with a body that is not a JSON object of strings, the
  answer is 400 and nothing changes (gin sends 400 before the handler's own 200). Otherwise the
  answer is 200, with StatusOK exactly when the log entry was committed, and the store gains the
  pair exactly when it was committed and the key had no value yet.
\<close>

theorem handleSet_answers:
  assumes "handleSet (raft_store stats env fut ap) svc s body new_ctx = (ctx, s')"
    and "fut \<noteq> Some ErrKeyDuplicated"
  shows "ctx_response ctx =
      (if raftAddr svc \<noteq> raft_Leader s then answer 400 (json_of_Status StatusNotLeaderError)
       else if set_params body = None then answer 400 (json_of_Status StatusParamsError)
       else if raft_State s = Leader \<and> fut = None then answer 200 (json_of_Status StatusOK)
       else answer 200 (json_of_Status StatusInternalError))
    \<and> store_contents s' =
      (case set_params body of
         Some (k, v) \<Rightarrow>
           if raftAddr svc = raft_Leader s \<and> raft_State s = Leader \<and> fut = None \<and> store_contents s k = None
           then (store_contents s)(k \<mapsto> v) else store_contents s
       | None \<Rightarrow> store_contents s)"
proof (cases "set_params body")
  case None
  with assms(1) show ?thesis by (auto simp: handleSet_eq split: if_splits)
next
  case (Some kv)
  obtain k v where kv: "kv = (k, v)" by fastforce
  with Some have u: "valid_utf8 k" "valid_utf8 v" using set_params_utf8 by blast+
  obtain err s2 where add: "store_Add fut s k v = (err, s2)" by fastforce
  note out = store_Add_eq [OF u, of fut s] add
  show ?thesis
    using assms Some kv out
    by (auto simp: handleSet_eq ErrKeyDuplicated_def applyAdd_def split: if_splits option.splits)
qed

theorem handleSet_answers_witness:
  "\<exists>ctx s'. handleSet raft1 svc1 (leading []) (write_body ''k'' ''v'') new_ctx = (ctx, s')
     \<and> ctx_response ctx = answer 200 (json_of_Status StatusOK) \<and> store_contents s' ''k'' = Some ''v''"
proof -
  obtain ctx s' where h: "handleSet raft1 svc1 (leading []) (write_body ''k'' ''v'') new_ctx = (ctx, s')"
    by fastforce
  have "set_params (write_body ''k'' ''v'') = Some (''k'', ''v'')" by (simp add: set_params_kv)
  with handleSet_answers [OF h] h show ?thesis by simp
qed

text \<open>
  The duplicate is not reported. On the leader, a write to a key that already has a value
  leaves the store as it is and, when its log entry is committed, is answered 200 with StatusOK:
  StatusKeyDuplicate, which the handler prepares for this case, is never sent.
\<close>

lemma duplicate_write_reports_success:
  assumes "raftAddr svc = raft_Leader s" and "raft_State s = Leader"
    and "set_params body = Some (k, v)" and "store_contents s k = Some w"
  shows "\<exists>ctx. handleSet (raft_store stats env None ap) svc s body new_ctx = (ctx, s)
    \<and> ctx_response ctx = answer 200 (json_of_Status StatusOK)"
  using assms set_params_utf8 [OF assms(3)]
  by (auto simp: handleSet_eq store_Add_eq applyAdd_def)

text \<open>
  An empty value locks its key. After a committed write of the empty string to a fresh key, reads
  of the key answer 404 and no later write changes it, although each is answered with StatusOK.
\<close>

lemma empty_value_locks_key:
  assumes "raftAddr svc = raft_Leader s" and "raft_State s = Leader"
    and "set_params body = Some (k, [])" and "k \<noteq> []" and "store_contents s k = None"
    and "handleSet (raft_store stats env None ap) svc s body new_ctx = (ctx, s')"
    and "set_params body2 = Some (k, v)"
  shows "ctx_response (handleGet (raft_store stats env None ap) svc s' k new_ctx) = answer 404 (json_of_Status StatusKeyNotFound)
    \<and> (\<exists>ctx2. handleSet (raft_store stats env None ap) svc s' body2 new_ctx = (ctx2, s')
         \<and> ctx_response ctx2 = answer 200 (json_of_Status StatusOK))"
proof -
  have s': "s' = s\<lparr>kvm := map_put k [] (kvm s)\<rparr>"
    using assms set_params_utf8 [OF assms(3)] by (auto simp: handleSet_eq store_Add_eq applyAdd_def)
  then show ?thesis
    using assms set_params_utf8 [OF assms(7)]
    by (auto simp: get_response handleSet_eq store_Add_eq applyAdd_def)
qed

lemma empty_value_locks_key_witness:
  "\<exists>ctx s'. handleSet raft1 svc1 (leading []) (write_body ''k'' []) new_ctx = (ctx, s')
     \<and> ctx_response (handleGet raft1 svc1 s' ''k'' new_ctx)
         = answer 404 (json_of_Status StatusKeyNotFound)"
proof -
  obtain ctx s' where h: "handleSet raft1 svc1 (leading []) (write_body ''k'' []) new_ctx = (ctx, s')"
    by fastforce
  from empty_value_locks_key [OF _ _ _ _ _ h, of "''k''" "write_body ''k'' ''v''" "''v''"] h
  show ?thesis by (simp add: set_params_kv)
qed

text \<open>
  Joining. tryToJoin succeeds exactly when there is no known peer at all, or some known
  peer other than the node itself answers the join request with 200; otherwise it fails with
  its own error. In particular a node that finds only itself in the peer list cannot start.
\<close>

lemma tryToJoin_outcome:
  "tryToJoin post svc peers =
    (if peers = [] \<or> (\<exists>p\<in>set peers. p \<noteq> httpAddr svc \<and>
        (\<exists>res. post (MakeURL p @ ''/join'') (joinParams svc) = Ok res \<and> StatusCode res = 200))
     then None else Some failed_to_join)"
  using tryToJoin_loop_None [of post svc peers] tryToJoin_loop_error [of post svc peers]
  by (auto simp: tryToJoin_def)

text \<open>
  After a join the service publishes the group. When every raft peer has registered its HTTP
  address, updatePeers stores exactly these addresses, sorted; when one has not, it reports the
  missing entry and leaves the published list as it was.
\<close>

lemma updatePeers_publishes:
  assumes "etcd_client g p up kv" and "up m" and "Store_Peers S s = Ok rs" and "rs \<noteq> []"
    and "\<forall>r\<in>set rs. \<forall>h. kv m (httpAddrKeyOfRaftAddr r) = Some h \<longrightarrow> valid_utf8 h"
    and "updatePeers S (etcd_meta g p) svc s m = (e, m')"
  shows "if \<forall>r\<in>set rs. kv m (httpAddrKeyOfRaftAddr r) \<noteq> None
    then e = None \<and> Peers (etcd_meta g p) m' = Ok (sort (map (\<lambda>r. the (kv m (httpAddrKeyOfRaftAddr r))) rs))
    else e = Some ErrDataNotFound \<and> m' = m"
proof -
  note M = etcd_meta_store [OF assms(1)]
  note look = registered_addrs [OF M assms(2), of rs]
  show ?thesis
  proof (cases "\<forall>r\<in>set rs. kv m (httpAddrKeyOfRaftAddr r) \<noteq> None")
    case True
    let ?hs = "map (\<lambda>r. the (kv m (httpAddrKeyOfRaftAddr r))) rs"
    have "updatePeers S (etcd_meta g p) svc s m = UpdatePeers (etcd_meta g p) m ?hs"
      using True look assms(3,4) by (simp add: updatePeers_def)
    moreover have "\<forall>h\<in>set ?hs. valid_utf8 h" using True assms(5) by auto
    ultimately show ?thesis
      using True assms(6) meta_store.UpdatePeers_has [OF M assms(2)] meta_store.fetchPeers_has [OF M]
      unfolding Peers_def by (metis fst_conv snd_conv)
  next
    case False
    then have "peer_addrs (etcd_meta g p) m rs = Err ErrDataNotFound" unfolding look by (rule if_not_P)
    with False assms(3,4,6) show ?thesis by (auto simp: updatePeers_def)
  qed
qed

text \<open>
  Starting the first node. With a reachable etcd that has no peer list and a store that opens,
  Start registers the node and publishes it as the only peer; started again while it is the only
  published peer it ends in the fatal join error, whatever the network answers.
\<close>

lemma Start_first_node:
  assumes "etcd_client g p up kv" and "up m" and "kv m raftNodesKey = None" and "valid_utf8 (httpAddr svc)"
    and "\<And>b. Store_Open S b s = (None, s)"
  shows "\<exists>m'. Start S (etcd_meta g p) post svc s m = Ok (s, m')
    \<and> Peers (etcd_meta g p) m' = Ok [httpAddr svc]
    \<and> PeerHTTPAddr (etcd_meta g p) m' (raftAddr svc) = Ok (httpAddr svc)
    \<and> Start S (etcd_meta g p) post svc s m' = Err failed_to_join"
proof -
  note M = etcd_meta_store [OF assms(1)]
  let ?M = "etcd_meta g p"
  obtain m1 where m1: "meta_Put ?M m (httpAddrKeyOfRaftAddr (raftAddr svc)) (httpAddr svc) = (None, m1)"
      "up m1" "kv m1 = (kv m)(httpAddrKeyOfRaftAddr (raftAddr svc) \<mapsto> httpAddr svc)"
    using meta_store.Put_cases [OF M assms(2)] by blast
  obtain m2 where m2: "meta_Put ?M m1 raftNodesKey (marshal_strings [httpAddr svc]) = (None, m2)"
      "up m2" "kv m2 = (kv m1)(raftNodesKey \<mapsto> marshal_strings [httpAddr svc])"
    using meta_store.Put_cases [OF M m1(2)] by blast
  obtain m3 where m3: "meta_Put ?M m2 (httpAddrKeyOfRaftAddr (raftAddr svc)) (httpAddr svc) = (None, m3)"
      "up m3" "kv m3 = (kv m2)(httpAddrKeyOfRaftAddr (raftAddr svc) \<mapsto> httpAddr svc)"
    using meta_store.Put_cases [OF M m2(2)] by blast
  have "Peers ?M m1 = Ok []"
    using m1 assms(3) by (simp add: Peers_def fetchPeers_def meta_store.Get_kv [OF M])
  moreover have P: "Peers ?M m2 = Ok [httpAddr svc]" "Peers ?M m3 = Ok [httpAddr svc]"
    using m2 m3 assms(4) by (simp_all add: Peers_def fetchPeers_def meta_store.Get_kv [OF M] json_simps)
  moreover have "PeerHTTPAddr ?M m2 (raftAddr svc) = Ok (httpAddr svc)"
    using m1 m2 by (simp add: PeerHTTPAddr_def meta_store.Get_kv [OF M])
  ultimately show ?thesis
    using m1 m2 m3 assms(5)
    by (simp add: Start_def register_def RegisterPeer_def UpdatePeers_def tryToJoin_def)
qed

lemma Start_first_node_witness:
  "\<exists>m'. Start mock_store_if (etcd_meta mem_Get mem_Put) (\<lambda>_ _. Err (Errorf ''refused'')) svc1 NewMockStore [] = Ok (NewMockStore, m')
    \<and> Peers (etcd_meta mem_Get mem_Put) m' = Ok [''h:1'']"
  using Start_first_node [OF mem_etcd_client, of "[]" svc1 mock_store_if NewMockStore "\<lambda>_ _. Err (Errorf ''refused'')"]
  by (auto simp: mock_store_if_def)

end
