(* ===== verification/Machine.thy ===== *)
theory Machine
  imports Main
begin

text \<open>
  Machines of goroutines. The fan-outs of the client and of the cache node are functions
  \<open>step ev s\<close> that give the next state where the event is enabled and \<open>None\<close> where it is not. \<open>run\<close> is a
  whole schedule, \<open>stuck\<close> a state in which nothing is left to do. A machine that gets lighter with
  every step (the locale \<open>finite_machine\<close>) has no endless schedule, and each of its
  schedules can be carried on to a stuck state.
\<close>

fun run :: "('e \<Rightarrow> 's \<Rightarrow> 's option) \<Rightarrow> 'e list \<Rightarrow> 's \<Rightarrow> 's option" where
  "run step [] s = Some s"
| "run step (ev # evs) s = (case step ev s of None \<Rightarrow> None | Some s' \<Rightarrow> run step evs s')"

definition stuck :: "('e \<Rightarrow> 's \<Rightarrow> 's option) \<Rightarrow> 's \<Rightarrow> bool" where
  "stuck step s \<longleftrightarrow> (\<forall>ev. step ev s = None)"

lemma run_append: "run step (xs @ ys) s = (case run step xs s of None \<Rightarrow> None | Some s' \<Rightarrow> run step ys s')"
  by (induction xs arbitrary: s) (auto split: option.split)

lemma run_invariant:
  assumes "run step evs s = Some s'" and "P s" and "\<And>ev s s'. P s \<Longrightarrow> step ev s = Some s' \<Longrightarrow> P s'"
  shows "P s'"
  using assms(1,2)
proof (induction evs arbitrary: s)
  case (Cons ev evs)
  then obtain s1 where "step ev s = Some s1" "run step evs s1 = Some s'" by (auto split: option.splits)
  with Cons.IH Cons.prems(2) assms(3) show ?case by blast
qed simp

lemma stuckD: "stuck step s \<Longrightarrow> step ev s = None"
  by (simp add: stuck_def)

lemma length_remove1_Suc: "x \<in> set xs \<Longrightarrow> Suc (length (remove1 x xs)) = length xs"
  by (cases xs) (auto simp: length_remove1 dest: length_pos_if_in_set)

locale finite_machine =
  fixes step :: "'e \<Rightarrow> 's \<Rightarrow> 's option"
    and inv :: "'s \<Rightarrow> bool"
    and weight :: "'s \<Rightarrow> nat"
  assumes step_inv: "inv s \<Longrightarrow> step ev s = Some s' \<Longrightarrow> inv s'"
    and step_weight: "inv s \<Longrightarrow> step ev s = Some s' \<Longrightarrow> weight s' < weight s"
begin

lemma run_inv: "run step evs s = Some s' \<Longrightarrow> inv s \<Longrightarrow> inv s'"
  by (rule run_invariant) (auto intro: step_inv)

lemma run_weight: "run step evs s = Some s' \<Longrightarrow> inv s \<Longrightarrow> length evs + weight s' \<le> weight s"
proof (induction evs arbitrary: s)
  case (Cons ev evs)
  then obtain s1 where s1: "step ev s = Some s1" "run step evs s1 = Some s'" by (auto split: option.splits)
  note step_inv [OF Cons.prems(2) s1(1)] and step_weight [OF Cons.prems(2) s1(1)]
  with Cons.IH [OF s1(2)] show ?case by simp
qed simp

lemma run_length: "run step evs s = Some s' \<Longrightarrow> inv s \<Longrightarrow> length evs \<le> weight s"
  using run_weight by fastforce

lemma run_to_stuck: "inv s \<Longrightarrow> \<exists>evs s'. run step evs s = Some s' \<and> stuck step s'"
proof (induction "weight s" arbitrary: s rule: less_induct)
  case less
  show ?case
  proof (cases "stuck step s")
    case True
    then have "run step [] s = Some s \<and> stuck step s" by simp
    then show ?thesis by blast
  next
    case False
    then obtain ev s1 where s1: "step ev s = Some s1" by (auto simp: stuck_def)
    from less.hyps [OF step_weight [OF less.prems s1] step_inv [OF less.prems s1]]
    obtain evs s' where "run step evs s1 = Some s'" "stuck step s'" by blast
    with s1 have "run step (ev # evs) s = Some s' \<and> stuck step s'" by simp
    then show ?thesis by blast
  qed
qed

end

end
