(* ===== verification/FanOut.thy ===== *)
theory FanOut
  imports Prelude Machine
begin

text \<open>
  The read fan-out: \<open>tryAllDBFind\<close>, which \<open>cache/node/node.go\<close> and \<open>client/kv.go\<close> write out once each with
  the same control flow. One goroutine per database asks it for the key; the first one with an answer
  (a value, or the not-found error) sets \<open>got\<close>, records its url and error and starts a
  goroutine that offers the value on the unbuffered channel \<open>data\<close>; the caller takes the first of the value and
  the timeout, and starts a goroutine that sets the fast database.

  The interleaving is explicit: \<open>fan\<close> is the state shared by the goroutines, an event is one atomic step of
  one of them (a critical section, or an operation on the channel), and \<open>fan_reach\<close> are the states
  of all interleavings. \<open>answer u\<close> is what the request to \<open>u\<close> ends with. A goroutine whose request never
  ends simply never takes its step. The two error values are parameters of the machine.
\<close>

section \<open>The machine\<close>

record fan =
  pending :: "nat list"
  got :: bool
  completeCount :: nat
  fastURL :: string
  resErr :: error
  data_chan :: "string list"
  returned :: "(string \<times> error) option"
  setters :: "string list"
  fastDB :: string

definition fan_init :: "string list \<Rightarrow> string \<Rightarrow> fan" where
  "fan_init urls fast = \<lparr>pending = [0..<length urls], got = False, completeCount = 0, fastURL = [],
     resErr = None, data_chan = [], returned = None, setters = [], fastDB = fast\<rparr>"

datatype fan_event = Finish nat | Receive | Timeout | SetFast

text \<open>The value of a pair (value, error): empty when there is an error.\<close>

definition val_of :: "string result \<Rightarrow> string" where
  "val_of r = (case r of Inl _ \<Rightarrow> [] | Inr v \<Rightarrow> v)"

text \<open>The critical section of the goroutine of one url.\<close>

definition fan_finish :: "go_error \<Rightarrow> nat \<Rightarrow> string \<Rightarrow> string result \<Rightarrow> fan \<Rightarrow> fan" where
  "fan_finish notFound n url r s =
     (if val_of r \<noteq> [] \<or> err_of r = Some notFound \<or> completeCount s = n
      then if \<not> got s then s\<lparr>got := True, fastURL := url, resErr := err_of r, data_chan := [val_of r]\<rparr> else s
      else s)"

text \<open>
  One step, where it is enabled. The caller receives only while the value is offered, and returns once; its
  select may take the timeout at any moment. \<open>SetFast\<close> runs the oldest started setter.
\<close>

definition fan_step ::
  "go_error \<Rightarrow> go_error \<Rightarrow> (string \<Rightarrow> string result) \<Rightarrow> string list \<Rightarrow> fan_event \<Rightarrow> fan \<Rightarrow> fan option" where
  "fan_step notFound timeoutErr answer urls ev s = (case ev of
     Finish i \<Rightarrow>
       if i \<in> set (pending s)
       then Some (fan_finish notFound (length urls) (urls ! i) (answer (urls ! i)) (s\<lparr>pending := remove1 i (pending s)\<rparr>))
       else None
   | Receive \<Rightarrow>
       (case (returned s, data_chan s) of
          (None, v # _) \<Rightarrow> Some (s\<lparr>data_chan := [], returned := Some (v, resErr s),
             setters := (if v \<noteq> [] \<or> resErr s = Some notFound then setters s @ [fastURL s] else setters s)\<rparr>)
        | _ \<Rightarrow> None)
   | Timeout \<Rightarrow>
       if returned s = None then Some (s\<lparr>returned := Some ([], Some timeoutErr), setters := setters s @ [[]]\<rparr>) else None
   | SetFast \<Rightarrow>
       (case setters s of [] \<Rightarrow> None | u # us \<Rightarrow> Some (s\<lparr>setters := us, fastDB := u\<rparr>)))"

inductive fan_reach ::
  "go_error \<Rightarrow> go_error \<Rightarrow> (string \<Rightarrow> string result) \<Rightarrow> string list \<Rightarrow> string \<Rightarrow> fan \<Rightarrow> bool"
  for notFound timeoutErr answer urls fast where
  start: "fan_reach notFound timeoutErr answer urls fast (fan_init urls fast)"
| step: "fan_reach notFound timeoutErr answer urls fast s \<Longrightarrow>
    fan_step notFound timeoutErr answer urls ev s = Some s' \<Longrightarrow>
    fan_reach notFound timeoutErr answer urls fast s'"

text \<open>What the caller can return.\<close>

definition fan_returns ::
  "go_error \<Rightarrow> go_error \<Rightarrow> (string \<Rightarrow> string result) \<Rightarrow> string list \<Rightarrow> string \<Rightarrow> (string \<times> error) set" where
  "fan_returns notFound timeoutErr answer urls fast =
     {r. \<exists>s. fan_reach notFound timeoutErr answer urls fast s \<and> returned s = Some r}"

section \<open>Invariants\<close>

text \<open>A url that answers: with a value, or with the not-found error.\<close>

definition answers :: "go_error \<Rightarrow> (string \<Rightarrow> string result) \<Rightarrow> string \<Rightarrow> bool" where
  "answers notFound answer u \<longleftrightarrow> val_of (answer u) \<noteq> [] \<or> answer u = Err notFound"

definition reply :: "(string \<Rightarrow> string result) \<Rightarrow> string \<Rightarrow> string \<times> error" where
  "reply answer u = (val_of (answer u), err_of (answer u))"

definition winners :: "go_error \<Rightarrow> (string \<Rightarrow> string result) \<Rightarrow> string list \<Rightarrow> string set" where
  "winners notFound answer urls = {u \<in> set urls. answers notFound answer u}"

definition inv_count :: "string list \<Rightarrow> fan \<Rightarrow> bool" where
  "inv_count urls s \<longleftrightarrow> completeCount s = 0 \<and> set (pending s) \<subseteq> {..<length urls}"

definition inv_win :: "string set \<Rightarrow> (string \<Rightarrow> string result) \<Rightarrow> fan \<Rightarrow> bool" where
  "inv_win W answer s \<longleftrightarrow> (got s \<longrightarrow> fastURL s \<in> W \<and> resErr s = err_of (answer (fastURL s)))"

definition inv_chan :: "(string \<Rightarrow> string result) \<Rightarrow> fan \<Rightarrow> bool" where
  "inv_chan answer s \<longleftrightarrow> (data_chan s = [] \<or> got s \<and> data_chan s = [val_of (answer (fastURL s))]) \<and>
     (got s \<and> returned s = None \<longrightarrow> data_chan s \<noteq> [])"

definition inv_idle :: "string set \<Rightarrow> string list \<Rightarrow> fan \<Rightarrow> bool" where
  "inv_idle W urls s \<longleftrightarrow> got s \<or> (\<forall>i<length urls. i \<in> set (pending s) \<or> urls ! i \<notin> W)"

definition inv_ret :: "string set \<Rightarrow> go_error \<Rightarrow> (string \<Rightarrow> string result) \<Rightarrow> fan \<Rightarrow> bool" where
  "inv_ret W timeoutErr answer s \<longleftrightarrow> returned s \<in> {None, Some ([], Some timeoutErr)} \<union> Some ` reply answer ` W"

definition inv_fast :: "string set \<Rightarrow> string \<Rightarrow> fan \<Rightarrow> bool" where
  "inv_fast W fast s \<longleftrightarrow> set (setters s) \<subseteq> insert [] W \<and> fastDB s \<in> insert fast (insert [] W)"

definition fan_inv :: "string set \<Rightarrow> go_error \<Rightarrow> (string \<Rightarrow> string result) \<Rightarrow> string list \<Rightarrow> string \<Rightarrow> fan \<Rightarrow> bool" where
  "fan_inv W timeoutErr answer urls fast s \<longleftrightarrow> inv_count urls s \<and> inv_win W answer s \<and> inv_chan answer s \<and>
     inv_idle W urls s \<and> inv_ret W timeoutErr answer s \<and> inv_fast W fast s"

lemmas inv_defs = inv_count_def inv_win_def inv_chan_def inv_idle_def inv_ret_def inv_fast_def

lemma err_of_Some: "err_of r = Some e \<longleftrightarrow> r = Err e"
  by (cases r) auto

lemma fan_inv_init: "fan_inv W t answer urls fast (fan_init urls fast)"
  by (auto simp: fan_inv_def inv_defs fan_init_def)

lemma fan_finish_eq:
  assumes "inv_count urls s" and "urls \<noteq> []"
  shows "fan_finish nf (length urls) u (answer u) s =
    (if answers nf answer u \<and> \<not> got s
     then s\<lparr>got := True, fastURL := u, resErr := err_of (answer u), data_chan := [val_of (answer u)]\<rparr> else s)"
  using assms by (auto simp: fan_finish_def inv_count_def answers_def err_of_Some)

lemma inv_count_remove: "inv_count urls s \<Longrightarrow> inv_count urls (s\<lparr>pending := remove1 i (pending s)\<rparr>)"
  using set_remove1_subset by (fastforce simp: inv_count_def)

lemma fan_inv_finish:
  assumes "fan_inv W t answer urls fast s" and "W = winners nf answer urls" and "i \<in> set (pending s)"
  shows "fan_inv W t answer urls fast
    (fan_finish nf (length urls) (urls ! i) (answer (urls ! i)) (s\<lparr>pending := remove1 i (pending s)\<rparr>))"
proof -
  let ?s = "s\<lparr>pending := remove1 i (pending s)\<rparr>"
  have i: "i < length urls" using assms(1,3) by (auto simp: fan_inv_def inv_count_def)
  then have ne: "urls \<noteq> []" by auto
  from i have W: "answers nf answer (urls ! i) \<longleftrightarrow> urls ! i \<in> W" using assms(2) by (simp add: winners_def)
  have count: "inv_count urls ?s" using assms(1) by (simp add: fan_inv_def inv_count_remove)
  have idle: "inv_idle W urls ?s" if "got s \<or> urls ! i \<notin> W"
    using assms(1) that unfolding fan_inv_def inv_idle_def by auto (metis in_set_remove1)
  show ?thesis
    unfolding fan_finish_eq [OF count ne] W
    using assms(1) count idle by (auto simp: fan_inv_def inv_defs)
qed

lemma fan_inv_receive:
  assumes "fan_inv W t answer urls fast s" and "fan_step nf t answer urls Receive s = Some s'"
  shows "fan_inv W t answer urls fast s'"
proof -
  obtain v vs where v: "returned s = None" "data_chan s = v # vs"
    using assms(2) by (auto simp: fan_step_def split: option.splits list.splits)
  then have s: "got s" "v = val_of (answer (fastURL s))" "fastURL s \<in> W" "resErr s = err_of (answer (fastURL s))"
    using assms(1) by (auto simp: fan_inv_def inv_defs)
  then have "s' = s\<lparr>data_chan := [], returned := Some (reply answer (fastURL s)),
      setters := setters s' \<rparr>" "set (setters s') \<subseteq> insert (fastURL s) (set (setters s))"
    using assms(2) v by (auto simp: fan_step_def reply_def split: if_splits)
  then show ?thesis
    using assms(1) s(3) by (cases s') (auto simp: fan_inv_def inv_defs)
qed

lemma fan_inv_step:
  assumes "fan_inv W t answer urls fast s" and "fan_step nf t answer urls ev s = Some s'"
    and "W = winners nf answer urls"
  shows "fan_inv W t answer urls fast s'"
proof (cases ev)
  case (Finish i)
  with assms fan_inv_finish show ?thesis by (auto simp: fan_step_def split: if_splits)
next
  case Receive
  with assms fan_inv_receive show ?thesis by blast
next
  case Timeout
  with assms(1,2) show ?thesis by (auto simp: fan_step_def fan_inv_def inv_defs split: if_splits)
next
  case SetFast
  then obtain u us where "setters s = u # us" "s' = s\<lparr>setters := us, fastDB := u\<rparr>"
    using assms(2) by (auto simp: fan_step_def split: list.splits)
  with assms(1) show ?thesis by (auto simp: fan_inv_def inv_defs)
qed

lemma fan_reach_inv:
  "fan_reach nf t answer urls fast s \<Longrightarrow> fan_inv (winners nf answer urls) t answer urls fast s"
  by (induction rule: fan_reach.induct) (auto simp: fan_inv_init intro: fan_inv_step)

section \<open>What the fan-out returns\<close>

lemma fan_returns_timeout: "([], Some t) \<in> fan_returns nf t answer urls fast"
proof -
  let ?s = "fan_init urls fast"
  have "fan_step nf t answer urls Timeout ?s = Some (?s\<lparr>returned := Some ([], Some t), setters := [[]]\<rparr>)"
    by (simp add: fan_step_def fan_init_def)
  from fan_reach.step [OF fan_reach.start this] show ?thesis
    unfolding fan_returns_def by (auto intro!: exI)
qed

lemma fan_returns_winner:
  assumes "u \<in> winners nf answer urls"
  shows "reply answer u \<in> fan_returns nf t answer urls fast"
proof -
  obtain i where i: "i < length urls" "u = urls ! i" "answers nf answer u"
    using assms by (auto simp: winners_def in_set_conv_nth)
  let ?s = "fan_init urls fast"
  let ?s1 = "?s\<lparr>pending := remove1 i (pending ?s)\<rparr>"
  let ?s2 = "?s1\<lparr>got := True, fastURL := u, resErr := err_of (answer u), data_chan := [val_of (answer u)]\<rparr>"
  have "inv_count urls ?s1" using fan_inv_init by (intro inv_count_remove) (simp add: fan_inv_def)
  from fan_finish_eq [OF this, of nf u answer] i have "fan_finish nf (length urls) u (answer u) ?s1 = ?s2"
    by (cases urls) (auto simp: fan_init_def)
  then have "fan_step nf t answer urls (Finish i) ?s = Some ?s2"
    using i by (simp add: fan_step_def fan_init_def)
  with fan_reach.start have r2: "fan_reach nf t answer urls fast ?s2" by (rule fan_reach.step)
  obtain s3 where s3: "fan_step nf t answer urls Receive ?s2 = Some s3" "returned s3 = Some (reply answer u)"
    by (simp add: fan_step_def fan_init_def reply_def)
  from fan_reach.step [OF r2 s3(1)] s3(2) show ?thesis unfolding fan_returns_def by blast
qed

lemma fan_returns_eq:
  "fan_returns nf t answer urls fast = insert ([], Some t) (reply answer ` winners nf answer urls)"
proof (intro set_eqI iffI)
  fix r assume "r \<in> fan_returns nf t answer urls fast"
  then obtain s where "fan_reach nf t answer urls fast s" "returned s = Some r" by (auto simp: fan_returns_def)
  then show "r \<in> insert ([], Some t) (reply answer ` winners nf answer urls)"
    using fan_reach_inv [of nf t answer urls fast s] by (auto simp: fan_inv_def inv_ret_def)
qed (auto simp: fan_returns_timeout fan_returns_winner)

text \<open>What the callers of a fan-out rely on.\<close>

locale read_fan_out =
  fixes results :: "(string \<times> error) set"
    and urls :: "string list"
    and answer :: "string \<Rightarrow> string result"
    and notFound :: go_error
    and timeoutErr :: go_error
  assumes results_eq: "results = insert ([], Some timeoutErr) (reply answer ` winners notFound answer urls)"
    and errors_differ: "notFound \<noteq> timeoutErr"
begin

lemma value_from_server:
  assumes "(v, None) \<in> results"
  shows "v \<noteq> [] \<and> (\<exists>u\<in>set urls. answer u = Ok v)"
proof -
  obtain u where u: "u \<in> winners notFound answer urls" "(v, None) = reply answer u"
    using assms by (auto simp: results_eq)
  then obtain w where "answer u = Ok w" by (cases "answer u") (auto simp: reply_def)
  with u show ?thesis by (auto simp: reply_def val_of_def winners_def answers_def)
qed

lemma not_found_from_server: "(v, Some notFound) \<in> results \<Longrightarrow> v = [] \<and> (\<exists>u\<in>set urls. answer u = Err notFound)"
  using errors_differ by (auto simp: results_eq reply_def winners_def err_of_Some [symmetric] val_of_def split: sum.splits)

lemma no_answer_times_out:
  "(\<forall>u\<in>set urls. \<not> answers notFound answer u) \<Longrightarrow> results = {([], Some timeoutErr)}"
  by (auto simp: results_eq winners_def)

lemma error_kinds: "(v, Some e) \<in> results \<Longrightarrow> e = timeoutErr \<or> e = notFound"
  by (auto simp: results_eq reply_def winners_def answers_def val_of_def split: sum.splits)

end

lemma fan_reach_returns: "\<exists>s. fan_reach nf t answer urls fast s \<and> returned s \<noteq> None"
  using fan_returns_timeout [of t nf answer urls fast] by (auto simp: fan_returns_def)

section \<open>The fan-out ends\<close>

text \<open>What is left to do: a step for every request, and those of the caller and of its setters.\<close>

definition fan_weight :: "fan \<Rightarrow> nat" where
  "fan_weight s = length (pending s) + (if returned s = None then 2 else 0) + length (setters s)"

lemma fan_finish_weight [simp]: "fan_weight (fan_finish nf n u r s) = fan_weight s"
  by (simp add: fan_finish_def fan_weight_def)

interpretation fan_machine: finite_machine "fan_step nf t answer urls" "\<lambda>_. True" fan_weight for nf t answer urls
proof
  fix ev s s'
  assume st: "fan_step nf t answer urls ev s = Some s'"
  show "fan_weight s' < fan_weight s"
  proof (cases ev)
    case (Finish i)
    with st length_remove1_Suc [of i "pending s"] show ?thesis
      by (auto simp: fan_step_def fan_weight_def [of "_\<lparr>pending := _\<rparr>"] fan_weight_def [of s] split: if_splits)
  qed (use st in \<open>auto simp: fan_step_def fan_weight_def split: option.splits list.splits if_splits\<close>)
qed simp

lemma run_reach: "run (fan_step nf t answer urls) evs (fan_init urls fast) = Some s \<Longrightarrow> fan_reach nf t answer urls fast s"
  by (erule run_invariant) (auto intro: fan_reach.intros)

text \<open>A value that is offered is taken by the caller, or stays on the channel once the caller has timed out.\<close>

definition leak_inv :: "string set \<Rightarrow> go_error \<Rightarrow> (string \<Rightarrow> string result) \<Rightarrow> fan \<Rightarrow> bool" where
  "leak_inv W timeoutErr answer s \<longleftrightarrow>
     (if got s \<and> data_chan s = [] then returned s \<in> Some ` reply answer ` W
      else returned s \<in> {None, Some ([], Some timeoutErr)}) \<and> (data_chan s \<noteq> [] \<longrightarrow> got s)"

lemma leak_inv_step:
  assumes "leak_inv W t answer s" and "inv_win W answer s" and "inv_chan answer s"
    and "fan_step nf t answer urls ev s = Some s'"
  shows "leak_inv W t answer s'"
proof (cases ev)
  case (Finish i)
  with assms(1,4) show ?thesis by (auto simp: fan_step_def fan_finish_def leak_inv_def split: if_splits)
next
  case Receive
  obtain v vs where v: "returned s = None" "data_chan s = v # vs"
    using assms(4) Receive by (auto simp: fan_step_def split: option.splits list.splits)
  then have "got s" "v = val_of (answer (fastURL s))" "resErr s = err_of (answer (fastURL s))" "fastURL s \<in> W"
    using assms(2,3) by (auto simp: inv_win_def inv_chan_def)
  with v assms(4) Receive show ?thesis by (auto simp: fan_step_def leak_inv_def reply_def)
next
  case Timeout
  with assms(1,4) show ?thesis by (auto simp: fan_step_def leak_inv_def split: if_splits)
next
  case SetFast
  with assms(1,4) show ?thesis by (auto simp: fan_step_def leak_inv_def split: list.splits)
qed

lemma leak_inv_reach: "fan_reach nf t answer urls fast s \<Longrightarrow> leak_inv (winners nf answer urls) t answer s"
proof (induction rule: fan_reach.induct)
  case start
  show ?case by (simp add: leak_inv_def fan_init_def)
next
  case (step s ev s')
  then show ?case using leak_inv_step fan_reach_inv [OF step.hyps(1)] unfolding fan_inv_def by metis
qed

lemma fan_stuck: "stuck (fan_step nf t answer urls) s \<Longrightarrow> pending s = [] \<and> setters s = [] \<and> returned s \<noteq> None"
  using stuckD [of "fan_step nf t answer urls" s "Finish (hd (pending s))"] stuckD [of "fan_step nf t answer urls" s SetFast]
    stuckD [of "fan_step nf t answer urls" s Timeout]
  by (cases "pending s"; cases "setters s") (auto simp: fan_step_def split: if_splits)

section \<open>Properties\<close>

text \<open>
  C28: the read fan-out ends. A schedule of the goroutines of tryAllDBFind over n databases has at most n + 2
  steps and can always be carried on to its end. At the end every request goroutine has ended, the caller
  has returned and the fast database has been set; only the goroutine that offers the value is
  left over, for ever, exactly when an answer arrived but the caller had already timed out.
\<close>

theorem fan_out_ends:
  assumes "run (fan_step notFound timeoutErr answer urls) evs (fan_init urls fast) = Some s" and "notFound \<noteq> timeoutErr"
  shows "length evs \<le> length urls + 2
    \<and> (\<exists>evs' s'. run (fan_step notFound timeoutErr answer urls) evs' s = Some s' \<and> stuck (fan_step notFound timeoutErr answer urls) s')
    \<and> (stuck (fan_step notFound timeoutErr answer urls) s \<longrightarrow> pending s = [] \<and> setters s = [] \<and> returned s \<noteq> None
        \<and> (data_chan s \<noteq> [] \<longleftrightarrow> got s \<and> returned s = Some ([], Some timeoutErr)))"
proof -
  have len: "length evs \<le> length urls + 2"
    using fan_machine.run_length [OF assms(1) TrueI] by (simp add: fan_weight_def fan_init_def)
  have "leak_inv (winners notFound answer urls) timeoutErr answer s" by (rule leak_inv_reach [OF run_reach [OF assms(1)]])
  moreover have "Some ([], Some timeoutErr) \<notin> Some ` reply answer ` winners notFound answer urls"
    using assms(2) by (auto simp: reply_def winners_def answers_def err_of_Some eq_commute [of "Some timeoutErr"])
  ultimately have "returned s \<noteq> None \<Longrightarrow> data_chan s \<noteq> [] \<longleftrightarrow> got s \<and> returned s = Some ([], Some timeoutErr)"
    unfolding leak_inv_def by (auto simp del: image_iff split: if_splits)
  with len fan_machine.run_to_stuck [OF TrueI] fan_stuck [of notFound timeoutErr answer urls s] show ?thesis by blast
qed

text \<open>One database that answers after the caller has timed out: its goroutine never ends.\<close>

theorem fan_out_ends_witness:
  "\<exists>s. run (fan_step (Sentinel ''nf'') (Sentinel ''t'') (\<lambda>_. Ok ''v'') [''d:1'']) [Timeout, Finish 0, SetFast] (fan_init [''d:1''] ''d:1'') = Some s
    \<and> stuck (fan_step (Sentinel ''nf'') (Sentinel ''t'') (\<lambda>_. Ok ''v'') [''d:1'']) s
    \<and> length [Timeout, Finish 0, SetFast] \<le> length [''d:1''] + 2 \<and> data_chan s \<noteq> [] \<and> fastDB s = []"
proof -
  let ?step = "fan_step (Sentinel ''nf'') (Sentinel ''t'') (\<lambda>_. Ok ''v'') [''d:1'']"
  obtain s where s: "run ?step [Timeout, Finish 0, SetFast] (fan_init [''d:1''] ''d:1'') = Some s" "got s" "fastDB s = []"
      "returned s = Some ([], Some (Sentinel ''t''))" "pending s = []" "setters s = []"
    by (simp add: fan_step_def fan_init_def fan_finish_def val_of_def)
  have "?step ev s = None" for ev using s by (cases ev) (simp_all add: fan_step_def)
  then have "stuck ?step s" by (simp add: stuck_def)
  with fan_out_ends [OF s(1)] s show ?thesis by auto
qed

end
