(* ===== verification/SetFan.thy ===== *)
theory SetFan
  imports Prelude Machine
begin

text \<open>
  \<open>tryAllDBSet\<close> of \<open>client/kv.go\<close>: the write fan-out. One goroutine per database posts the pair. All of
  them assign their error to one variable \<open>err\<close> of the caller, outside the mutex, and read it
  again inside the critical section; the goroutine that sends the result reads it once more. The
  machine keeps these reads and writes apart, so that its interleavings are those of the code:
  \<open>SetDone\<close> is the assignment, \<open>Locked\<close> the critical section, \<open>SendEval\<close> the evaluation of \<open>err\<close>
  by the sending goroutine. \<open>outcome u\<close> is the error with which the post to \<open>u\<close> ends, or \<open>None\<close> when the post, which has no
  timeout, never ends: its goroutine then waits for ever.
\<close>

section \<open>The machine\<close>

record set_fan =
  running :: "nat list"
  assigned :: "nat list"
  shared_err :: error
  set_count :: nat
  fetched :: bool
  set_fastURL :: string
  sender :: bool
  result_chan :: "error list"
  set_returned :: "error option"
  set_setters :: "string list"
  set_fastDB :: string

definition set_init :: "string list \<Rightarrow> string \<Rightarrow> set_fan" where
  "set_init urls fast = \<lparr>running = [0..<length urls], assigned = [], shared_err = None, set_count = 0, fetched = False,
     set_fastURL = [], sender = False, result_chan = [], set_returned = None, set_setters = [], set_fastDB = fast\<rparr>"

datatype set_event = SetDone nat | Locked nat | SendEval | SetReceive | SetTimeout | RunSetter

definition set_locked :: "nat \<Rightarrow> string \<Rightarrow> set_fan \<Rightarrow> set_fan" where
  "set_locked n url s = (let s' = s\<lparr>set_count := set_count s + 1\<rparr> in
     if shared_err s' = None \<or> set_count s' \<ge> n
     then if \<not> fetched s' then s'\<lparr>fetched := True, set_fastURL := url, sender := True\<rparr> else s'
     else s')"

definition set_step :: "go_error \<Rightarrow> (string \<Rightarrow> error option) \<Rightarrow> string list \<Rightarrow> set_event \<Rightarrow> set_fan \<Rightarrow> set_fan option" where
  "set_step timeoutErr outcome urls ev s = (case ev of
     SetDone i \<Rightarrow>
       if i \<in> set (running s)
       then map_option (\<lambda>err. s\<lparr>running := remove1 i (running s), assigned := i # assigned s, shared_err := err\<rparr>) (outcome (urls ! i))
       else None
   | Locked i \<Rightarrow>
       if i \<in> set (assigned s)
       then Some (set_locked (length urls) (urls ! i) (s\<lparr>assigned := remove1 i (assigned s)\<rparr>)) else None
   | SendEval \<Rightarrow>
       if sender s then Some (s\<lparr>sender := False, result_chan := [shared_err s]\<rparr>) else None
   | SetReceive \<Rightarrow>
       (case (set_returned s, result_chan s) of
          (None, res # _) \<Rightarrow> Some (s\<lparr>result_chan := [], set_returned := Some res,
             set_setters := (if res = None then set_setters s @ [set_fastURL s] else set_setters s)\<rparr>)
        | _ \<Rightarrow> None)
   | SetTimeout \<Rightarrow>
       if set_returned s = None
       then Some (s\<lparr>set_returned := Some (Some timeoutErr), set_setters := set_setters s @ [[]]\<rparr>) else None
   | RunSetter \<Rightarrow>
       (case set_setters s of [] \<Rightarrow> None | u # us \<Rightarrow> Some (s\<lparr>set_setters := us, set_fastDB := u\<rparr>)))"

inductive set_reach :: "go_error \<Rightarrow> (string \<Rightarrow> error option) \<Rightarrow> string list \<Rightarrow> string \<Rightarrow> set_fan \<Rightarrow> bool"
  for timeoutErr outcome urls fast where
  start: "set_reach timeoutErr outcome urls fast (set_init urls fast)"
| step: "set_reach timeoutErr outcome urls fast s \<Longrightarrow> set_step timeoutErr outcome urls ev s = Some s' \<Longrightarrow>
    set_reach timeoutErr outcome urls fast s'"

definition set_returns :: "go_error \<Rightarrow> go_error \<Rightarrow> (string \<Rightarrow> error option) \<Rightarrow> string list \<Rightarrow> string \<Rightarrow> error set" where
  "set_returns noneErr timeoutErr outcome urls fast =
     (if urls = [] then {Some noneErr}
      else {e. \<exists>s. set_reach timeoutErr outcome urls fast s \<and> set_returned s = Some e})"

section \<open>Invariant\<close>

text \<open>
  Once a post has ended, the shared variable holds the outcome of one of them; the channel and the
  result hold the outcome of one of them, or the timeout.
\<close>

definition outcomes :: "(string \<Rightarrow> error option) \<Rightarrow> string list \<Rightarrow> error set" where
  "outcomes outcome urls = {e. \<exists>u\<in>set urls. outcome u = Some e}"

definition err_inv :: "(string \<Rightarrow> error option) \<Rightarrow> string list \<Rightarrow> set_fan \<Rightarrow> bool" where
  "err_inv outcome urls s \<longleftrightarrow> set (running s) \<subseteq> {..<length urls} \<and>
     (assigned s \<noteq> [] \<or> sender s \<or> 0 < set_count s \<longrightarrow> shared_err s \<in> outcomes outcome urls)"

definition res_inv :: "go_error \<Rightarrow> (string \<Rightarrow> error option) \<Rightarrow> string list \<Rightarrow> set_fan \<Rightarrow> bool" where
  "res_inv timeoutErr outcome urls s \<longleftrightarrow> set (result_chan s) \<subseteq> outcomes outcome urls \<and>
     set_returned s \<in> {None, Some (Some timeoutErr)} \<union> Some ` outcomes outcome urls"

lemma set_init_inv: "err_inv outcome urls (set_init urls fast)" "res_inv t outcome urls (set_init urls fast)"
  by (auto simp: err_inv_def res_inv_def set_init_def)

lemma set_locked_simps [simp]:
  "running (set_locked n u s) = running s" "assigned (set_locked n u s) = assigned s"
  "shared_err (set_locked n u s) = shared_err s" "result_chan (set_locked n u s) = result_chan s"
  "set_returned (set_locked n u s) = set_returned s"
  by (simp_all add: set_locked_def Let_def)

lemma set_step_err:
  assumes "err_inv outcome urls s" and "set_step t outcome urls ev s = Some s'"
  shows "err_inv outcome urls s'"
proof (cases ev)
  case (SetDone i)
  then obtain err where "i \<in> set (running s)" "outcome (urls ! i) = Some err"
      "s' = s\<lparr>running := remove1 i (running s), assigned := i # assigned s, shared_err := err\<rparr>"
    using assms(2) by (auto simp: set_step_def split: if_splits)
  moreover from this have "i < length urls" using assms(1) by (auto simp: err_inv_def)
  ultimately show ?thesis
    using assms(1) set_remove1_subset [of i "running s"] by (auto simp: err_inv_def outcomes_def)
next
  case (Locked i)
  then have "i \<in> set (assigned s)" "s' = set_locked (length urls) (urls ! i) (s\<lparr>assigned := remove1 i (assigned s)\<rparr>)"
    using assms(2) by (auto simp: set_step_def split: if_splits)
  with assms(1) show ?thesis by (auto simp: err_inv_def)
qed (use assms in \<open>auto simp: set_step_def err_inv_def split: if_splits option.splits list.splits\<close>)

lemma set_step_res:
  assumes "err_inv outcome urls s" and "res_inv t outcome urls s" and "set_step t outcome urls ev s = Some s'"
  shows "res_inv t outcome urls s'"
proof (cases ev)
  case SetReceive
  then obtain r rs where r: "result_chan s = r # rs" "result_chan s' = []" "set_returned s' = Some r"
    using assms(3) by (auto simp: set_step_def split: option.splits list.splits)
  moreover have "r \<in> outcomes outcome urls" using assms(2) r(1) by (auto simp: res_inv_def)
  ultimately show ?thesis by (simp add: res_inv_def)
qed (use assms in \<open>auto simp: set_step_def err_inv_def res_inv_def split: if_splits list.splits\<close>)

lemma set_reach_inv:
  "set_reach t outcome urls fast s \<Longrightarrow> err_inv outcome urls s \<and> res_inv t outcome urls s"
  by (induction rule: set_reach.induct) (auto simp: set_init_inv intro: set_step_err set_step_res)

lemma set_run_reach:
  "run (set_step t outcome urls) evs (set_init urls fast) = Some s \<Longrightarrow> set_reach t outcome urls fast s"
  by (erule run_invariant) (auto intro: set_reach.intros)

lemma set_returns_sub:
  "urls \<noteq> [] \<Longrightarrow> set_returns n t outcome urls fast \<subseteq> insert (Some t) (outcomes outcome urls)"
  using set_reach_inv by (fastforce simp: set_returns_def res_inv_def)

section \<open>The fan-out ends\<close>

definition set_weight :: "set_fan \<Rightarrow> nat" where
  "set_weight s = 2 * length (running s) + length (assigned s) + (if fetched s then 0 else 1) + (if sender s then 1 else 0)
     + (if set_returned s = None then 2 else 0) + length (set_setters s)"

lemma set_locked_weight: "set_weight (set_locked n u s) \<le> set_weight s"
  by (simp add: set_locked_def set_weight_def Let_def)

interpretation set_machine: finite_machine "set_step t outcome urls" "\<lambda>_. True" set_weight for t outcome urls
proof
  fix ev s s'
  assume st: "set_step t outcome urls ev s = Some s'"
  show "set_weight s' < set_weight s"
  proof (cases ev)
    case (SetDone i)
    with st length_remove1_Suc [of i "running s"] show ?thesis by (auto simp: set_step_def set_weight_def split: if_splits)
  next
    case (Locked i)
    let ?s = "s\<lparr>assigned := remove1 i (assigned s)\<rparr>"
    from Locked st have i: "i \<in> set (assigned s)" "s' = set_locked (length urls) (urls ! i) ?s"
      by (auto simp: set_step_def split: if_splits)
    then have "set_weight ?s < set_weight s" using length_remove1_Suc [OF i(1)] by (simp add: set_weight_def)
    with set_locked_weight [of "length urls" "urls ! i" ?s] i(2) show ?thesis by simp
  qed (use st in \<open>auto simp: set_step_def set_weight_def split: option.splits list.splits if_splits\<close>)
qed simp

lemma set_stuck:
  assumes "stuck (set_step t outcome urls) s"
  shows "(\<forall>i\<in>set (running s). outcome (urls ! i) = None) \<and> assigned s = [] \<and> \<not> sender s \<and> set_setters s = [] \<and> set_returned s \<noteq> None"
proof -
  note no = stuckD [OF assms]
  have "outcome (urls ! i) = None" if "i \<in> set (running s)" for i using no [of "SetDone i"] that by (simp add: set_step_def)
  moreover have "assigned s = []" using no [of "Locked (hd (assigned s))"] by (cases "assigned s") (auto simp: set_step_def)
  moreover have "\<not> sender s" using no [of SendEval] by (auto simp: set_step_def)
  moreover have "set_setters s = []" using no [of RunSetter] by (auto simp: set_step_def split: list.splits)
  moreover have "set_returned s \<noteq> None" using no [of SetTimeout] by (auto simp: set_step_def split: if_splits)
  ultimately show ?thesis by simp
qed

text \<open>The posts that never end keep their goroutines.\<close>

lemma set_hung_inv:
  assumes "run (set_step t outcome urls) evs (set_init urls fast) = Some s"
  shows "{i. i < length urls \<and> outcome (urls ! i) = None} \<subseteq> set (running s) \<and> set (running s) \<subseteq> {..<length urls}"
  using assms
proof (rule run_invariant)
  show "{i. i < length urls \<and> outcome (urls ! i) = None} \<subseteq> set (running (set_init urls fast)) \<and> set (running (set_init urls fast)) \<subseteq> {..<length urls}"
    by (auto simp: set_init_def)
next
  fix ev s s'
  assume inv: "{i. i < length urls \<and> outcome (urls ! i) = None} \<subseteq> set (running s) \<and> set (running s) \<subseteq> {..<length urls}"
    and st: "set_step t outcome urls ev s = Some s'"
  show "{i. i < length urls \<and> outcome (urls ! i) = None} \<subseteq> set (running s') \<and> set (running s') \<subseteq> {..<length urls}"
  proof (cases ev)
    case (SetDone j)
    with st have j: "running s' = remove1 j (running s)" "outcome (urls ! j) \<noteq> None" by (auto simp: set_step_def split: if_splits)
    then have "i \<in> set (running s')" if "i < length urls" and "outcome (urls ! i) = None" for i
      using inv that by (metis (mono_tags, lifting) in_set_remove1 mem_Collect_eq subsetD)
    with inv j(1) set_remove1_subset [of j "running s"] show ?thesis by auto
  next
    case (Locked j)
    with st inv show ?thesis by (auto simp: set_step_def split: if_splits)
  qed (use st inv in \<open>auto simp: set_step_def split: if_splits option.splits list.splits\<close>)
qed

lemma set_fan_ends:
  assumes "run (set_step t outcome urls) evs (set_init urls fast) = Some s"
  shows "length evs \<le> 2 * length urls + 3"
    and "\<exists>evs' s'. run (set_step t outcome urls) (evs @ evs') (set_init urls fast) = Some s' \<and> set_returned s' \<noteq> None"
proof -
  show "length evs \<le> 2 * length urls + 3"
    using set_machine.run_length [OF assms TrueI] by (simp add: set_weight_def set_init_def)
  obtain evs' s' where "run (set_step t outcome urls) evs' s = Some s'" "stuck (set_step t outcome urls) s'"
    using set_machine.run_to_stuck [OF TrueI] by blast
  with assms set_stuck [of t outcome urls s']
  have "run (set_step t outcome urls) (evs @ evs') (set_init urls fast) = Some s' \<and> set_returned s' \<noteq> None"
    by (simp add: run_append)
  then show "\<exists>evs' s'. run (set_step t outcome urls) (evs @ evs') (set_init urls fast) = Some s' \<and> set_returned s' \<noteq> None"
    by blast
qed

lemma set_reach_returns: "\<exists>s. set_reach t outcome urls fast s \<and> set_returned s \<noteq> None"
  using set_fan_ends(2) [of t outcome urls "[]" fast] set_run_reach by fastforce

section \<open>Properties\<close>

text \<open>
  A successful write was accepted. Whatever the interleaving, tryAllDBSet returns nil only if the
  post to at least one of the databases succeeded, and otherwise it returns the error of one of
  them, the timeout, or (without databases) the error that says so.
\<close>

lemma tryAllDBSet_nil_accepted:
  assumes "e \<in> set_returns noneErr timeoutErr outcome urls fast"
  shows "(e = None \<longrightarrow> (\<exists>u\<in>set urls. outcome u = Some None))
    \<and> ((\<exists>u\<in>set urls. outcome u = Some e) \<or> e = Some timeoutErr \<or> urls = [] \<and> e = Some noneErr)"
proof (cases "urls = []")
  case True
  with assms show ?thesis by (simp add: set_returns_def)
next
  case False
  with set_returns_sub [OF False] assms have "e \<in> insert (Some timeoutErr) (outcomes outcome urls)" by blast
  then show ?thesis by (auto simp: outcomes_def)
qed

abbreviation two_dbs :: "string \<Rightarrow> error option" where
  "two_dbs \<equiv> \<lambda>u. if u = ''a'' then Some None else Some (Some (Errorf ''refused''))"

lemmas run_simps = set_init_def set_step_def set_locked_def Let_def

text \<open>
  C30: the shared error variable. With two databases of which one accepts the pair and the other
  refuses it, there are interleavings in which the caller returns the refusal although the pair was
  accepted and chosen as the result, and interleavings in which it returns nil and
  makes the database that refused the pair the fast one.
\<close>

theorem tryAllDBSet_shared_err:
  assumes "a \<noteq> b" and "outcome a = Some None" and "outcome b = Some (Some e)"
  shows "(\<exists>s. set_reach timeoutErr outcome [a, b] fast s \<and> set_returned s = Some (Some e) \<and> set_fastURL s = a)
    \<and> (\<exists>s. set_reach timeoutErr outcome [a, b] fast s \<and> set_returned s = Some None \<and> set_fastDB s = b)"
proof
  obtain s where "run (set_step timeoutErr outcome [a, b]) [SetDone 0, Locked 0, SetDone 1, SendEval, SetReceive] (set_init [a, b] fast) = Some s"
      "set_returned s = Some (Some e)" "set_fastURL s = a"
    using assms by (simp add: run_simps)
  then show "\<exists>s. set_reach timeoutErr outcome [a, b] fast s \<and> set_returned s = Some (Some e) \<and> set_fastURL s = a"
    using set_run_reach by blast
  obtain s where "run (set_step timeoutErr outcome [a, b]) [SetDone 1, SetDone 0, Locked 1, SendEval, SetReceive, RunSetter] (set_init [a, b] fast) = Some s"
      "set_returned s = Some None" "set_fastDB s = b"
    using assms by (simp add: run_simps)
  then show "\<exists>s. set_reach timeoutErr outcome [a, b] fast s \<and> set_returned s = Some None \<and> set_fastDB s = b"
    using set_run_reach by blast
qed

theorem tryAllDBSet_shared_err_witness:
  "\<exists>s. set_reach (Errorf ''t'') two_dbs [''a'', ''b''] [] s \<and> set_returned s = Some None \<and> set_fastDB s = ''b''"
  using tryAllDBSet_shared_err [of "''a''" "''b''" two_dbs "Errorf ''refused''" "Errorf ''t''" "[]"] by simp

end
