(* ===== verification/CacheFan.thy ===== *)
theory CacheFan
  imports Prelude Machine
begin

text \<open>
  \<open>tryAllCaches\<close> of \<open>client/kv.go\<close>: the read fan-out over the cache nodes. It differs from the one over the
  databases: it counts the requests that have ended, so that the last one ends the wait even without
  an answer, and it looks for the fastest cache, which a goroutine waiting for \<open>completed\<close> makes
  the fast cache.

  \<open>req u\<close> is the value, duration and error with which the request to \<open>u\<close> ends. Events are the
  atomic steps of the goroutines, as in \<open>FanOut\<close>.
\<close>

section \<open>The machine\<close>

record cache_fan =
  c_pending :: "nat list"
  c_fetched :: bool
  c_count :: nat
  c_fastURL :: string
  c_min :: int
  c_completed :: bool
  c_resErr :: error
  c_data :: "string list"
  c_returned :: "(string \<times> error) option"
  c_setters :: "string list"
  c_fastCache :: string

type_synonym found = "string \<times> int \<times> error"

definition cache_init :: "int \<Rightarrow> string list \<Rightarrow> string \<Rightarrow> cache_fan" where
  "cache_init requestTimeout urls fast = \<lparr>c_pending = [0..<length urls], c_fetched = False, c_count = 0, c_fastURL = [],
     c_min = requestTimeout, c_completed = False, c_resErr = None, c_data = [], c_returned = None,
     c_setters = [], c_fastCache = fast\<rparr>"

datatype cache_event = CFinish nat | CCompleted | CReceive | CTimeout | CSetFast

definition c_fetch :: "found \<Rightarrow> cache_fan \<Rightarrow> cache_fan" where
  "c_fetch r s = (let (val, duration, err) = r in
     if \<not> c_fetched s then s\<lparr>c_fetched := True, c_resErr := err, c_data := [val]\<rparr> else s)"

definition cache_finish :: "go_error \<Rightarrow> nat \<Rightarrow> string \<Rightarrow> found \<Rightarrow> cache_fan \<Rightarrow> cache_fan" where
  "cache_finish notFound n url r s = (let (val, duration, err) = r;
     s1 = (if duration \<le> c_min s then s\<lparr>c_min := duration, c_fastURL := url\<rparr> else s);
     s2 = s1\<lparr>c_count := c_count s1 + 1\<rparr> in
     if c_count s2 = n then c_fetch r (s2\<lparr>c_completed := True\<rparr>)
     else if val \<noteq> [] \<or> err = Some notFound then c_fetch r s2
     else s2)"

definition cache_step ::
  "go_error \<Rightarrow> go_error \<Rightarrow> (string \<Rightarrow> found) \<Rightarrow> string list \<Rightarrow> cache_event \<Rightarrow> cache_fan \<Rightarrow> cache_fan option" where
  "cache_step notFound timeoutErr req urls ev s = (case ev of
     CFinish i \<Rightarrow>
       if i \<in> set (c_pending s)
       then Some (cache_finish notFound (length urls) (urls ! i) (req (urls ! i)) (s\<lparr>c_pending := remove1 i (c_pending s)\<rparr>))
       else None
   | CCompleted \<Rightarrow>
       if c_completed s
       then Some (s\<lparr>c_completed := False,
              c_setters := (if c_fastURL s \<noteq> [] then c_setters s @ [c_fastURL s] else c_setters s)\<rparr>)
       else None
   | CReceive \<Rightarrow>
       (case (c_returned s, c_data s) of
          (None, v # _) \<Rightarrow> Some (s\<lparr>c_data := [], c_returned := Some (v, c_resErr s)\<rparr>)
        | _ \<Rightarrow> None)
   | CTimeout \<Rightarrow>
       if c_returned s = None then Some (s\<lparr>c_returned := Some ([], Some timeoutErr)\<rparr>) else None
   | CSetFast \<Rightarrow>
       (case c_setters s of [] \<Rightarrow> None | u # us \<Rightarrow> Some (s\<lparr>c_setters := us, c_fastCache := u\<rparr>)))"

inductive cache_reach ::
  "go_error \<Rightarrow> go_error \<Rightarrow> int \<Rightarrow> (string \<Rightarrow> found) \<Rightarrow> string list \<Rightarrow> string \<Rightarrow> cache_fan \<Rightarrow> bool"
  for notFound timeoutErr requestTimeout req urls fast where
  start: "cache_reach notFound timeoutErr requestTimeout req urls fast (cache_init requestTimeout urls fast)"
| step: "cache_reach notFound timeoutErr requestTimeout req urls fast s \<Longrightarrow>
    cache_step notFound timeoutErr req urls ev s = Some s' \<Longrightarrow>
    cache_reach notFound timeoutErr requestTimeout req urls fast s'"

definition cache_results ::
  "go_error \<Rightarrow> go_error \<Rightarrow> go_error \<Rightarrow> int \<Rightarrow> (string \<Rightarrow> found) \<Rightarrow> string list \<Rightarrow> string \<Rightarrow> (string \<times> error) set" where
  "cache_results noneErr notFound timeoutErr requestTimeout req urls fast =
     (if urls = [] then {([], Some noneErr)}
      else {r. \<exists>s. cache_reach notFound timeoutErr requestTimeout req urls fast s \<and> c_returned s = Some r})"

section \<open>Invariants\<close>

definition fval :: "found \<Rightarrow> string" where "fval r = fst r"
definition fdur :: "found \<Rightarrow> int" where "fdur r = fst (snd r)"
definition ferr :: "found \<Rightarrow> error" where "ferr r = snd (snd r)"

definition c_answers :: "go_error \<Rightarrow> (string \<Rightarrow> found) \<Rightarrow> string \<Rightarrow> bool" where
  "c_answers notFound req u \<longleftrightarrow> fval (req u) \<noteq> [] \<or> ferr (req u) = Some notFound"

text \<open>The urls whose reply may be returned: those that answer, and any one when none does.\<close>

definition c_eligible :: "go_error \<Rightarrow> (string \<Rightarrow> found) \<Rightarrow> string list \<Rightarrow> string set" where
  "c_eligible notFound req urls =
     {u \<in> set urls. c_answers notFound req u \<or> (\<forall>w\<in>set urls. \<not> c_answers notFound req w)}"

definition c_best :: "(string \<Rightarrow> found) \<Rightarrow> string list \<Rightarrow> string set" where
  "c_best req urls = {u \<in> set urls. \<forall>w\<in>set urls. fdur (req u) \<le> fdur (req w)}"

definition ci_pend :: "string list \<Rightarrow> cache_fan \<Rightarrow> bool" where
  "ci_pend urls s \<longleftrightarrow> set (c_pending s) \<subseteq> {..<length urls} \<and> distinct (c_pending s) \<and>
     c_count s + length (c_pending s) = length urls"

definition ci_idle :: "go_error \<Rightarrow> (string \<Rightarrow> found) \<Rightarrow> string list \<Rightarrow> cache_fan \<Rightarrow> bool" where
  "ci_idle notFound req urls s \<longleftrightarrow> c_fetched s \<or>
     (\<forall>i<length urls. i \<in> set (c_pending s) \<or> \<not> c_answers notFound req (urls ! i))"

definition ci_res :: "string set \<Rightarrow> (string \<Rightarrow> found) \<Rightarrow> cache_fan \<Rightarrow> bool" where
  "ci_res E req s \<longleftrightarrow> (if c_fetched s
     then \<exists>u\<in>E. c_resErr s = ferr (req u) \<and> (c_data s = [] \<or> c_data s = [fval (req u)]) else c_data s = [])"

definition ci_ret :: "string set \<Rightarrow> go_error \<Rightarrow> (string \<Rightarrow> found) \<Rightarrow> cache_fan \<Rightarrow> bool" where
  "ci_ret E timeoutErr req s \<longleftrightarrow>
     c_returned s \<in> {None, Some ([], Some timeoutErr)} \<union> (\<lambda>u. Some (fval (req u), ferr (req u))) ` E"

definition ci_min :: "(string \<Rightarrow> found) \<Rightarrow> string list \<Rightarrow> cache_fan \<Rightarrow> bool" where
  "ci_min req urls s \<longleftrightarrow> (\<forall>i<length urls. i \<in> set (c_pending s) \<or> c_min s \<le> fdur (req (urls ! i))) \<and>
     (c_fastURL s = [] \<or> c_fastURL s \<in> set urls \<and> fdur (req (c_fastURL s)) = c_min s)"

definition ci_fast :: "string set \<Rightarrow> string \<Rightarrow> cache_fan \<Rightarrow> bool" where
  "ci_fast B fast s \<longleftrightarrow> (c_completed s \<longrightarrow> c_pending s = []) \<and> set (c_setters s) \<subseteq> B \<and> c_fastCache s \<in> insert fast B"

lemma c_fetch_simps [simp]:
  "c_pending (c_fetch r s) = c_pending s" "c_count (c_fetch r s) = c_count s" "c_fastURL (c_fetch r s) = c_fastURL s"
  "c_min (c_fetch r s) = c_min s" "c_completed (c_fetch r s) = c_completed s" "c_returned (c_fetch r s) = c_returned s"
  "c_setters (c_fetch r s) = c_setters s" "c_fastCache (c_fetch r s) = c_fastCache s" "c_fetched (c_fetch r s)"
  by (simp_all add: c_fetch_def split: prod.split)

lemma cache_finish_simps:
  "c_pending (cache_finish nf n u r s) = c_pending s" "c_count (cache_finish nf n u r s) = Suc (c_count s)"
  "c_returned (cache_finish nf n u r s) = c_returned s" "c_setters (cache_finish nf n u r s) = c_setters s"
  "c_fastCache (cache_finish nf n u r s) = c_fastCache s"
  "c_min (cache_finish nf n u r s) = min (fdur r) (c_min s)"
  "c_fastURL (cache_finish nf n u r s) = (if fdur r \<le> c_min s then u else c_fastURL s)"
  "c_completed (cache_finish nf n u r s) \<longleftrightarrow> c_completed s \<or> Suc (c_count s) = n"
  by (auto simp: cache_finish_def Let_def fdur_def min_def split: prod.split)

lemma cache_finish_fetch:
  "c_fetched (cache_finish nf n u r s) \<longleftrightarrow> c_fetched s \<or> Suc (c_count s) = n \<or> fval r \<noteq> [] \<or> ferr r = Some nf"
  "c_fetched s \<Longrightarrow> c_resErr (cache_finish nf n u r s) = c_resErr s \<and> c_data (cache_finish nf n u r s) = c_data s"
  "\<not> c_fetched s \<Longrightarrow> c_fetched (cache_finish nf n u r s) \<Longrightarrow>
    c_resErr (cache_finish nf n u r s) = ferr r \<and> c_data (cache_finish nf n u r s) = [fval r]"
  "\<not> c_fetched (cache_finish nf n u r s) \<Longrightarrow> c_data (cache_finish nf n u r s) = c_data s"
  by (auto simp: cache_finish_def Let_def c_fetch_def fval_def ferr_def split: prod.splits if_splits)

definition cache_inv :: "go_error \<Rightarrow> go_error \<Rightarrow> (string \<Rightarrow> found) \<Rightarrow> string list \<Rightarrow> string \<Rightarrow> cache_fan \<Rightarrow> bool" where
  "cache_inv notFound timeoutErr req urls fast s \<longleftrightarrow> ci_pend urls s \<and> ci_idle notFound req urls s \<and>
     ci_res (c_eligible notFound req urls) req s \<and> ci_ret (c_eligible notFound req urls) timeoutErr req s \<and>
     ci_min req urls s \<and> ci_fast (c_best req urls) fast s"

lemma cache_inv_init: "cache_inv nf t req urls fast (cache_init rt urls fast)"
  by (simp add: cache_inv_def ci_pend_def ci_idle_def ci_res_def ci_ret_def ci_min_def ci_fast_def cache_init_def
      lessThan_atLeast0)

lemma ci_pend_remove:
  assumes "ci_pend urls s" and "i \<in> set (c_pending s)"
  shows "i < length urls" and "length (c_pending s) = Suc (length (remove1 i (c_pending s)))"
    and "set (remove1 i (c_pending s)) = set (c_pending s) - {i}"
proof -
  show "i < length urls" "set (remove1 i (c_pending s)) = set (c_pending s) - {i}"
    using assms by (auto simp: ci_pend_def)
  have "0 < length (c_pending s)" using assms(2) by (rule length_pos_if_in_set)
  with assms(2) show "length (c_pending s) = Suc (length (remove1 i (c_pending s)))" by (simp add: length_remove1)
qed

lemma cache_inv_finish:
  assumes "cache_inv nf t req urls fast s" and "i \<in> set (c_pending s)"
  shows "cache_inv nf t req urls fast
    (cache_finish nf (length urls) (urls ! i) (req (urls ! i)) (s\<lparr>c_pending := remove1 i (c_pending s)\<rparr>))"
proof -
  let ?u = "urls ! i" and ?s = "s\<lparr>c_pending := remove1 i (c_pending s)\<rparr>"
  let ?f = "cache_finish nf (length urls) ?u (req ?u) ?s"
  have inv: "ci_pend urls s" "ci_idle nf req urls s" "ci_res (c_eligible nf req urls) req s"
    "ci_ret (c_eligible nf req urls) t req s" "ci_min req urls s" "ci_fast (c_best req urls) fast s"
    using assms(1) by (simp_all add: cache_inv_def)
  note rm = ci_pend_remove [OF inv(1) assms(2)]
  have u: "?u \<in> set urls" using rm(1) by simp
  have last: "Suc (c_count s) = length urls \<longleftrightarrow> remove1 i (c_pending s) = []"
    using inv(1) rm(2) unfolding ci_pend_def length_0_conv [symmetric] by linarith
  have pend: "ci_pend urls ?f"
    using inv(1) rm by (auto simp: ci_pend_def cache_finish_simps)
  have ans: "c_answers nf req ?u \<longleftrightarrow> fval (req ?u) \<noteq> [] \<or> ferr (req ?u) = Some nf" by (simp add: c_answers_def)
  have idle: "ci_idle nf req urls ?f"
    using inv(2) rm(3) ans unfolding ci_idle_def cache_finish_fetch(1) cache_finish_simps(1) by auto
  have elig: "?u \<in> c_eligible nf req urls" if "\<not> c_fetched s" "c_answers nf req ?u \<or> remove1 i (c_pending s) = []"
  proof (cases "c_answers nf req ?u")
    case False
    with that have p: "set (c_pending s) = {i}" using rm(3) assms(2) by auto
    have "\<not> c_answers nf req w" if w: "w \<in> set urls" for w
    proof -
      obtain j where j: "j < length urls" "w = urls ! j" using w by (auto simp: in_set_conv_nth)
      with inv(2) \<open>\<not> c_fetched s\<close> p False show ?thesis by (cases "j = i") (auto simp: ci_idle_def)
    qed
    with u show ?thesis by (simp add: c_eligible_def)
  qed (use u in \<open>simp add: c_eligible_def\<close>)
  have res: "ci_res (c_eligible nf req urls) req ?f"
    using inv(3) elig ans last cache_finish_fetch [where nf = nf and n = "length urls" and u = ?u and r = "req ?u" and s = ?s]
    by (cases "c_fetched s"; cases "c_fetched ?f") (auto simp: ci_res_def)
  have min: "ci_min req urls ?f"
    using inv(5) rm u by (auto simp: ci_min_def cache_finish_simps)
  have "ci_fast (c_best req urls) fast ?f"
    using inv(6) last assms(2) by (auto simp: ci_fast_def cache_finish_simps)
  moreover have "ci_ret (c_eligible nf req urls) t req ?f" using inv(4) by (simp add: ci_ret_def cache_finish_simps)
  ultimately show ?thesis using pend idle res min by (simp add: cache_inv_def)
qed

lemma cache_inv_completed:
  assumes "cache_inv nf t req urls fast s" and "c_completed s"
  shows "cache_inv nf t req urls fast (s\<lparr>c_completed := False,
    c_setters := (if c_fastURL s \<noteq> [] then c_setters s @ [c_fastURL s] else c_setters s)\<rparr>)"
proof -
  have p: "c_pending s = []" using assms by (simp add: cache_inv_def ci_fast_def)
  have "c_fastURL s \<in> c_best req urls" if "c_fastURL s \<noteq> []"
  proof -
    have "\<forall>i<length urls. c_min s \<le> fdur (req (urls ! i))" "c_fastURL s \<in> set urls" "fdur (req (c_fastURL s)) = c_min s"
      using assms(1) p that by (auto simp: cache_inv_def ci_min_def)
    then show ?thesis by (auto simp: c_best_def in_set_conv_nth)
  qed
  with assms(1) show ?thesis
    by (simp add: cache_inv_def ci_pend_def ci_idle_def ci_res_def ci_ret_def ci_min_def ci_fast_def)
qed

lemma cache_inv_step:
  assumes "cache_inv nf t req urls fast s" and "cache_step nf t req urls ev s = Some s'"
  shows "cache_inv nf t req urls fast s'"
proof (cases ev)
  case (CFinish i)
  with assms cache_inv_finish show ?thesis by (auto simp: cache_step_def split: if_splits)
next
  case CCompleted
  then have "c_completed s" "s' = s\<lparr>c_completed := False,
      c_setters := (if c_fastURL s \<noteq> [] then c_setters s @ [c_fastURL s] else c_setters s)\<rparr>"
    using assms(2) by (simp_all add: cache_step_def split: if_split_asm)
  with cache_inv_completed [OF assms(1)] show ?thesis by blast
next
  case CReceive
  then obtain v vs where v: "c_data s = v # vs" "s' = s\<lparr>c_data := [], c_returned := Some (v, c_resErr s)\<rparr>"
    using assms(2) by (auto simp: cache_step_def split: option.splits list.splits)
  moreover have "c_fetched s" using v(1) assms(1) by (auto simp: cache_inv_def ci_res_def split: if_splits)
  then obtain u where "u \<in> c_eligible nf req urls" "c_resErr s = ferr (req u)" "v = fval (req u)"
    using assms(1) v(1) by (auto simp: cache_inv_def ci_res_def)
  ultimately show ?thesis
    using assms(1) by (auto simp: cache_inv_def ci_pend_def ci_idle_def ci_res_def ci_ret_def ci_min_def ci_fast_def)
next
  case CTimeout
  then have "s' = s\<lparr>c_returned := Some ([], Some t)\<rparr>"
    using assms(2) by (simp add: cache_step_def split: if_split_asm)
  with assms(1) show ?thesis
    by (simp add: cache_inv_def ci_pend_def ci_idle_def ci_res_def ci_ret_def ci_min_def ci_fast_def)
next
  case CSetFast
  then obtain u us where "c_setters s = u # us" "s' = s\<lparr>c_setters := us, c_fastCache := u\<rparr>"
    using assms(2) by (auto simp: cache_step_def split: list.splits)
  with assms(1) show ?thesis
    by (simp add: cache_inv_def ci_pend_def ci_idle_def ci_res_def ci_ret_def ci_min_def ci_fast_def)
qed

lemma cache_reach_inv: "cache_reach nf t rt req urls fast s \<Longrightarrow> cache_inv nf t req urls fast s"
  by (induction rule: cache_reach.induct) (auto simp: cache_inv_init intro: cache_inv_step)

section \<open>The fan-out ends\<close>

definition cache_weight :: "cache_fan \<Rightarrow> nat" where
  "cache_weight s = length (c_pending s) + (if c_pending s \<noteq> [] \<or> c_completed s then 2 else 0)
     + (if c_returned s = None then 1 else 0) + length (c_setters s)"

interpretation cache_machine: finite_machine "cache_step nf t req urls" "cache_inv nf t req urls fast" cache_weight
  for nf t req urls fast
proof
  fix ev s s'
  assume inv: "cache_inv nf t req urls fast s" and st: "cache_step nf t req urls ev s = Some s'"
  then show "cache_inv nf t req urls fast s'" by (rule cache_inv_step)
  show "cache_weight s' < cache_weight s"
  proof (cases ev)
    case (CFinish i)
    with st length_remove1_Suc [of i "c_pending s"] show ?thesis
      by (auto simp: cache_step_def cache_weight_def cache_finish_simps split: if_splits)
  next
    case CCompleted
    moreover have "c_completed s \<Longrightarrow> c_pending s = []" using inv by (simp add: cache_inv_def ci_fast_def)
    ultimately show ?thesis using st by (auto simp: cache_step_def cache_weight_def split: if_splits)
  qed (use st in \<open>auto simp: cache_step_def cache_weight_def split: option.splits list.splits if_splits\<close>)
qed

lemma cache_stuck:
  assumes "stuck (cache_step nf t req urls) s"
  shows "c_pending s = [] \<and> \<not> c_completed s \<and> c_setters s = [] \<and> c_returned s \<noteq> None"
proof -
  note no = stuckD [OF assms]
  have "c_pending s = []" using no [of "CFinish (hd (c_pending s))"] by (cases "c_pending s") (auto simp: cache_step_def)
  moreover have "\<not> c_completed s" using no [of CCompleted] by (auto simp: cache_step_def)
  moreover have "c_setters s = []" using no [of CSetFast] by (auto simp: cache_step_def split: list.splits)
  moreover have "c_returned s \<noteq> None" using no [of CTimeout] by (auto simp: cache_step_def split: if_splits)
  ultimately show ?thesis by simp
qed

lemma cache_fan_ends:
  assumes "run (cache_step nf t req urls) evs (cache_init rt urls fast) = Some s" and "urls \<noteq> []"
  shows "length evs \<le> length urls + 3"
    and "\<exists>evs' s'. run (cache_step nf t req urls) (evs @ evs') (cache_init rt urls fast) = Some s' \<and> c_returned s' \<noteq> None"
proof -
  note inv = cache_inv_init [of nf t req urls fast rt]
  show "length evs \<le> length urls + 3"
    using cache_machine.run_length [OF assms(1) inv] assms(2) by (simp add: cache_weight_def cache_init_def)
  obtain evs' s' where "run (cache_step nf t req urls) evs' s = Some s'" "stuck (cache_step nf t req urls) s'"
    using cache_machine.run_to_stuck [OF cache_machine.run_inv [OF assms(1) inv]] by blast
  with assms(1) cache_stuck [of nf t req urls s']
  have "run (cache_step nf t req urls) (evs @ evs') (cache_init rt urls fast) = Some s' \<and> c_returned s' \<noteq> None"
    by (simp add: run_append)
  then show "\<exists>evs' s'. run (cache_step nf t req urls) (evs @ evs') (cache_init rt urls fast) = Some s' \<and> c_returned s' \<noteq> None"
    by blast
qed

lemma cache_run_reach:
  "run (cache_step nf t req urls) evs (cache_init rt urls fast) = Some s \<Longrightarrow> cache_reach nf t rt req urls fast s"
  by (erule run_invariant) (auto intro: cache_reach.intros)

lemma cache_reach_returns: "urls \<noteq> [] \<Longrightarrow> \<exists>s. cache_reach nf t rt req urls fast s \<and> c_returned s \<noteq> None"
  using cache_fan_ends(2) [of nf t req urls "[]" rt fast] cache_run_reach by fastforce

section \<open>Properties\<close>

lemma cache_results_sub:
  assumes "(v, e) \<in> cache_results n nf t rt req urls fast" and "urls \<noteq> []"
  shows "(v, e) = ([], Some t) \<or> (\<exists>u\<in>c_eligible nf req urls. (v, e) = (fval (req u), ferr (req u)))"
proof -
  obtain s where "cache_reach nf t rt req urls fast s" "c_returned s = Some (v, e)"
    using assms by (auto simp: cache_results_def)
  then show ?thesis using cache_reach_inv by (fastforce simp: cache_inv_def ci_ret_def)
qed

text \<open>
  C31: what the caches can make the client return. In every interleaving tryAllCaches returns the timeout,
  or the reply of a cache that answered with a value or with not-found; the error of a failing
  cache is returned only when none of the caches answers.
\<close>

theorem tryAllCaches_result:
  assumes "(v, e) \<in> cache_results noneErr nf timeoutErr rt req urls fast" and "urls \<noteq> []"
  shows "(v, e) = ([], Some timeoutErr) \<or> (\<exists>u\<in>set urls. (v, e) = (fval (req u), ferr (req u)) \<and>
    (c_answers nf req u \<or> (\<forall>w\<in>set urls. \<not> c_answers nf req w)))"
  using cache_results_sub [OF assms] by (auto simp: c_eligible_def)

abbreviation two_caches :: "string \<Rightarrow> found" where
  "two_caches \<equiv> \<lambda>u. if u = ''a'' then (''v'', 20, None) else ([], 100, Some (Errorf ''refused''))"

lemmas cache_run_simps = cache_init_def cache_step_def cache_finish_def c_fetch_def

theorem tryAllCaches_result_witness:
  "(''v'', None) \<in> cache_results (Errorf ''n'') (Sentinel ''nf'') (Sentinel ''t'') 100 two_caches [''a'', ''b''] []
    \<and> c_answers (Sentinel ''nf'') two_caches ''a''"
proof -
  obtain s where s: "run (cache_step (Sentinel ''nf'') (Sentinel ''t'') two_caches [''a'', ''b'']) [CFinish 1, CFinish 0, CReceive]
      (cache_init 100 [''a'', ''b''] []) = Some s" "c_returned s = Some (''v'', None)"
    by (simp add: cache_run_simps)
  from cache_run_reach [OF s(1)] s(2)
  have r: "(''v'', None) \<in> cache_results (Errorf ''n'') (Sentinel ''nf'') (Sentinel ''t'') 100 two_caches [''a'', ''b''] []"
    by (auto simp: cache_results_def)
  with tryAllCaches_result [OF r] show ?thesis by (auto simp: c_answers_def fval_def)
qed

text \<open>
  The fast cache. In every interleaving the fast cache is the one it was before or a cache whose
  request took no longer than that of any other. A failing request counts as requestTimeout, so
  that when all caches fail a failing one is made the fast cache.
\<close>

lemma tryAllCaches_fastest:
  assumes "cache_reach nf timeoutErr rt req urls fast s"
  shows "c_fastCache s = fast \<or>
    c_fastCache s \<in> set urls \<and> (\<forall>w\<in>set urls. fdur (req (c_fastCache s)) \<le> fdur (req w))"
  using cache_reach_inv [OF assms] by (auto simp: cache_inv_def ci_fast_def c_best_def)

lemma tryAllCaches_fastest_witness:
  "\<exists>s. cache_reach (Sentinel ''nf'') (Sentinel ''t'') 100 (\<lambda>_. ([], 100, Some (Errorf ''refused''))) [''a'', ''b''] [] s
    \<and> c_fastCache s = ''b'' \<and> fdur ([], 100, Some (Errorf ''refused'')) = 100"
proof -
  let ?req = "\<lambda>_. ([], 100, Some (Errorf ''refused''))"
  obtain s where s: "run (cache_step (Sentinel ''nf'') (Sentinel ''t'') ?req [''a'', ''b'']) [CFinish 0, CFinish 1, CCompleted, CSetFast]
      (cache_init 100 [''a'', ''b''] []) = Some s" "c_fastCache s = ''b''"
    by (simp add: cache_run_simps)
  note r = cache_run_reach [OF s(1)]
  from tryAllCaches_fastest [OF r] r s(2) show ?thesis by (auto simp: fdur_def)
qed

end
