(* ===== verification/Client.thy ===== *)
theory Client
  imports Service FanOut SetFan CacheFan
begin

text \<open>
  \<open>client/client.go\<close> and \<open>client/kv.go\<close>: the client library. \<open>client\<close> is the state shared by the calls (the known
  databases and caches, and the fast one of each), \<open>kv_Get\<close> and \<open>kv_Put\<close> are the two operations.

  The network is a parameter: \<open>net url\<close> and \<open>post url body\<close> are the duration after which the request
  ends, in nanoseconds, and its result, and \<open>post url body = None\<close> is a post that never ends; the body of an answer is read to its end. \<open>find\<close> waits for a timeout of its own; a response that
  comes at the very moment of the timeout is taken. The fan-outs are the machines of \<open>FanOut\<close>,
  \<open>SetFan\<close> and \<open>CacheFan\<close>: an operation that runs one has a set of possible outcomes, each with the client as
  it is at some moment after the return (goroutines that set a fast server may still run).
\<close>

section \<open>The shared client\<close>

record client =
  cli_dbs :: "string list"
  cli_caches :: "string list"
  cli_fastCache :: string
  cli_fastDB :: string

definition client_update :: "string list result \<Rightarrow> string list result \<Rightarrow> client \<Rightarrow> error \<times> client" where
  "client_update dbCluster cacheCluster c = (case dbCluster of
     Inl err \<Rightarrow> (Some err, c)
   | Inr ds \<Rightarrow> (case cacheCluster of
       Inl err \<Rightarrow> (Some err, c)
     | Inr cs \<Rightarrow>
         if cli_dbs c = sort ds \<and> cli_caches c = sort cs then (None, c)
         else (None, c\<lparr>cli_dbs := sort ds, cli_caches := sort cs\<rparr>)))"

definition newClient :: "string list result \<Rightarrow> string list result \<Rightarrow> client result" where
  "newClient dbCluster cacheCluster =
     (case client_update dbCluster cacheCluster \<lparr>cli_dbs = [], cli_caches = [], cli_fastCache = [], cli_fastDB = []\<rparr> of
        (Some err, _) \<Rightarrow> Err err | (None, cli) \<Rightarrow> Ok cli)"

text \<open>The first ticks of \<open>refresh\<close>, each with what the two masters return; an error is only logged.\<close>

fun refresh :: "(string list result \<times> string list result) list \<Rightarrow> client \<Rightarrow> client" where
  "refresh [] c = c"
| "refresh ((dbCluster, cacheCluster) # ticks) c = refresh ticks (snd (client_update dbCluster cacheCluster c))"

definition setFastCache :: "string \<Rightarrow> client \<Rightarrow> client" where
  "setFastCache cacheURL c = c\<lparr>cli_fastCache := cacheURL\<rparr>"

definition setFastDB :: "string \<Rightarrow> client \<Rightarrow> client" where
  "setFastDB dbURL c = c\<lparr>cli_fastDB := dbURL\<rparr>"

section \<open>Single requests\<close>

definition requestTimeout :: int where
  "requestTimeout = HTTPRequestTimeout Config"

definition idealResponseDuration :: int where
  "idealResponseDuration = IdealResponseDuration Config"

definition kv_ErrDataNotFound :: go_error where
  "kv_ErrDataNotFound = Sentinel ''client: data not found''"

definition ErrTimeout :: go_error where
  "ErrTimeout = Sentinel ''client: timeout''"

type_synonym network = "string \<Rightarrow> int \<times> http_response result"
type_synonym post_network = "string \<Rightarrow> string \<Rightarrow> (int \<times> http_response result) option"

text \<open>
  The doubles of \<open>utils/mock/http.go\<close> that the tests of the client use: they ignore the request and answer
  after the delay, with 200 and the given body, or with the error.
\<close>

definition MakeHTTPGetter :: "string \<Rightarrow> error \<Rightarrow> int \<Rightarrow> network" where
  "MakeHTTPGetter response err delay = (\<lambda>url. (delay, case err of None \<Rightarrow> Ok \<lparr>StatusCode = StatusOK_http, Body = Ok response\<rparr> | Some e \<Rightarrow> Err e))"

definition MakeHTTPPoster :: "string \<Rightarrow> error \<Rightarrow> int \<Rightarrow> post_network" where
  "MakeHTTPPoster response err delay =
     (\<lambda>url body. Some (delay, case err of None \<Rightarrow> Ok \<lparr>StatusCode = StatusOK_http, Body = Ok response\<rparr> | Some e \<Rightarrow> Err e))"

definition kvParams :: "(string \<times> field_kind) list" where
  "kvParams = [(''key'', FString), (''value'', FString), (''code'', FInt), (''message'', FString)]"

text \<open>\<open>json.Marshal\<close> of a \<open>kvParams\<close> with key and value: empty fields are left out.\<close>

definition kv_body :: "string \<Rightarrow> string \<Rightarrow> string" where
  "kv_body key value = print_json (json_of_fields (omit_empty [(''key'', key), (''value'', value)]))"

definition parseData :: "string result \<Rightarrow> string \<Rightarrow> string result" where
  "parseData readCloser key = (case readCloser of
     Inl err \<Rightarrow> Err err
   | Inr b \<Rightarrow> (case bind_result (bind_struct kvParams) (json_Unmarshal b) of
       Inl err \<Rightarrow> Err err
     | Inr param \<Rightarrow>
         if string_field param ''key'' \<noteq> key
         then Err (Errorf (''client: wrong response for key='' @ [CHR 0x27] @ key @ [CHR 0x27, CHR 0x0A]))
         else if string_field param ''value'' = []
         then Err (Errorf (''client: empty value response for key = '' @ [CHR 0x27] @ key @ [CHR 0x27, CHR 0x0A]))
         else Ok (string_field param ''value'')))"

definition kv_find :: "network \<Rightarrow> string \<Rightarrow> string \<Rightarrow> int \<Rightarrow> string \<times> int \<times> error" where
  "kv_find net key url timeout = (let (d, r) = net (MakeURL url @ ''/key/'' @ key) in
     if d > timeout then ([], requestTimeout, Some ErrTimeout)
     else case r of
       Inl err \<Rightarrow> ([], requestTimeout, Some err)
     | Inr res \<Rightarrow>
         if StatusCode res = StatusNotFound then ([], d, Some kv_ErrDataNotFound)
         else if StatusCode res = StatusOK_http then
           (case parseData (Body res) key of
              Inr val \<Rightarrow> (val, d, None) | Inl err \<Rightarrow> ([], requestTimeout, Some err))
         else ([], requestTimeout, Some ErrTimeout))"

text \<open>\<open>set\<close> has no timeout: it returns when the post does, or never (\<open>None\<close>).\<close>

definition kv_set :: "post_network \<Rightarrow> string \<Rightarrow> string \<Rightarrow> string \<Rightarrow> (int \<times> error) option" where
  "kv_set post key value url = (case post (MakeURL url @ ''/key'') (kv_body key value) of
     None \<Rightarrow> None
   | Some (d, r) \<Rightarrow> Some (case r of
       Inl err \<Rightarrow> (requestTimeout, Some err)
     | Inr res \<Rightarrow>
         if StatusCode res \<noteq> StatusOK_http
         then (requestTimeout, Some (Errorf (''client: failed to set kv(url: '' @ url @ ''), key: '' @ key @ '', value: '' @ value @ [CHR 0x0A])))
         else (d, None)))"

text \<open>\<open>NewKV\<close>: the options are stored, and read by nobody.\<close>

record Option =
  RequestTimeout :: int
  opt_IdealResponseDuration :: int

record KV =
  kv_cli :: client
  kv_option :: Option

definition NewKV :: "string list result \<Rightarrow> string list result \<Rightarrow> Option option \<Rightarrow> KV result" where
  "NewKV dbCluster cacheCluster opt = (case newClient dbCluster cacheCluster of
     Inl err \<Rightarrow> Err err
   | Inr cli \<Rightarrow> Ok \<lparr>kv_cli = cli, kv_option = (case opt of
         None \<Rightarrow> \<lparr>RequestTimeout = requestTimeout, opt_IdealResponseDuration = idealResponseDuration\<rparr> | Some op \<Rightarrow> op)\<rparr>)"

definition DefaultKV :: "string list result \<Rightarrow> string list result \<Rightarrow> KV result" where
  "DefaultKV dbCluster cacheCluster = NewKV dbCluster cacheCluster None"

section \<open>Fan-outs\<close>

definition kv_answer :: "network \<Rightarrow> string \<Rightarrow> string \<Rightarrow> string result" where
  "kv_answer net key url = (case kv_find net key url requestTimeout of
     (val, _, None) \<Rightarrow> Ok val | (_, _, Some err) \<Rightarrow> Err err)"

definition tryAllDBFind :: "network \<Rightarrow> string \<Rightarrow> client \<Rightarrow> (string \<times> error \<times> client) set" where
  "tryAllDBFind net key c =
     (if cli_dbs c = [] then {([], Some (Errorf (''client: databases are not available'' @ [CHR 0x0A])), c)}
      else {(v, e, setFastDB (fastDB s) c) | v e s.
        fan_reach kv_ErrDataNotFound ErrTimeout (kv_answer net key) (cli_dbs c) (cli_fastDB c) s \<and> returned s = Some (v, e)})"

definition tryAllDBSet :: "post_network \<Rightarrow> string \<Rightarrow> string \<Rightarrow> client \<Rightarrow> (error \<times> client) set" where
  "tryAllDBSet post key value c =
     (if cli_dbs c = [] then {(Some (Errorf ''client: db unavailable''), c)}
      else {(e, setFastDB (set_fastDB s) c) | e s.
        set_reach ErrTimeout (\<lambda>u. map_option snd (kv_set post key value u)) (cli_dbs c) (cli_fastDB c) s \<and> set_returned s = Some e})"

definition tryAllCaches :: "network \<Rightarrow> string \<Rightarrow> client \<Rightarrow> (string \<times> error \<times> client) set" where
  "tryAllCaches net key c =
     (if cli_caches c = [] then {([], Some (Errorf ''client: caches are unavailable ''), c)}
      else {(v, e, setFastCache (c_fastCache s) c) | v e s.
        cache_reach kv_ErrDataNotFound ErrTimeout requestTimeout (\<lambda>u. kv_find net key u requestTimeout)
          (cli_caches c) (cli_fastCache c) s \<and> c_returned s = Some (v, e)})"

section \<open>Operations\<close>

definition kv_cache :: "network \<Rightarrow> string \<Rightarrow> client \<Rightarrow> (string \<times> error \<times> client) set" where
  "kv_cache net key c =
     (if cli_fastCache c = [] then tryAllCaches net key c
      else case kv_find net key (cli_fastCache c) idealResponseDuration of
        (val, _, None) \<Rightarrow> {(val, None, c)}
      | (_, _, Some err) \<Rightarrow>
          if err = kv_ErrDataNotFound then {([], Some err, c)} else tryAllCaches net key c)"

text \<open>A fast database that was slow is forgotten by a goroutine, which may not have run yet.\<close>

definition forget_slow :: "int \<Rightarrow> client \<Rightarrow> client set" where
  "forget_slow duration c = (if duration > idealResponseDuration then {c, setFastDB [] c} else {c})"

definition kv_get :: "network \<Rightarrow> string \<Rightarrow> client \<Rightarrow> (string \<times> error \<times> client) set" where
  "kv_get net key c =
     (if cli_fastDB c = [] then tryAllDBFind net key c
      else case kv_find net key (cli_fastDB c) requestTimeout of
        (val, duration, None) \<Rightarrow> {(val, None, c') | c'. c' \<in> forget_slow duration c}
      | (_, _, Some err) \<Rightarrow>
          if err = kv_ErrDataNotFound then {([], Some err, c)} else tryAllDBFind net key c)"

definition kv_Get :: "network \<Rightarrow> string \<Rightarrow> client \<Rightarrow> (string \<times> error \<times> client) set" where
  "kv_Get net key c = (\<Union>(val, err, c1)\<in>kv_cache net key c.
     case err of
       None \<Rightarrow> {(val, None, c1)}
     | Some e \<Rightarrow>
         if e = kv_ErrDataNotFound then {([], Some e, c1)}
         else (\<Union>(val', err', c2)\<in>kv_get net key c1.
           case err' of None \<Rightarrow> {(val', None, c2)} | Some e' \<Rightarrow> {([], Some e', c2)}))"

text \<open>No outcome (the empty set) is a call that never returns.\<close>

definition kv_Put :: "post_network \<Rightarrow> string \<Rightarrow> string \<Rightarrow> client \<Rightarrow> (error \<times> client) set" where
  "kv_Put post key value c =
     (if cli_fastDB c = [] then tryAllDBSet post key value c
      else case kv_set post key value (cli_fastDB c) of
        None \<Rightarrow> {}
      | Some (duration, None) \<Rightarrow> {(None, c') | c'. c' \<in> forget_slow duration c}
      | Some (_, Some err) \<Rightarrow> tryAllDBSet post key value c)"

section \<open>Lemmas\<close>

lemma kv_errors [simp]:
  "kv_ErrDataNotFound \<noteq> ErrTimeout" "ErrTimeout \<noteq> kv_ErrDataNotFound"
  "kv_ErrDataNotFound \<noteq> Errorf x" "Errorf x \<noteq> kv_ErrDataNotFound"
  by (simp_all add: kv_ErrDataNotFound_def ErrTimeout_def)

interpretation client_fan: read_fan_out
  "fan_returns kv_ErrDataNotFound ErrTimeout (kv_answer net key) urls fast" urls
  "kv_answer net key" kv_ErrDataNotFound ErrTimeout for net key urls fast
  by unfold_locales (simp_all add: fan_returns_eq)

lemma parseData_value: "parseData b key = Ok v \<Longrightarrow> v \<noteq> []"
  by (auto simp: parseData_def split: sum.splits if_splits)

text \<open>The reply of a server from which a value may be taken.\<close>

definition served :: "network \<Rightarrow> string \<Rightarrow> string \<Rightarrow> string \<Rightarrow> bool" where
  "served net key u v \<longleftrightarrow> (\<exists>d res. net (MakeURL u @ ''/key/'' @ key) = (d, Ok res) \<and> d \<le> requestTimeout \<and>
     StatusCode res = 200 \<and> parseData (Body res) key = Ok v)"

lemma ideal_le_request: "idealResponseDuration \<le> requestTimeout"
  by (simp add: idealResponseDuration_def requestTimeout_def Config_def)

lemma kv_find_value:
  "kv_find net key u t = (v, d, None) \<Longrightarrow> t \<le> requestTimeout \<Longrightarrow> served net key u v"
  by (auto simp: kv_find_def served_def Let_def split: prod.splits if_splits sum.splits)

lemma kv_answer_value: "kv_answer net key u = Ok v \<Longrightarrow> served net key u v"
  using kv_find_value [of net key u requestTimeout] by (auto simp: kv_answer_def split: prod.splits option.splits)

lemma tryAllDBFind_value: "(v, None, c') \<in> tryAllDBFind net key c \<Longrightarrow> \<exists>u\<in>set (cli_dbs c). served net key u v"
  using client_fan.value_from_server [of v net key "cli_dbs c" "cli_fastDB c"] kv_answer_value
  by (fastforce simp: tryAllDBFind_def fan_returns_def split: if_splits)

lemma kv_find_no_error: "kv_find net key u t = (v, d, None) \<Longrightarrow> v \<noteq> []"
  by (auto simp: kv_find_def Let_def dest: parseData_value split: prod.splits if_splits sum.splits)

lemma tryAllCaches_value:
  assumes "(v, None, c') \<in> tryAllCaches net key c"
  shows "\<exists>u\<in>set (cli_caches c). served net key u v"
proof -
  let ?req = "\<lambda>u. kv_find net key u requestTimeout"
  from assms have "cli_caches c \<noteq> []"
      "(v, None) \<in> cache_results (Errorf []) kv_ErrDataNotFound ErrTimeout requestTimeout ?req (cli_caches c) (cli_fastCache c)"
    by (auto simp: tryAllCaches_def cache_results_def split: if_splits)
  from cache_results_sub [OF this(2,1)] obtain u where u: "u \<in> set (cli_caches c)" "v = fval (?req u)" "ferr (?req u) = None"
    by (auto simp: c_eligible_def)
  then have "?req u = (v, fdur (?req u), None)" by (simp add: fval_def fdur_def ferr_def prod_eq_iff)
  with u(1) kv_find_value show ?thesis by blast
qed

lemma tryAllCaches_keeps: "(v, e, c') \<in> tryAllCaches net key c \<Longrightarrow> cli_dbs c' = cli_dbs c \<and> cli_fastDB c' = cli_fastDB c"
  by (auto simp: tryAllCaches_def setFastCache_def split: if_splits)

lemma kv_cache_keeps: "(v, e, c') \<in> kv_cache net key c \<Longrightarrow> cli_dbs c' = cli_dbs c \<and> cli_fastDB c' = cli_fastDB c"
  by (auto simp: kv_cache_def dest: tryAllCaches_keeps split: prod.splits option.splits if_splits)

lemma kv_cache_value:
  "(v, None, c') \<in> kv_cache net key c \<Longrightarrow> \<exists>u\<in>insert (cli_fastCache c) (set (cli_caches c)). served net key u v"
  using tryAllCaches_value [of v c' net key c] kv_find_value [OF _ ideal_le_request]
  by (fastforce simp: kv_cache_def split: prod.splits option.splits if_splits)

lemma kv_get_value:
  "(v, None, c') \<in> kv_get net key c \<Longrightarrow> \<exists>u\<in>insert (cli_fastDB c) (set (cli_dbs c)). served net key u v"
  using tryAllDBFind_value [of v c' net key c] kv_find_value [OF _ order_refl]
  by (fastforce simp: kv_get_def split: prod.splits option.splits if_splits)

lemma tryAllDBSet_nil: "(None, c') \<in> tryAllDBSet post key value c \<Longrightarrow> \<exists>u\<in>set (cli_dbs c). \<exists>d. kv_set post key value u = Some (d, None)"
proof -
  assume a: "(None, c') \<in> tryAllDBSet post key value c"
  then have ne: "cli_dbs c \<noteq> []" by (auto simp: tryAllDBSet_def)
  with a have "None \<in> set_returns (Errorf []) ErrTimeout (\<lambda>u. map_option snd (kv_set post key value u)) (cli_dbs c) (cli_fastDB c)"
    by (auto simp: tryAllDBSet_def set_returns_def)
  then have "None \<in> insert (Some ErrTimeout) (outcomes (\<lambda>u. map_option snd (kv_set post key value u)) (cli_dbs c))"
    by (rule subsetD [OF set_returns_sub [OF ne]])
  then show ?thesis by (auto simp: outcomes_def)
qed

lemma kv_set_nil: "kv_set post key value u = Some (d, None) \<longleftrightarrow>
    (\<exists>res. post (MakeURL u @ ''/key'') (kv_body key value) = Some (d, Ok res) \<and> StatusCode res = 200)"
  by (auto simp: kv_set_def split: option.split prod.split sum.split)


lemma client_update_result:
  "client_update db ca c = (case (db, ca) of
     (Inr ds, Inr cs) \<Rightarrow> (None, c\<lparr>cli_dbs := sort ds, cli_caches := sort cs\<rparr>)
   | (Inl e, _) \<Rightarrow> (Some e, c) | (_, Inl e) \<Rightarrow> (Some e, c))"
  by (cases c) (auto simp: client_update_def split: sum.split)

text \<open>The ticks in which both lists could be read.\<close>

definition read_ticks :: "(string list result \<times> string list result) list \<Rightarrow> (string list \<times> string list) list" where
  "read_ticks ticks = [(projr db, projr ca). (db, ca) \<leftarrow> ticks, \<not> isl db \<and> \<not> isl ca]"

lemma read_ticks_simps [simp]:
  "read_ticks [] = []"
  "read_ticks ((db, ca) # ticks) = (if \<not> isl db \<and> \<not> isl ca then (projr db, projr ca) # read_ticks ticks else read_ticks ticks)"
  by (simp_all add: read_ticks_def)

lemma refresh_eq: "refresh ticks c = (case rev (read_ticks ticks) of
    [] \<Rightarrow> c | (ds, cs) # _ \<Rightarrow> c\<lparr>cli_dbs := sort ds, cli_caches := sort cs\<rparr>)"
proof (induction ticks c rule: refresh.induct)
  case (2 db ca ticks c)
  then show ?case
    by (cases db; cases ca; cases "rev (read_ticks ticks)") (auto simp: client_update_result split: list.splits)
qed simp





lemma kv_set_double: "kv_set (MakeHTTPPoster r err d) k v u = Some (case err of None \<Rightarrow> (d, None) | Some e \<Rightarrow> (requestTimeout, Some e))"
  by (simp add: kv_set_def MakeHTTPPoster_def split: option.split)

lemma kv_find_double: "kv_find (MakeHTTPGetter r None d) k u t =
    (if d > t then ([], requestTimeout, Some ErrTimeout)
     else case parseData (Ok r) k of Inl e \<Rightarrow> ([], requestTimeout, Some e) | Inr v \<Rightarrow> (v, d, None))"
  by (simp add: kv_find_def MakeHTTPGetter_def split: sum.split)

lemma kv_Get_value:
  assumes "(v, None, c') \<in> kv_Get net key c"
  shows "\<exists>u\<in>{cli_fastCache c, cli_fastDB c} \<union> set (cli_caches c) \<union> set (cli_dbs c). served net key u v"
proof -
  let ?S = "{cli_fastCache c, cli_fastDB c} \<union> set (cli_caches c) \<union> set (cli_dbs c)"
  from assms obtain w err c1 where w: "(w, err, c1) \<in> kv_cache net key c"
      "(v, None, c') \<in> (case err of None \<Rightarrow> {(w, None, c1)}
         | Some e \<Rightarrow> if e = kv_ErrDataNotFound then {([], Some e, c1)}
             else (\<Union>(val', err', c2)\<in>kv_get net key c1.
               case err' of None \<Rightarrow> {(val', None, c2)} | Some e' \<Rightarrow> {([], Some e', c2)}))"
    unfolding kv_Get_def by blast
  show ?thesis
  proof (cases err)
    case None
    with w have "(v, None, c1) \<in> kv_cache net key c" by simp
    from kv_cache_value [OF this] show ?thesis by blast
  next
    case (Some e)
    with w(2) have "(v, None, c') \<in> kv_get net key c1" by (auto split: if_splits option.splits)
    from kv_get_value [OF this] kv_cache_keeps [OF w(1)] show ?thesis by auto
  qed
qed

section \<open>Properties\<close>

text \<open>
  A value the client returns was served. In every interleaving, Get returns a value without an error
  only if it is not empty and a cache or database that the client knows (or has as its fast
  one) answered GET /key/<key> with 200 and a body whose key is the key asked for and
  whose value is that value.
\<close>

lemma kv_Get_served:
  assumes "(v, None, c') \<in> kv_Get net key c"
  shows "v \<noteq> [] \<and> (\<exists>u\<in>{cli_fastCache c, cli_fastDB c} \<union> set (cli_caches c) \<union> set (cli_dbs c). served net key u v)"
  using kv_Get_value [OF assms] parseData_value by (fastforce simp: served_def)

text \<open>A network in which the cache at c:1 serves the key k, for the witness.\<close>

abbreviation one_cache :: network where
  "one_cache \<equiv> \<lambda>u. (1, if u = ''http://c:1/key/k'' then Ok \<lparr>StatusCode = 200, Body = Ok (print_json (json_of_kvResp ''k'' ''v''))\<rparr>
     else Err (Errorf ''refused''))"

lemma parseData_kvResp:
  assumes "valid_utf8 key" and "valid_utf8 value"
  shows "parseData (Ok (print_json (json_of_kvResp key value))) key =
    (if value = [] then Err (Errorf (''client: empty value response for key = '' @ [CHR 0x27] @ key @ [CHR 0x27, CHR 0x0A])) else Ok value)"
proof -
  have "wf_json (json_of_kvResp key value)" using assms by (simp add: json_of_kvResp_def)
  then have "json_Unmarshal (print_json (json_of_kvResp key value)) = Ok (json_of_kvResp key value)" by (rule json_Unmarshal_print)
  then show ?thesis by (simp add: parseData_def json_of_kvResp_def kvParams_def find_field_def string_field_def)
qed

lemma kv_Get_served_witness:
  "(''v'', None, \<lparr>cli_dbs = [], cli_caches = [], cli_fastCache = ''c:1'', cli_fastDB = []\<rparr>)
     \<in> kv_Get one_cache ''k'' \<lparr>cli_dbs = [], cli_caches = [], cli_fastCache = ''c:1'', cli_fastDB = []\<rparr>
   \<and> (\<exists>u\<in>{''c:1'', []}. served one_cache ''k'' u ''v'')"
proof -
  let ?c = "\<lparr>cli_dbs = [], cli_caches = [], cli_fastCache = ''c:1'', cli_fastDB = []\<rparr>"
  have "MakeURL ''c:1'' = ''http://c:1''" by (simp add: MakeURL_def HasPrefix_def TrimSuffix_def)
  then have "kv_find one_cache ''k'' ''c:1'' idealResponseDuration = (''v'', 1, None)"
    by (simp add: kv_find_def parseData_kvResp idealResponseDuration_def Config_def)
  then have g: "(''v'', None, ?c) \<in> kv_Get one_cache ''k'' ?c"
    by (simp add: kv_Get_def kv_cache_def)
  from kv_Get_served [OF g] g show ?thesis by auto
qed

text \<open>
  A write the client reports as done was accepted. In every interleaving, Put returns nil only if
  the fast database or one of the known databases answered the POST of the pair with status 200.
\<close>

lemma kv_Put_accepted:
  assumes "(None, c') \<in> kv_Put post key value c"
  shows "\<exists>u\<in>insert (cli_fastDB c) (set (cli_dbs c)). \<exists>d res.
    post (MakeURL u @ ''/key'') (kv_body key value) = Some (d, Ok res) \<and> StatusCode res = 200"
proof -
  have "\<exists>u\<in>insert (cli_fastDB c) (set (cli_dbs c)). \<exists>d. kv_set post key value u = Some (d, None)"
    using assms by (auto simp: kv_Put_def dest!: tryAllDBSet_nil split: if_splits prod.splits option.splits)
  then show ?thesis unfolding kv_set_nil by blast
qed

lemma kv_Put_accepted_witness:
  "\<exists>u\<in>{''d:1''}. \<exists>d res. (\<lambda>u b. Some (1, Ok \<lparr>StatusCode = 200, Body = Ok []\<rparr>)) (MakeURL u @ ''/key'') (kv_body ''k'' ''v'') = Some (d, Ok res)"
proof -
  let ?post = "\<lambda>u b. Some (1, Ok \<lparr>StatusCode = 200, Body = Ok []\<rparr>)"
  let ?c = "\<lparr>cli_dbs = [], cli_caches = [], cli_fastCache = [], cli_fastDB = ''d:1''\<rparr>"
  have "(None, ?c) \<in> kv_Put ?post ''k'' ''v'' ?c"
    by (simp add: kv_Put_def kv_set_def forget_slow_def)
  from kv_Put_accepted [OF this] show ?thesis by simp
qed





text \<open>
  C29: the client follows the cluster. After any sequence of refreshes, of which some fail, the client knows
  the databases and caches of the last refresh in which both lists could be read, sorted, or those it
  had when there was none. Its fast servers are as before, even if they are no longer published.
\<close>

theorem refresh_follows_cluster:
  "cli_fastDB (refresh ticks c) = cli_fastDB c \<and> cli_fastCache (refresh ticks c) = cli_fastCache c
   \<and> (cli_dbs (refresh ticks c), cli_caches (refresh ticks c)) =
       (if read_ticks ticks = [] then (cli_dbs c, cli_caches c)
        else (sort (fst (last (read_ticks ticks))), sort (snd (last (read_ticks ticks)))))"
  unfolding refresh_eq by (cases "read_ticks ticks" rule: rev_cases) (auto split: prod.splits)

end
