(* ===== verification/CacheMaster.thy ===== *)
theory CacheMaster
  imports DbMaster
begin

text \<open>
  \<open>cache/master/master.go\<close>: the master of the cache nodes. It keeps a map from the HTTP address to
  the groupcache address of every node, in memory and, as JSON, in the meta store, and the list of
  databases. The state is the record \<open>cache_master\<close>; the meta store is threaded beside it.

  A heartbeat starts one goroutine per node; each one synchronises the databases, posts the lists to
  its node and removes it on an error. \<open>heartbeat_node\<close> is such a goroutine, and \<open>cm_heartbeat\<close> runs
  them in the order given: no two of them work on the same node, and the result is shown not
  to depend on the order.

  The map is never nil in a master that \<open>New\<close> made from what \<open>updateNodesMap\<close> wrote, and the list of
  databases sent to a node has just been fetched, so that nil and empty need not be told apart.
\<close>

section \<open>Model\<close>

definition cacheNodesKey :: string where
  "cacheNodesKey = CacheNodesKey Config"

type_synonym nodesMap = "string gomap"

definition httpAddrs :: "nodesMap \<Rightarrow> string list" where
  "httpAddrs p = sort (map_keys p)"

definition nodeAddrs :: "nodesMap \<Rightarrow> string list" where
  "nodeAddrs p = sort (map snd p)"

record PeerParam =
  param_Peers :: "string list"
  param_DBs :: "string list"

definition json_of_PeerParam :: "PeerParam \<Rightarrow> json" where
  "json_of_PeerParam p = JObj [(''peers'', json_of_strings (param_Peers p)), (''dbs'', json_of_strings (param_DBs p))]"

record JoinParam =
  HTTPAddr :: string
  NodeAddr :: string

record cache_master =
  nodesMap :: nodesMap
  cm_dbs :: "string list"
  cm_addr :: string

definition fetchNodesMap :: "'m Meta \<Rightarrow> 'm \<Rightarrow> nodesMap result" where
  "fetchNodesMap M m = (case meta_Get M m cacheNodesKey of
     Inl err \<Rightarrow> if err = ErrDataNotFound then Ok [] else unmarshal_map []
   | Inr val \<Rightarrow> unmarshal_map val)"

definition updateNodesMap :: "'m Meta \<Rightarrow> 'm \<Rightarrow> nodesMap \<Rightarrow> error \<times> 'm" where
  "updateNodesMap M m peers = meta_Put M m cacheNodesKey (marshal_map peers)"

text \<open>\<open>New\<close> panics when the stored map cannot be read.\<close>

definition cm_New :: "'m Meta \<Rightarrow> 'm \<Rightarrow> string \<Rightarrow> cache_master result" where
  "cm_New M m a = (case fetchNodesMap M m of
     Inl err \<Rightarrow> Err (GoPanic (err_text err))
   | Inr nm \<Rightarrow> Ok \<lparr>nodesMap = nm, cm_dbs = [], cm_addr = a\<rparr>)"

definition cm_Peers :: "'m Meta \<Rightarrow> 'm \<Rightarrow> string list result" where
  "cm_Peers M m = (case fetchNodesMap M m of Inl err \<Rightarrow> Err err | Inr peers \<Rightarrow> Ok (httpAddrs peers))"

definition setNodesMap :: "nodesMap \<Rightarrow> cache_master \<Rightarrow> cache_master" where
  "setNodesMap peers s = s\<lparr>nodesMap := peers\<rparr>"

text \<open>\<open>JoinNode\<close>; a nil argument is \<open>None\<close>. The in-memory map keeps the node when storing it fails.\<close>

definition JoinNode :: "'m Meta \<Rightarrow> JoinParam option \<Rightarrow> cache_master \<Rightarrow> 'm \<Rightarrow> PeerParam result \<times> cache_master \<times> 'm" where
  "JoinNode M args s m =
     (case args of
        None \<Rightarrow> (Err (Errorf ''cache/master: wrong params''), s, m)
      | Some a \<Rightarrow>
          if HTTPAddr a = [] \<or> NodeAddr a = [] then (Err (Errorf ''cache/master: wrong params''), s, m)
          else let s' = s\<lparr>nodesMap := map_put (MakeURL (HTTPAddr a)) (MakeURL (NodeAddr a)) (nodesMap s)\<rparr> in
            (case updateNodesMap M m (nodesMap s') of
               (Some err, m') \<Rightarrow> (Err (Errorf (''cache/master: fail updateNodesMap, err: '' @ err_text err)), s', m')
             | (None, m') \<Rightarrow> (Ok \<lparr>param_Peers = httpAddrs (nodesMap s'), param_DBs = cm_dbs s'\<rparr>, s', m')))"

definition syncDBs :: "'m Meta \<Rightarrow> cache_master \<Rightarrow> 'm \<Rightarrow> error \<times> cache_master" where
  "syncDBs M s m = (case Peers M m of
     Inl err \<Rightarrow> (Some err, s) | Inr ds \<Rightarrow> (None, s\<lparr>cm_dbs := ds\<rparr>))"

definition sendPeers :: "'m Meta \<Rightarrow> HTTPPoster \<Rightarrow> string \<Rightarrow> string list \<Rightarrow> cache_master \<Rightarrow> 'm \<Rightarrow> error \<times> cache_master" where
  "sendPeers M post node nodes s m = (case syncDBs M s m of
     (Some err, s') \<Rightarrow> (Some err, s')
   | (None, s') \<Rightarrow>
       (case post (MakeURL node @ ''/meta'')
               (print_json (json_of_PeerParam \<lparr>param_Peers = nodes, param_DBs = cm_dbs s'\<rparr>)) of
          Inl err \<Rightarrow> (Some err, s')
        | Inr res \<Rightarrow>
            if StatusCode res \<noteq> StatusOK_http then (Some (Errorf ''failed to send peers''), s')
            else (None, s')))"

definition removeNode :: "'m Meta \<Rightarrow> string \<Rightarrow> cache_master \<Rightarrow> 'm \<Rightarrow> cache_master \<times> 'm" where
  "removeNode M node s m =
     (if map_of (nodesMap s) node = None then (s, m)
      else let s' = s\<lparr>nodesMap := map_delete node (nodesMap s)\<rparr>
           in (s', snd (updateNodesMap M m (nodesMap s'))))"

definition heartbeat_node :: "'m Meta \<Rightarrow> HTTPPoster \<Rightarrow> string list \<Rightarrow> string \<Rightarrow> cache_master \<times> 'm \<Rightarrow> cache_master \<times> 'm" where
  "heartbeat_node M post nodePeers node st = (let (s, m) = st in
     case sendPeers M post node nodePeers s m of
       (Some err, s') \<Rightarrow> removeNode M node s' m
     | (None, s') \<Rightarrow> (s', m))"

text \<open>One tick; \<open>order\<close> arranges the goroutines of the nodes.\<close>

definition cm_heartbeat :: "'m Meta \<Rightarrow> HTTPPoster \<Rightarrow> (string list \<Rightarrow> string list) \<Rightarrow> cache_master \<times> 'm \<Rightarrow> cache_master \<times> 'm" where
  "cm_heartbeat M post order st =
     (let nm = nodesMap (fst st) in fold (heartbeat_node M post (nodeAddrs nm)) (order (httpAddrs nm)) st)"

section \<open>Lemmas\<close>

lemma cacheNodesKey_differs [simp]: "cacheNodesKey \<noteq> raftNodesKey" "raftNodesKey \<noteq> cacheNodesKey"
  by (simp_all add: cacheNodesKey_def raftNodesKey_def Config_def)

lemma httpAddrs_set [simp]: "set (httpAddrs nm) = set (map_keys nm)"
  by (simp add: httpAddrs_def)

lemma httpAddrs_wf: "gomap_wf nm \<Longrightarrow> httpAddrs nm = map_keys nm"
  by (simp add: httpAddrs_def gomap_wf_sorted sorted_sort_id)

definition nm_ok :: "nodesMap \<Rightarrow> bool" where
  "nm_ok nm \<longleftrightarrow> gomap_wf nm \<and> utf8_map nm"

lemma nm_ok_simps [simp]:
  "nm_ok []" "nm_ok nm \<Longrightarrow> valid_utf8 k \<Longrightarrow> valid_utf8 v \<Longrightarrow> nm_ok (map_put k v nm)"
  "nm_ok nm \<Longrightarrow> nm_ok (map_delete k nm)"
  by (simp_all add: nm_ok_def)

text \<open>Is the node removed by its heartbeat: the databases cannot be read, or the post fails.\<close>

definition node_fails :: "HTTPPoster \<Rightarrow> string list \<Rightarrow> string list result \<Rightarrow> string \<Rightarrow> bool" where
  "node_fails post nodePeers ds node = (case ds of
     Inl _ \<Rightarrow> True
   | Inr d \<Rightarrow> (case post (MakeURL node @ ''/meta'')
         (print_json (json_of_PeerParam \<lparr>param_Peers = nodePeers, param_DBs = d\<rparr>)) of
       Inl _ \<Rightarrow> True | Inr res \<Rightarrow> StatusCode res \<noteq> StatusOK_http))"

lemma sendPeers_eq:
  "sendPeers M post node ns s m = (e, s') \<Longrightarrow>
    (e \<noteq> None \<longleftrightarrow> node_fails post ns (Peers M m) node) \<and> nodesMap s' = nodesMap s \<and>
    cm_dbs s' = (case Peers M m of Inl _ \<Rightarrow> cm_dbs s | Inr d \<Rightarrow> d)"
  by (auto simp: sendPeers_def syncDBs_def node_fails_def split: sum.splits prod.splits if_splits)

lemma removeNode_nodesMap: "nodesMap (fst (removeNode M n s m)) = map_delete n (nodesMap s)"
  by (simp add: removeNode_def Let_def map_delete_absent)

lemma node_answers:
  "\<not> node_fails post ns (Ok d) n \<longleftrightarrow> (\<exists>res. post (MakeURL n @ ''/meta'')
     (print_json (json_of_PeerParam \<lparr>param_Peers = ns, param_DBs = d\<rparr>)) = Ok res \<and> StatusCode res = StatusOK_http)"
  by (cases "post (MakeURL n @ ''/meta'') (print_json (json_of_PeerParam \<lparr>param_Peers = ns, param_DBs = d\<rparr>))")
    (auto simp: node_fails_def)

context meta_store
begin

text \<open>What is stored is the in-memory map.\<close>

definition cm_inv :: "cache_master \<times> 'm \<Rightarrow> bool" where
  "cm_inv st \<longleftrightarrow> up (snd st) \<and> nm_ok (nodesMap (fst st)) \<and> fetchNodesMap M (snd st) = Ok (nodesMap (fst st))"

lemma fetch_stored: "up m \<Longrightarrow> kv m cacheNodesKey = Some (marshal_map nm) \<Longrightarrow> nm_ok nm \<Longrightarrow> fetchNodesMap M m = Ok nm"
  by (simp add: fetchNodesMap_def Get_kv nm_ok_def json_simps)

lemma updateNodesMap_stores:
  assumes "up m" and "nm_ok nm"
  shows "fst (updateNodesMap M m nm) = None" and "up (snd (updateNodesMap M m nm))"
    and "fetchNodesMap M (snd (updateNodesMap M m nm)) = Ok nm"
    and "Peers M (snd (updateNodesMap M m nm)) = Peers M m"
  using Put_kv [OF assms(1), of cacheNodesKey "marshal_map nm"] assms fetch_stored
  by (auto simp: updateNodesMap_def Peers_def fetchPeers_def Get_kv)

lemma removeNode_inv:
  assumes "cm_inv (s, m)"
  shows "cm_inv (removeNode M n s m) \<and> nodesMap (fst (removeNode M n s m)) = map_delete n (nodesMap s)
    \<and> Peers M (snd (removeNode M n s m)) = Peers M m \<and> cm_dbs (fst (removeNode M n s m)) = cm_dbs s"
proof (cases "map_of (nodesMap s) n = None")
  case True
  with assms show ?thesis by (simp add: removeNode_def map_delete_absent)
next
  case False
  with assms updateNodesMap_stores [of m "map_delete n (nodesMap s)"] show ?thesis
    by (auto simp: removeNode_def cm_inv_def Let_def)
qed

lemma heartbeat_node_inv:
  assumes "cm_inv st"
  shows "cm_inv (heartbeat_node M post ns n st) \<and> Peers M (snd (heartbeat_node M post ns n st)) = Peers M (snd st)
    \<and> nodesMap (fst (heartbeat_node M post ns n st)) =
        (if node_fails post ns (Peers M (snd st)) n then map_delete n (nodesMap (fst st)) else nodesMap (fst st))"
proof -
  obtain s m where st: "st = (s, m)" by fastforce
  obtain e s' where send: "sendPeers M post n ns s m = (e, s')" by fastforce
  note eq = sendPeers_eq [OF send]
  with assms st have inv: "cm_inv (s', m)" by (simp add: cm_inv_def)
  show ?thesis
    using removeNode_inv [OF inv, of n] eq inv by (cases e) (auto simp: heartbeat_node_def st send)
qed

lemma heartbeat_nodes:
  assumes "cm_inv st"
  shows "cm_inv (fold (heartbeat_node M post ns) ord st)
    \<and> nodesMap (fst (fold (heartbeat_node M post ns) ord st)) =
      filter (\<lambda>p. \<not> (fst p \<in> set ord \<and> node_fails post ns (Peers M (snd st)) (fst p))) (nodesMap (fst st))"
  using assms
proof (induction ord arbitrary: st)
  case (Cons n ord)
  note step = heartbeat_node_inv [OF Cons.prems, of post ns n]
  then have IH: "cm_inv (fold (heartbeat_node M post ns) ord (heartbeat_node M post ns n st))
    \<and> nodesMap (fst (fold (heartbeat_node M post ns) ord (heartbeat_node M post ns n st))) =
      filter (\<lambda>p. \<not> (fst p \<in> set ord \<and> node_fails post ns (Peers M (snd st)) (fst p)))
        (nodesMap (fst (heartbeat_node M post ns n st)))"
    using Cons.IH [of "heartbeat_node M post ns n st"] by simp
  then show ?case
    using step by (auto simp: map_delete_def intro!: filter_cong)
qed simp

lemma JoinNode_inv:
  assumes "cm_inv (s, m)" and "valid_utf8 (MakeURL h)" and "valid_utf8 (MakeURL n)" and "h \<noteq> []" and "n \<noteq> []"
  shows "\<exists>s' m'. JoinNode M (Some \<lparr>HTTPAddr = h, NodeAddr = n\<rparr>) s m =
      (Ok \<lparr>param_Peers = httpAddrs (nodesMap s'), param_DBs = cm_dbs s\<rparr>, s', m')
    \<and> nodesMap s' = map_put (MakeURL h) (MakeURL n) (nodesMap s) \<and> cm_dbs s' = cm_dbs s \<and> cm_inv (s', m')"
proof -
  let ?nm = "map_put (MakeURL h) (MakeURL n) (nodesMap s)"
  have "up m" "nm_ok ?nm" using assms by (auto simp: cm_inv_def)
  note u = updateNodesMap_stores [OF this]
  obtain m' where "updateNodesMap M m ?nm = (None, m')" using u(1) by (metis prod.collapse)
  with u \<open>nm_ok ?nm\<close> assms(4,5) show ?thesis by (simp add: JoinNode_def cm_inv_def)
qed

end

section \<open>Properties\<close>

text \<open>
  A run of the master: nodes that join, whole heartbeats, each with its network and its order, and the single critical
  sections of the heartbeat goroutines (the update of the databases, the removal of a node), which may come in between
  anything else, since the post to the node is done without the lock.
\<close>

datatype cm_op = JoinOp string string | HeartbeatOp HTTPPoster "string list \<Rightarrow> string list" | SyncOp | RemoveOp string

fun cm_step :: "'m Meta \<Rightarrow> cm_op \<Rightarrow> cache_master \<times> 'm \<Rightarrow> cache_master \<times> 'm" where
  "cm_step M (JoinOp h n) (s, m) = snd (JoinNode M (Some \<lparr>HTTPAddr = h, NodeAddr = n\<rparr>) s m)"
| "cm_step M (HeartbeatOp post order) st = cm_heartbeat M post order st"
| "cm_step M SyncOp (s, m) = (snd (syncDBs M s m), m)"
| "cm_step M (RemoveOp node) (s, m) = removeNode M node s m"

fun op_utf8 :: "cm_op \<Rightarrow> bool" where
  "op_utf8 (JoinOp h n) \<longleftrightarrow> valid_utf8 (MakeURL h) \<and> valid_utf8 (MakeURL n)"
| "op_utf8 _ \<longleftrightarrow> True"

context meta_store
begin

lemma cm_step_inv: "cm_inv st \<Longrightarrow> op_utf8 op \<Longrightarrow> cm_inv (cm_step M op st)"
proof (cases op)
  case (JoinOp h n)
  assume a: "cm_inv st" "op_utf8 op"
  obtain s m where st: "st = (s, m)" by fastforce
  show ?thesis
  proof (cases "h = [] \<or> n = []")
    case True
    with a st JoinOp show ?thesis by (auto simp: JoinNode_def)
  next
    case False
    with JoinNode_inv [of s m h n] a st JoinOp show ?thesis by fastforce
  qed
next
  case SyncOp
  assume "cm_inv st"
  then show ?thesis using SyncOp by (cases st) (auto simp: cm_inv_def syncDBs_def split: sum.split)
next
  case (RemoveOp n)
  assume "cm_inv st"
  then show ?thesis using RemoveOp removeNode_inv by (cases st) auto
qed (simp add: cm_heartbeat_def heartbeat_nodes Let_def)

lemma cm_run_inv: "cm_inv st \<Longrightarrow> \<forall>op\<in>set ops. op_utf8 op \<Longrightarrow> cm_inv (fold (cm_step M) ops st)"
  by (induction ops arbitrary: st) (auto simp: cm_step_inv)

lemma New_inv: "up m \<Longrightarrow> kv m cacheNodesKey = None \<Longrightarrow>
    cm_New M m a = Ok \<lparr>nodesMap = [], cm_dbs = [], cm_addr = a\<rparr> \<and> cm_inv (\<lparr>nodesMap = [], cm_dbs = [], cm_addr = a\<rparr>, m)"
  by (simp add: cm_New_def cm_inv_def fetchNodesMap_def Get_kv)

lemma New_recovers: "cm_inv (s, m) \<Longrightarrow> cm_New M m a = Ok \<lparr>nodesMap = nodesMap s, cm_dbs = [], cm_addr = a\<rparr> \<and>
    cm_Peers M m = Ok (map_keys (nodesMap s))"
  by (simp add: cm_inv_def cm_New_def cm_Peers_def httpAddrs_wf nm_ok_def)

end

text \<open>
  C34: the map of the cache nodes survives a restart. After any run of joins, heartbeats and single critical
  sections of heartbeat goroutines on a reachable etcd that had no map, a new master starts with
  exactly the map the old one had in memory, and Peers returns its HTTP addresses.
\<close>

theorem cache_map_survives_restart:
  assumes "etcd_client g p up kv" and "up m" and "kv m cacheNodesKey = None"
    and "\<forall>op\<in>set ops. op_utf8 op" and "M = etcd_meta g p"
    and "cm_New M m a = Ok s" and "fold (cm_step M) ops (s, m) = (s', m')"
  shows "cm_New M m' a' = Ok \<lparr>nodesMap = nodesMap s', cm_dbs = [], cm_addr = a'\<rparr>
    \<and> cm_Peers M m' = Ok (map_keys (nodesMap s'))"
proof -
  have M: "meta_store M up kv" using etcd_meta_store [OF assms(1)] assms(5) by simp
  have "meta_store.cm_inv M up (s, m)" using meta_store.New_inv [OF M assms(2,3), of a] assms(6) by simp
  from meta_store.cm_run_inv [OF M this assms(4)] have "meta_store.cm_inv M up (s', m')" using assms(7) by simp
  then show ?thesis by (rule meta_store.New_recovers [OF M])
qed

theorem cache_map_survives_restart_witness:
  "\<exists>s' m'. fold (cm_step (etcd_meta mem_Get mem_Put)) [JoinOp ''a:1'' ''b:1'']
      (\<lparr>nodesMap = [], cm_dbs = [], cm_addr = ''c:1''\<rparr>, []) = (s', m')
    \<and> nodesMap s' = [(''http://a:1'', ''http://b:1'')]
    \<and> cm_New (etcd_meta mem_Get mem_Put) m' ''c:1'' = Ok \<lparr>nodesMap = nodesMap s', cm_dbs = [], cm_addr = ''c:1''\<rparr>"
proof -
  let ?M = "etcd_meta mem_Get mem_Put" and ?s = "\<lparr>nodesMap = [], cm_dbs = [], cm_addr = ''c:1''\<rparr>"
  obtain s' m' where r: "fold (cm_step ?M) [JoinOp ''a:1'' ''b:1''] (?s, []) = (s', m')" by fastforce
  have url: "MakeURL ''a:1'' = ''http://a:1''" "MakeURL ''b:1'' = ''http://b:1''"
    by (simp_all add: MakeURL_def HasPrefix_def TrimSuffix_def)
  have new: "cm_New ?M [] ''c:1'' = Ok ?s"
    by (simp add: cm_New_def fetchNodesMap_def etcd_meta_def etcd_Get_def mem_Get_def)
  have "nodesMap s' = [(''http://a:1'', ''http://b:1'')]"
    using r by (auto simp: JoinNode_def url updateNodesMap_def etcd_meta_def etcd_Put_def mem_Put_def)
  with cache_map_survives_restart [OF mem_etcd_client _ _ _ refl new r, of "''c:1''"] r show ?thesis by (simp add: url)
qed

text \<open>
  A heartbeat. On a reachable etcd with a readable database list, and whatever the order in which
  the goroutines of the nodes run, the nodes that remain are those that answered the post of
  the groupcache addresses and the databases with 200, and Peers returns them.
\<close>

lemma cm_heartbeat_keeps_the_answering:
  assumes "etcd_client g p up kv" and "up m" and "M = etcd_meta g p"
    and "nm_ok (nodesMap s)" and "fetchNodesMap M m = Ok (nodesMap s)" and "Peers M m = Ok ds"
    and "set (order (httpAddrs (nodesMap s))) = set (httpAddrs (nodesMap s))"
    and "cm_heartbeat M post order (s, m) = (s', m')"
  shows "nodesMap s' = filter (\<lambda>p. \<exists>res. post (MakeURL (fst p) @ ''/meta'')
        (print_json (json_of_PeerParam \<lparr>param_Peers = nodeAddrs (nodesMap s), param_DBs = ds\<rparr>)) = Ok res
        \<and> StatusCode res = 200) (nodesMap s)
    \<and> cm_Peers M m' = Ok (map_keys (nodesMap s'))"
proof -
  have M: "meta_store M up kv" using etcd_meta_store [OF assms(1)] assms(3) by simp
  have inv: "meta_store.cm_inv M up (s, m)"
    using assms(2,4,5) by (simp add: meta_store.cm_inv_def [OF M])
  note h = meta_store.heartbeat_nodes [OF M inv, of post "nodeAddrs (nodesMap s)" "order (httpAddrs (nodesMap s))"]
  have run: "fold (heartbeat_node M post (nodeAddrs (nodesMap s))) (order (httpAddrs (nodesMap s))) (s, m) = (s', m')"
    using assms(8) by (simp add: cm_heartbeat_def Let_def)
  have "meta_store.cm_inv M up (s', m')" using h run by simp
  moreover have "nodesMap s' = filter (\<lambda>p. \<not> (fst p \<in> set (map_keys (nodesMap s)) \<and>
      node_fails post (nodeAddrs (nodesMap s)) (Ok ds) (fst p))) (nodesMap s)"
    using h assms(6,7) run by simp
  moreover have "\<forall>p\<in>set (nodesMap s). fst p \<in> set (map_keys (nodesMap s))" by (simp add: map_keys_def)
  ultimately show ?thesis
    using meta_store.New_recovers [OF M] by (auto simp: node_answers [symmetric] intro!: filter_cong)
qed

lemma cm_heartbeat_keeps_the_answering_witness:
  "\<exists>s' m'. cm_heartbeat (etcd_meta mem_Get mem_Put)
      (\<lambda>u b. if u = ''http://a:1/meta'' then Ok \<lparr>StatusCode = 200, Body = Ok []\<rparr> else Err (Errorf ''refused'')) rev
      (\<lparr>nodesMap = [(''http://a:1'', ''http://a:2''), (''http://b:1'', ''http://b:2'')], cm_dbs = [], cm_addr = ''c:1''\<rparr>,
       [(cacheNodesKey, marshal_map [(''http://a:1'', ''http://a:2''), (''http://b:1'', ''http://b:2'')])]) = (s', m')
    \<and> nodesMap s' = [(''http://a:1'', ''http://a:2'')]"
proof -
  let ?M = "etcd_meta mem_Get mem_Put" and ?nm = "[(''http://a:1'', ''http://a:2''), (''http://b:1'', ''http://b:2'')]"
  let ?s = "\<lparr>nodesMap = ?nm, cm_dbs = [], cm_addr = ''c:1''\<rparr>" and ?m = "[(cacheNodesKey, marshal_map ?nm)]"
  let ?post = "\<lambda>u b. if u = ''http://a:1/meta'' then Ok \<lparr>StatusCode = 200, Body = Ok []\<rparr> else Err (Errorf ''refused'')"
  have wf: "gomap_wf ?nm" by (simp add: gomap_wf_def less_char_def)
  then have ok: "nm_ok ?nm" by (simp add: nm_ok_def utf8_map_set)
  obtain s' m' where h: "cm_heartbeat ?M ?post rev (?s, ?m) = (s', m')" by fastforce
  have f: "fetchNodesMap ?M ?m = Ok (nodesMap ?s)"
    using meta_store.fetch_stored [OF etcd_meta_store [OF mem_etcd_client] _ _ ok] by simp
  have d: "Peers ?M ?m = Ok []"
    by (simp add: Peers_def fetchPeers_def etcd_meta_def etcd_Get_def mem_Get_def)
  have "MakeURL ''http://a:1'' = ''http://a:1''" "MakeURL ''http://b:1'' = ''http://b:1''"
    by (simp_all add: MakeURL_def HasPrefix_def TrimSuffix_def)
  with cm_heartbeat_keeps_the_answering [OF mem_etcd_client _ refl _ f d _ h] ok h show ?thesis by simp
qed

text \<open>
  C35: an outage of the meta store empties the cache cluster. When the database list cannot be read,
  one heartbeat removes every node from the master's map, although the nodes may be healthy.
\<close>

theorem meta_outage_drops_all_nodes:
  assumes "\<forall>m. \<exists>e. meta_Get M m raftNodesKey = Err e \<and> e \<noteq> ErrDataNotFound"
    and "set (order (httpAddrs (nodesMap s))) = set (httpAddrs (nodesMap s))"
  shows "nodesMap (fst (cm_heartbeat M post order (s, m))) = []"
proof -
  have fails: "\<exists>e. Peers M m = Err e" for m
    using assms(1) [THEN spec, of m] by (auto simp: Peers_def fetchPeers_def)
  have step: "nodesMap (fst (heartbeat_node M post ns n (s, m))) = map_delete n (nodesMap s)" for ns n s m
  proof -
    obtain e s' where send: "sendPeers M post n ns s m = (e, s')" by fastforce
    with sendPeers_eq [OF send] fails [of m] have "e \<noteq> None" "nodesMap s' = nodesMap s"
      by (auto simp: node_fails_def)
    then show ?thesis by (auto simp: heartbeat_node_def send removeNode_nodesMap)
  qed
  have "nodesMap (fst (fold (heartbeat_node M post ns) ord (s, m))) = filter (\<lambda>p. fst p \<notin> set ord) (nodesMap s)" for ns ord s m
  proof (induction ord arbitrary: s m)
    case (Cons n ord)
    obtain s1 m1 where "heartbeat_node M post ns n (s, m) = (s1, m1)" by fastforce
    with Cons step [of ns n s m] show ?case by (simp add: map_delete_def conj_commute)
  qed simp
  then show ?thesis
    using assms(2) by (auto simp: cm_heartbeat_def Let_def filter_empty_conv map_keys_def)
qed

theorem meta_outage_drops_all_nodes_witness:
  "nodesMap (fst (cm_heartbeat \<lparr>meta_Get = (\<lambda>_ _. Err (Errorf ''no etcd'')), meta_Put = mock_Put\<rparr>
     (\<lambda>_ _. Ok \<lparr>StatusCode = 200, Body = Ok []\<rparr>) (\<lambda>ns. ns)
     (\<lparr>nodesMap = [(''http://a:1'', ''http://a:2'')], cm_dbs = [], cm_addr = ''c:1''\<rparr>, []))) = []"
  by (rule meta_outage_drops_all_nodes) (simp_all add: ErrDataNotFound_def)

text \<open>
  Joining. On a reachable etcd a node with both addresses is entered into the map under its
  HTTP address, the map is stored, and the reply carries the databases and, as the peers, the HTTP
  addresses of the nodes; the groupcache address that the pool of a node needs is only
  in the list that the next heartbeat sends.
\<close>

lemma JoinNode_reply:
  assumes "etcd_client g p up kv" and "up m" and "M = etcd_meta g p"
    and "nm_ok (nodesMap s)" and "fetchNodesMap M m = Ok (nodesMap s)"
    and "valid_utf8 (MakeURL h)" and "valid_utf8 (MakeURL n)" and "h \<noteq> []" and "n \<noteq> []"
    and "JoinNode M (Some \<lparr>HTTPAddr = h, NodeAddr = n\<rparr>) s m = (r, s', m')"
  shows "nodesMap s' = map_put (MakeURL h) (MakeURL n) (nodesMap s) \<and> fetchNodesMap M m' = Ok (nodesMap s')
    \<and> r = Ok \<lparr>param_Peers = map_keys (nodesMap s'), param_DBs = cm_dbs s\<rparr>
    \<and> MakeURL n \<in> set (nodeAddrs (nodesMap s'))"
proof -
  have M: "meta_store M up kv" using etcd_meta_store [OF assms(1)] assms(3) by simp
  have inv: "meta_store.cm_inv M up (s, m)" using assms(2,4,5) by (simp add: meta_store.cm_inv_def [OF M])
  from meta_store.JoinNode_inv [OF M inv assms(6-9)] assms(10)
  have s': "nodesMap s' = map_put (MakeURL h) (MakeURL n) (nodesMap s)" "meta_store.cm_inv M up (s', m')"
      "r = Ok \<lparr>param_Peers = httpAddrs (nodesMap s'), param_DBs = cm_dbs s\<rparr>" by auto
  moreover have "map_of (nodesMap s') (MakeURL h) = Some (MakeURL n)" using s'(1) by simp
  then have "MakeURL n \<in> set (nodeAddrs (nodesMap s'))" by (force simp: nodeAddrs_def dest: map_of_SomeD)
  ultimately show ?thesis
    by (simp add: meta_store.cm_inv_def [OF M] nm_ok_def httpAddrs_wf)
qed

lemma JoinNode_reply_witness:
  "\<exists>s' m'. JoinNode (etcd_meta mem_Get mem_Put) (Some \<lparr>HTTPAddr = ''a:1'', NodeAddr = ''a:2''\<rparr>)
      \<lparr>nodesMap = [], cm_dbs = [''d:1''], cm_addr = ''c:1''\<rparr> []
    = (Ok \<lparr>param_Peers = [''http://a:1''], param_DBs = [''d:1'']\<rparr>, s', m')
    \<and> nodeAddrs (nodesMap s') = [''http://a:2'']"
proof -
  let ?M = "etcd_meta mem_Get mem_Put" and ?s = "\<lparr>nodesMap = [], cm_dbs = [''d:1''], cm_addr = ''c:1''\<rparr>"
  obtain r s' m' where j: "JoinNode ?M (Some \<lparr>HTTPAddr = ''a:1'', NodeAddr = ''a:2''\<rparr>) ?s [] = (r, s', m')"
    by (metis prod_cases3)
  have f: "fetchNodesMap ?M [] = Ok (nodesMap ?s)"
    by (simp add: fetchNodesMap_def etcd_meta_def etcd_Get_def mem_Get_def)
  have "MakeURL ''a:1'' = ''http://a:1''" "MakeURL ''a:2'' = ''http://a:2''"
    by (simp_all add: MakeURL_def HasPrefix_def TrimSuffix_def)
  with JoinNode_reply [OF mem_etcd_client _ refl _ f _ _ _ _ j] j show ?thesis by (simp add: nodeAddrs_def)
qed

end
