(* ===== verification/CacheNode.thy ===== *)
theory CacheNode
  imports CacheMaster FanOut Gin
begin

text \<open>
  \<open>cache/node/node.go\<close>: a cache node. It joins the cache master, takes the peers and databases the
  master posts, and answers reads from groupcache, whose getter (\<open>fetchData\<close>) asks the databases.

  Here \<open>handleGetKey\<close> takes the outcome of \<open>group.Get\<close>, which \<open>CacheTier\<close> determines, and of the pool only the peers
  it was last given are kept. The read fan-out is the machine of \<open>FanOut\<close>, so \<open>fetchData\<close> is the
  set of its possible results. The RPC client of \<open>join\<close> is the function \<open>call\<close>. The web-socket
  statistics loop is in \<open>Programs\<close>. A nil slice and an empty one are the same list:
  \<open>reflect.DeepEqual\<close> tells them apart in \<open>handleMeta\<close>, which then sets the same peers again.
\<close>

section \<open>Model\<close>

definition node_ErrDataNotFound :: go_error where
  "node_ErrDataNotFound = Sentinel ''cache/node: data not found''"

definition ErrDatabaseQueryTimeout :: go_error where
  "ErrDatabaseQueryTimeout = Sentinel ''cache/node: upderlying data query timeout''"

record Node =
  node_dbs :: "string list"
  node_fastDB :: string
  node_peers :: "string list"
  node_masterAddr :: string
  node_httpAddr :: string
  node_nodeAddr :: string
  pool_self :: string
  pool_peers :: "string list"

definition node_New :: "string \<Rightarrow> string \<Rightarrow> string \<Rightarrow> Node" where
  "node_New h n mst = \<lparr>node_dbs = [], node_fastDB = [], node_peers = [], node_masterAddr = TrimSuffix mst ''/'',
     node_httpAddr = h, node_nodeAddr = n, pool_self = MakeURL n, pool_peers = []\<rparr>"

definition node_join :: "(JoinParam \<Rightarrow> PeerParam result) \<Rightarrow> Node \<Rightarrow> error \<times> Node" where
  "node_join call node = (case call \<lparr>HTTPAddr = node_httpAddr node, NodeAddr = node_nodeAddr node\<rparr> of
     Inl err \<Rightarrow> (Some (Errorf (''fail call Master.JoinNode, err: '' @ err_text err)), node)
   | Inr rp \<Rightarrow> (None, node\<lparr>pool_peers := param_Peers rp, node_peers := param_Peers rp, node_dbs := param_DBs rp\<rparr>))"

text \<open>The JSON fields of the body that the master posts.\<close>

abbreviation masterParam :: "(string \<times> field_kind) list" where
  "masterParam \<equiv> [(''peers'', FStrings), (''dbs'', FStrings)]"

definition handleMeta :: "string \<Rightarrow> Node \<Rightarrow> gin_ctx \<Rightarrow> gin_ctx \<times> Node" where
  "handleMeta body node ctx = (case ctx_BindJSON masterParam body ctx of
     (ctx', Inl err) \<Rightarrow> (ctx_JSON StatusBadRequest (JObj [(''error'', JStr (err_text err))]) ctx', node)
   | (ctx', Inr params) \<Rightarrow>
       (let peers = sort (strings_field params ''peers''); ds = sort (strings_field params ''dbs'') in
        if node_peers node = peers \<and> node_dbs node = ds then (ctx_JSON StatusOK_http JNull ctx', node)
        else (ctx_JSON StatusOK_http JNull ctx', node\<lparr>pool_peers := peers, node_peers := peers, node_dbs := ds\<rparr>)))"

definition node_find :: "HTTPGetter \<Rightarrow> string \<Rightarrow> string \<Rightarrow> string result" where
  "node_find getter key url = (case getter (MakeURL url @ ''/i/key/'' @ key) of
     Inl err \<Rightarrow> Err err
   | Inr resp \<Rightarrow>
       if StatusCode resp = StatusNotFound then Err node_ErrDataNotFound
       else if StatusCode resp = StatusOK_http then
         (case Body resp of
            Inl err \<Rightarrow> Err err
          | Inr b \<Rightarrow> if length b = 0
              then Err (Errorf (''cache/node: database error, lost data of key: '' @ key @ [CHR 0x0A])) else Ok b)
       else Err (Errorf ''cache/node: failed to fetch data''))"

definition node_unavailable :: go_error where
  "node_unavailable = Errorf (''cache/node: databases are not available'' @ [CHR 0x0A])"

definition node_setFastDB :: "string \<Rightarrow> Node \<Rightarrow> Node" where
  "node_setFastDB db node = node\<lparr>node_fastDB := db\<rparr>"

text \<open>
  The bytes put into \<open>dest\<close>, the error returned, and the node at some moment after the return: the goroutine
  that sets the fast database may or may not have run.
\<close>

definition node_tryAllDBFind :: "HTTPGetter \<Rightarrow> string \<Rightarrow> Node \<Rightarrow> (string \<times> error \<times> Node) set" where
  "node_tryAllDBFind getter key node =
     (if node_dbs node = [] then {([], Some node_unavailable, node)}
      else {(v, e, node_setFastDB (fastDB s) node) | v e s.
        fan_reach node_ErrDataNotFound ErrDatabaseQueryTimeout (node_find getter key) (node_dbs node) (node_fastDB node) s
        \<and> returned s = Some (v, e)})"

text \<open>When the fast database fails, a goroutine resets it, before or after the fan-out sets a new one.\<close>

definition fetchData :: "HTTPGetter \<Rightarrow> string \<Rightarrow> Node \<Rightarrow> (string \<times> error \<times> Node) set" where
  "fetchData getter key node =
     (if node_fastDB node = [] then node_tryAllDBFind getter key node
      else case node_find getter key (node_fastDB node) of
        Inl err \<Rightarrow>
          if err = node_ErrDataNotFound then {([], Some err, node)}
          else (\<Union>(v, e, n)\<in>node_tryAllDBFind getter key node. {(v, e, n), (v, e, node_setFastDB [] n)})
      | Inr data \<Rightarrow> {(data, None, node)})"

definition handleGetKey :: "string result \<Rightarrow> gin_ctx \<Rightarrow> gin_ctx" where
  "handleGetKey group_Get ctx = (case group_Get of
     Inl err \<Rightarrow>
       if err = node_ErrDataNotFound then ctx_JSON StatusNotFound JNull ctx
       else ctx_JSON StatusInternalServerError JNull ctx
   | Inr result \<Rightarrow> ctx_Write StatusOK_http result ctx)"

text \<open>The routes of \<open>newServer\<close>.\<close>

datatype node_route = NodeMeta | NodeStats | NodeKey string | NodeWs | NodeRedirect nat | NodeNoRoute

definition node_registered :: "string \<Rightarrow> string \<Rightarrow> node_route" where
  "node_registered httpMethod path =
     (if httpMethod = ''POST'' \<and> path = ''/meta'' then NodeMeta
      else if httpMethod = ''GET'' \<and> path = ''/stats'' then NodeStats
      else if httpMethod = ''GET'' \<and> HasPrefix path ''/key/'' \<and> drop 5 path \<noteq> [] \<and> CHR ''/'' \<notin> set (drop 5 path)
      then NodeKey (drop 5 path)
      else if httpMethod = ''GET'' \<and> path = ''/ws/stats'' then NodeWs
      else NodeNoRoute)"

definition node_route_of :: "string \<Rightarrow> string \<Rightarrow> node_route" where
  "node_route_of httpMethod path = (case node_registered httpMethod path of
     NodeNoRoute \<Rightarrow> (case strip_slash path of
         None \<Rightarrow> NodeNoRoute
       | Some p \<Rightarrow>
           if node_registered httpMethod p \<noteq> NodeNoRoute \<or> httpMethod = ''GET'' \<and> p = ''/key/''
           then NodeRedirect (redirect_status httpMethod) else NodeNoRoute)
   | r \<Rightarrow> r)"

section \<open>Lemmas\<close>

lemma node_errors [simp]:
  "node_ErrDataNotFound \<noteq> ErrDatabaseQueryTimeout" "node_unavailable \<noteq> node_ErrDataNotFound"
  "node_ErrDataNotFound \<noteq> node_unavailable"
  "node_ErrDataNotFound \<noteq> Errorf x" "Errorf x \<noteq> node_ErrDataNotFound"
  by (simp_all add: node_ErrDataNotFound_def ErrDatabaseQueryTimeout_def node_unavailable_def)

interpretation node_fan: read_fan_out
  "fan_returns node_ErrDataNotFound ErrDatabaseQueryTimeout (node_find getter key) urls fast" urls
  "node_find getter key" node_ErrDataNotFound ErrDatabaseQueryTimeout for getter key urls fast
  by unfold_locales (simp_all add: fan_returns_eq)

text \<open>The getter's own errors are never one of this package's.\<close>

definition foreign_errors :: "HTTPGetter \<Rightarrow> bool" where
  "foreign_errors getter \<longleftrightarrow> (\<forall>u e. (getter u = Err e \<or> (\<exists>r. getter u = Ok r \<and> Body r = Err e)) \<longrightarrow> e \<noteq> node_ErrDataNotFound)"

lemma node_find_Ok: "node_find getter key u = Ok b \<longleftrightarrow>
    b \<noteq> [] \<and> (\<exists>r. getter (MakeURL u @ ''/i/key/'' @ key) = Ok r \<and> StatusCode r = 200 \<and> Body r = Ok b)"
  by (auto simp: node_find_def split: sum.splits)

lemma node_find_NotFound:
  assumes "foreign_errors getter"
  shows "node_find getter key u = Err node_ErrDataNotFound \<longleftrightarrow>
    (\<exists>r. getter (MakeURL u @ ''/i/key/'' @ key) = Ok r \<and> StatusCode r = 404)"
proof (cases "getter (MakeURL u @ ''/i/key/'' @ key)")
  case (Inl e)
  with assms show ?thesis by (auto simp: node_find_def foreign_errors_def)
next
  case (Inr r)
  have "Body r \<noteq> Err node_ErrDataNotFound" using assms Inr unfolding foreign_errors_def by metis
  with Inr show ?thesis by (auto simp: node_find_def split: sum.splits)
qed

lemma node_tryAll_empty:
  "node_dbs node = [] \<Longrightarrow> node_tryAllDBFind getter key node = {([], Some node_unavailable, node)}"
  by (simp add: node_tryAllDBFind_def)

text \<open>What the fan-out returns, and what it makes of the node.\<close>

abbreviation node_returns :: "HTTPGetter \<Rightarrow> string \<Rightarrow> Node \<Rightarrow> (string \<times> error) set" where
  "node_returns getter key node \<equiv>
     fan_returns node_ErrDataNotFound ErrDatabaseQueryTimeout (node_find getter key) (node_dbs node) (node_fastDB node)"

lemma node_tryAll_returns: "(v, e, n) \<in> node_tryAllDBFind getter key node \<Longrightarrow> node_dbs node \<noteq> [] \<Longrightarrow> (v, e) \<in> node_returns getter key node"
  by (auto simp: node_tryAllDBFind_def fan_returns_def)

lemma node_returns_tryAll: "(v, e) \<in> node_returns getter key node \<Longrightarrow> node_dbs node \<noteq> [] \<Longrightarrow> \<exists>n. (v, e, n) \<in> node_tryAllDBFind getter key node"
  by (auto simp: node_tryAllDBFind_def fan_returns_def)

lemma node_tryAll_node:
  assumes "(v, e, n) \<in> node_tryAllDBFind getter key node"
  shows "\<exists>f \<in> {node_fastDB node, []} \<union> {u \<in> set (node_dbs node). answers node_ErrDataNotFound (node_find getter key) u}.
    n = node_setFastDB f node"
proof (cases "node_dbs node = []")
  case True
  with assms show ?thesis by (auto simp: node_tryAll_empty node_setFastDB_def)
next
  case False
  with assms obtain s where "n = node_setFastDB (fastDB s) node"
      "fan_reach node_ErrDataNotFound ErrDatabaseQueryTimeout (node_find getter key) (node_dbs node) (node_fastDB node) s"
    by (auto simp: node_tryAllDBFind_def)
  with fan_reach_inv [OF this(2)] show ?thesis by (auto simp: fan_inv_def inv_fast_def winners_def)
qed

lemma tryAll_value: "(v, None, n) \<in> node_tryAllDBFind getter key node \<Longrightarrow> \<exists>u\<in>set (node_dbs node). node_find getter key u = Ok v"
  using node_fan.value_from_server [of v getter key "node_dbs node" "node_fastDB node"] node_tryAll_returns [of v None n getter key node]
  by (cases "node_dbs node = []") (auto simp: node_tryAll_empty)

lemma tryAll_not_found: "(v, Some node_ErrDataNotFound, n) \<in> node_tryAllDBFind getter key node \<Longrightarrow>
    \<exists>u\<in>set (node_dbs node). node_find getter key u = Err node_ErrDataNotFound"
  using node_fan.not_found_from_server [of v getter key "node_dbs node" "node_fastDB node"]
    node_tryAll_returns [of v "Some node_ErrDataNotFound" n getter key node]
  by (cases "node_dbs node = []") (auto simp: node_tryAll_empty)

lemma fetchData_nonempty: "\<exists>v e n. (v, e, n) \<in> fetchData getter key node"
proof -
  obtain v e n where "(v, e, n) \<in> node_tryAllDBFind getter key node"
    using node_returns_tryAll [OF fan_returns_timeout, of node getter key] by (cases "node_dbs node = []") (auto simp: node_tryAll_empty)
  then show ?thesis by (cases "node_find getter key (node_fastDB node)") (force simp: fetchData_def)+
qed

lemma fetchData_cases:
  assumes "(v, e, n) \<in> fetchData getter key node"
  obtains (Fast) "node_fastDB node \<noteq> []" "node_find getter key (node_fastDB node) = Ok v" "e = None" "n = node"
  | (FastNF) "node_fastDB node \<noteq> []" "node_find getter key (node_fastDB node) = Err node_ErrDataNotFound"
      "v = []" "e = Some node_ErrDataNotFound" "n = node"
  | (All) n1 where "(v, e, n1) \<in> node_tryAllDBFind getter key node" "n = n1 \<or> n = node_setFastDB [] n1"
  using assms by (auto simp: fetchData_def split: if_splits sum.splits)

text \<open>The body the master posts makes the node take over exactly the posted lists, sorted.\<close>

lemma handleMeta_result:
  assumes "\<forall>x\<in>set ps \<union> set ds. valid_utf8 x"
    and "handleMeta (print_json (json_of_PeerParam \<lparr>param_Peers = ps, param_DBs = ds\<rparr>)) node new_ctx = (ctx, node')"
  shows "StatusCode (ctx_response ctx) = 200 \<and> node_peers node' = sort ps \<and> node_dbs node' = sort ds
    \<and> (pool_peers node' = sort ps \<or> node' = node)"
proof -
  let ?j = "json_of_PeerParam \<lparr>param_Peers = ps, param_DBs = ds\<rparr>"
  have "wf_json ?j" using assms(1) by (auto simp: json_of_PeerParam_def json_of_strings_def)
  then have "json_Decode (print_json ?j) = Ok ?j" by (rule json_Decode_print)
  then have "ctx_BindJSON [(''peers'', FStrings), (''dbs'', FStrings)] (print_json ?j) new_ctx =
      (new_ctx, Ok (map_put ''dbs'' (json_of_strings ds) [(''peers'', json_of_strings ps)]))"
    by (simp add: ctx_BindJSON_new json_of_PeerParam_def find_field_def json_of_strings_def)
  moreover have "strings_field (map_put ''dbs'' (json_of_strings ds) [(''peers'', json_of_strings ps)]) ''peers'' = ps"
    "strings_field (map_put ''dbs'' (json_of_strings ds) [(''peers'', json_of_strings ps)]) ''dbs'' = ds"
    by (simp_all add: strings_field_def json_of_strings_def)
  ultimately show ?thesis
    using assms(2) by (auto simp: handleMeta_def Let_def split: if_splits)
qed

section \<open>Properties\<close>

text \<open>
  C32: what a cache node can be told. A value fetchData yields is the non-empty body of a 200 answer to a
  GET of /i/key/<key> by the fast database or by one of the known databases, and not-found is
  reported only when one of them answered 404; every other outcome is an error.
\<close>

theorem fetchData_sound:
  assumes "foreign_errors getter" and "(v, e, node') \<in> fetchData getter key node"
  shows "(e = None \<longrightarrow> v \<noteq> [] \<and> (\<exists>u\<in>insert (node_fastDB node) (set (node_dbs node)). \<exists>r.
        getter (MakeURL u @ ''/i/key/'' @ key) = Ok r \<and> StatusCode r = 200 \<and> Body r = Ok v))
    \<and> (e = Some node_ErrDataNotFound \<longrightarrow> (\<exists>u\<in>insert (node_fastDB node) (set (node_dbs node)). \<exists>r.
        getter (MakeURL u @ ''/i/key/'' @ key) = Ok r \<and> StatusCode r = 404))"
  using assms(2)
proof (cases rule: fetchData_cases)
  case Fast
  then show ?thesis using node_find_Ok by auto
next
  case FastNF
  then show ?thesis using node_find_NotFound [OF assms(1)] by auto
next
  case (All n1)
  then show ?thesis
    using tryAll_value [of v n1 getter key node] tryAll_not_found [of v n1 getter key node]
    unfolding node_find_Ok node_find_NotFound [OF assms(1)] by blast
qed

text \<open>A network where one database answers, for the witnesses.\<close>

abbreviation one_db :: HTTPGetter where
  "one_db \<equiv> \<lambda>u. if u = ''http://d:1/i/key/k'' then Ok \<lparr>StatusCode = 200, Body = Ok ''v''\<rparr> else Err (Errorf ''refused'')"

lemma one_db_foreign: "foreign_errors one_db"
  by (auto simp: foreign_errors_def split: if_splits)

lemma one_db_find: "node_find one_db ''k'' ''d:1'' = Ok ''v''"
  by (simp add: node_find_def MakeURL_def HasPrefix_def TrimSuffix_def)

theorem fetchData_sound_witness:
  "\<exists>node'. (''v'', None, node') \<in> fetchData one_db ''k'' ((node_New ''a:1'' ''a:2'' ''m:1'')\<lparr>node_dbs := [''d:1'']\<rparr>)
    \<and> (\<exists>u\<in>{[], ''d:1''}. \<exists>r. one_db (MakeURL u @ ''/i/key/'' @ ''k'') = Ok r \<and> Body r = Ok ''v'')"
proof -
  let ?n = "(node_New ''a:1'' ''a:2'' ''m:1'')\<lparr>node_dbs := [''d:1'']\<rparr>"
  have "reply (node_find one_db ''k'') ''d:1'' = (''v'', None)" by (simp add: reply_def one_db_find val_of_def)
  moreover have "''d:1'' \<in> winners node_ErrDataNotFound (node_find one_db ''k'') [''d:1'']"
    by (simp add: winners_def answers_def one_db_find val_of_def)
  ultimately have "(''v'', None) \<in> node_returns one_db ''k'' ?n"
    using fan_returns_winner [of "''d:1''" node_ErrDataNotFound "node_find one_db ''k''" "[''d:1'']" ErrDatabaseQueryTimeout "[]"]
    by (simp add: node_New_def)
  then obtain n where "(''v'', None, n) \<in> node_tryAllDBFind one_db ''k'' ?n"
    using node_returns_tryAll [of "''v''" None one_db "''k''" ?n] by auto
  then have v: "(''v'', None, n) \<in> fetchData one_db ''k'' ?n" by (simp add: fetchData_def node_New_def)
  have "MakeURL ''d:1'' = ''http://d:1''" "MakeURL [] = ''http:/''"
    by (simp_all add: MakeURL_def HasPrefix_def TrimSuffix_def)
  with fetchData_sound [OF one_db_foreign v] v show ?thesis by (auto simp: node_New_def)
qed

text \<open>
  C33: when no database answers. If databases are known but none of them answers the read with a value or
  with 404 (they fail, refuse, or are not the leader), fetchData ends with the timeout error, with
  nothing else, and can end so: the counter that should end it earlier is never incremented.
\<close>

theorem fetchData_no_answer:
  assumes "node_dbs node \<noteq> []" and "node_fastDB node \<in> insert [] (set (node_dbs node))"
    and "\<forall>u\<in>set (node_dbs node). \<not> answers node_ErrDataNotFound (node_find getter key) u"
  shows "{(v, e). \<exists>node'. (v, e, node') \<in> fetchData getter key node} = {([], Some ErrDatabaseQueryTimeout)}"
proof -
  have "node_returns getter key node = {([], Some ErrDatabaseQueryTimeout)}"
    using node_fan.no_answer_times_out [OF assms(3)] .
  then have all: "(\<exists>n. (v, e, n) \<in> node_tryAllDBFind getter key node) \<longleftrightarrow> v = [] \<and> e = Some ErrDatabaseQueryTimeout" for v e
    using node_tryAll_returns [of v e _ getter key node] node_returns_tryAll [of v e getter key node] assms(1) by auto
  have "(\<exists>n. (v, e, n) \<in> fetchData getter key node) \<longleftrightarrow> (\<exists>n. (v, e, n) \<in> node_tryAllDBFind getter key node)" for v e
  proof (cases "node_fastDB node = []")
    case False
    then have no: "\<not> answers node_ErrDataNotFound (node_find getter key) (node_fastDB node)" using assms(2,3) by simp
    then obtain err where "node_find getter key (node_fastDB node) = Err err" "err \<noteq> node_ErrDataNotFound"
      using node_find_Ok by (cases "node_find getter key (node_fastDB node)") (auto simp: answers_def val_of_def)
    with False show ?thesis by (auto simp: fetchData_def)
  qed (simp add: fetchData_def)
  with all show ?thesis by auto
qed

theorem fetchData_no_answer_witness:
  "{(v, e). \<exists>node'. (v, e, node') \<in> fetchData (\<lambda>_. Err (Errorf ''refused'')) ''k''
      ((node_New ''a:1'' ''a:2'' ''m:1'')\<lparr>node_dbs := [''d:1'']\<rparr>)} = {([], Some ErrDatabaseQueryTimeout)}"
  by (rule fetchData_no_answer) (simp_all add: node_New_def answers_def node_find_def val_of_def)

text \<open>
  What a read changes of the node. In every interleaving, and whenever the node is looked at after
  fetchData returned, only the fast database may differ: it is the one it was, none, or a known
  database that answered the read.
\<close>

lemma fetchData_node:
  assumes "(v, e, node') \<in> fetchData getter key node"
  shows "\<exists>f \<in> {node_fastDB node, []} \<union> {u \<in> set (node_dbs node). answers node_ErrDataNotFound (node_find getter key) u}.
    node' = node\<lparr>node_fastDB := f\<rparr>"
  using assms
proof (cases rule: fetchData_cases)
  case (All n1)
  from node_tryAll_node [OF All(1)] All(2) show ?thesis by (fastforce simp: node_setFastDB_def)
qed auto

lemma fetchData_node_witness:
  "\<exists>node'. ([], Some ErrDatabaseQueryTimeout, node') \<in> fetchData one_db ''k'' (node_New ''a:1'' ''a:2'' ''m:1''\<lparr>node_dbs := [''d:1'']\<rparr>)
    \<and> (\<exists>f\<in>{[], ''d:1''}. node' = node_New ''a:1'' ''a:2'' ''m:1''\<lparr>node_dbs := [''d:1''], node_fastDB := f\<rparr>)"
proof -
  let ?n = "node_New ''a:1'' ''a:2'' ''m:1''\<lparr>node_dbs := [''d:1'']\<rparr>"
  obtain n where "([], Some ErrDatabaseQueryTimeout, n) \<in> node_tryAllDBFind one_db ''k'' ?n"
    using node_returns_tryAll [OF fan_returns_timeout, of ?n one_db "''k''"] by auto
  then have f: "([], Some ErrDatabaseQueryTimeout, n) \<in> fetchData one_db ''k'' ?n" by (simp add: fetchData_def node_New_def)
  from fetchData_node [OF f] f show ?thesis by (auto simp: node_New_def)
qed

end
