(* ===== verification/Cluster.thy ===== *)
theory Cluster
  imports Service CacheNode
begin

text \<open>
  How a database becomes known: a new node registers its HTTP address and asks the leader to join
  (\<open>db/node/service/service.go\<close>); the leader adds it to the raft group and publishes the group in the meta
  store (\<open>updatePeers\<close>, \<open>db/master/master.go\<close>); the cache master reads the list in its heartbeat and posts it to its nodes
  (\<open>cache/master/master.go\<close>), which take it over (\<open>cache/node/node.go\<close>). The pieces are those of the
  components; the network is what connects them: the post of one side is answered by the handler of the other.
\<close>

section \<open>Joining\<close>

lemma join_body: "valid_utf8 (raftAddr svc) \<Longrightarrow>
    ctx_BindJSON [(''addr'', FString)] (joinParams svc) new_ctx = (new_ctx, Ok [(''addr'', JStr (raftAddr svc))])"
  by (simp add: joinParams_def ctx_BindJSON_new json_Decode_print find_field_def)

text \<open>The leader's answer to the join request that a node sends, with its effect on the raft group.\<close>

lemma join_served:
  assumes "raftAddr leader = raft_Leader s" and "valid_utf8 (raftAddr new)"
  shows "handleJoin (raft_store stats env fut ap) leader s (joinParams new) new_ctx =
    (case ap (raftAddr new) of
       Inl err \<Rightarrow> (ctx_JSON 500 (json_of_Status StatusInternalError) new_ctx, s, False)
     | Inr peers \<Rightarrow> (ctx_JSON 200 (json_of_Status StatusOK) new_ctx, s\<lparr>raft_Peers := Ok peers\<rparr>, True))"
  using assms by (simp add: handleJoin_def join_body string_field_def store_Join_def split: sum.split)

lemma serve_join: "serve S svc s ''POST'' ''/join'' body =
    (let (ctx, s', _) = handleJoin S svc s body new_ctx in Some (ctx_response ctx, s'))"
  by (simp add: serve_def route_of_def registered_def HasPrefix_def)

text \<open>A node that finds a peer list in which somebody answers its join request starts, registered.\<close>

lemma Start_joins:
  assumes "meta_store M up kv" and "up m" and "fetchPeers M m = Ok ps" and "ps \<noteq> []"
    and "Store_Open S False sn = (None, sn)"
    and "x \<in> set ps" and "x \<noteq> httpAddr svc" and "post (MakeURL x @ ''/join'') (joinParams svc) = Ok resp" and "StatusCode resp = 200"
  shows "\<exists>m1. Start S M post svc sn m = Ok (sn, m1) \<and> up m1
    \<and> kv m1 = (kv m)(httpAddrKeyOfRaftAddr (raftAddr svc) \<mapsto> httpAddr svc)"
proof -
  obtain m1 where m1: "meta_Put M m (httpAddrKeyOfRaftAddr (raftAddr svc)) (httpAddr svc) = (None, m1)" "up m1"
      "kv m1 = (kv m)(httpAddrKeyOfRaftAddr (raftAddr svc) \<mapsto> httpAddr svc)"
    using meta_store.Put_cases [OF assms(1,2)] by blast
  have reg: "RegisterPeer M m (raftAddr svc) (httpAddr svc) = (None, m1)" using m1(1) by (simp add: RegisterPeer_def)
  have "fetchPeers M m1 = Ok ps"
    using meta_store.Register_lookup(3) [OF assms(1,2) reg] assms(3) by simp
  moreover have "tryToJoin_loop post svc ps = None" using assms(6-9) unfolding tryToJoin_loop_None by blast
  ultimately have "Start S M post svc sn m = Ok (sn, m1)"
    using reg assms(4,5) by (simp add: Start_def register_def Peers_def tryToJoin_def)
  with m1 show ?thesis by blast
qed

section \<open>Properties\<close>

text \<open>
  C10: a database that joins is published. On a reachable etcd with a peer list that has the leader of
  the raft group, let a new node start whose join request reaches the leader, and let raft add it to the group (which
  is then rs) of otherwise registered nodes. Then Start succeeds, the leader answers with 200, and once the leader's
  updatePeers has run, the published list has the HTTP addresses of the whole group,
  the new one included.
\<close>

theorem join_is_published:
  assumes "etcd_client g p up kv" and "up m" and "M = etcd_meta g p"
    and "kv m raftNodesKey = Some (marshal_strings ps)" and "\<forall>x\<in>set ps. valid_utf8 x"
    and "httpAddr leader \<in> set ps" and "httpAddr leader \<noteq> httpAddr new"
    and "raftAddr leader = raft_Leader s" and "valid_utf8 (raftAddr new)" and "valid_utf8 (httpAddr new)"
    and "ap (raftAddr new) = Ok rs" and "raftAddr new \<in> set rs"
    and "\<forall>r\<in>set rs. r \<noteq> raftAddr new \<longrightarrow> (\<exists>h. kv m (httpAddrKeyOfRaftAddr r) = Some h \<and> valid_utf8 h)"
    and "Store_Open S False sn = (None, sn)"
    and "\<forall>resp s'. serve (raft_store stats env fut ap) leader s ''POST'' ''/join'' (joinParams new) = Some (resp, s')
      \<longrightarrow> post (MakeURL (httpAddr leader) @ ''/join'') (joinParams new) = Ok resp"
  shows "\<exists>m1 resp s' m2 hs. Start S M post new sn m = Ok (sn, m1)
    \<and> serve (raft_store stats env fut ap) leader s ''POST'' ''/join'' (joinParams new) = Some (resp, s') \<and> StatusCode resp = 200
    \<and> updatePeers (raft_store stats env fut ap) M leader s' m1 = (None, m2) \<and> Peers M m2 = Ok (sort hs)
    \<and> list_all2 (\<lambda>r h. PeerHTTPAddr M m1 r = Ok h) rs hs \<and> httpAddr new \<in> set hs"
proof -
  have M: "meta_store M up kv" using etcd_meta_store [OF assms(1)] assms(3) by simp
  let ?s = "s\<lparr>raft_Peers := Ok rs\<rparr>" and ?resp = "answer 200 (json_of_Status StatusOK)"
  have served: "serve (raft_store stats env fut ap) leader s ''POST'' ''/join'' (joinParams new) = Some (?resp, ?s)"
    using assms(8,9,11) by (simp add: serve_join join_served)
  moreover have "ps \<noteq> []" using assms(6) by auto
  moreover have "fetchPeers M m = Ok ps"
    using assms(2,4,5) by (simp add: fetchPeers_def meta_store.Get_kv [OF M] json_simps)
  ultimately obtain m1 where m1: "Start S M post new sn m = Ok (sn, m1)" "up m1"
      "kv m1 = (kv m)(httpAddrKeyOfRaftAddr (raftAddr new) \<mapsto> httpAddr new)"
    using Start_joins [OF M assms(2) _ _ assms(14,6,7), where post = post and resp = ?resp] assms(15) by auto
  let ?addr = "\<lambda>r. the (kv m1 (httpAddrKeyOfRaftAddr r))"
  have known: "\<forall>r\<in>set rs. kv m1 (httpAddrKeyOfRaftAddr r) \<noteq> None" "\<forall>h\<in>set (map ?addr rs). valid_utf8 h"
    using assms(10,13) m1(3) by auto
  have look: "peer_addrs M m1 rs = Ok (map ?addr rs)" using known(1) by (simp add: registered_addrs [OF M m1(2)])
  then have "updatePeers (raft_store stats env fut ap) M leader ?s m1 = UpdatePeers M m1 (map ?addr rs)"
    using assms(12) by (auto simp: updatePeers_def)
  moreover note up = meta_store.UpdatePeers_has [OF M m1(2) known(2)]
  moreover have "Peers M (snd (UpdatePeers M m1 (map ?addr rs))) = Ok (sort (map ?addr rs))"
    using meta_store.fetchPeers_has [OF M up(2)] by (simp add: Peers_def)
  moreover have "httpAddr new \<in> set (map ?addr rs)" using assms(12) m1(3) by force
  ultimately show ?thesis
    using m1(1) served look unfolding peer_addrs_Ok by (intro exI conjI) (auto intro: prod_eqI)
qed

text \<open>
  C11: a heartbeat of the cache master tells each of its nodes the published databases. There is one body, the one
  the heartbeat posts to the node's /meta: whatever the network does and in whatever order the goroutines of the
  heartbeat run, the node stays in the map exactly when the post of this body is answered 200. And it tells
  a cache node that gets it, whatever that node's state, the published databases and the groupcache addresses of all nodes
  the master had: the node answers 200 and then has exactly these two lists, sorted.
\<close>

theorem heartbeat_informs_node:
  assumes "etcd_client g p up kv" and "up m" and "M = etcd_meta g p"
    and "Peers M m = Ok ds" and "\<forall>d\<in>set ds. valid_utf8 d"
    and "fetchNodesMap M m = Ok (nodesMap cm)" and "nm_ok (nodesMap cm)" and "node \<in> set (map_keys (nodesMap cm))"
  shows "\<exists>body.
      (\<forall>post order. set (order (httpAddrs (nodesMap cm))) = set (httpAddrs (nodesMap cm)) \<longrightarrow>
         node \<in> set (map_keys (nodesMap (fst (cm_heartbeat M post order (cm, m)))))
           = (\<exists>res. post (MakeURL node @ ''/meta'') body = Ok res \<and> StatusCode res = 200))
    \<and> (\<forall>nd. \<exists>ctx nd'. handleMeta body nd new_ctx = (ctx, nd') \<and> StatusCode (ctx_response ctx) = 200
         \<and> node_dbs nd' = sort ds \<and> node_peers nd' = nodeAddrs (nodesMap cm))"
proof (intro exI [of _ "print_json (json_of_PeerParam \<lparr>param_Peers = nodeAddrs (nodesMap cm), param_DBs = ds\<rparr>)"] conjI allI impI)
  let ?nm = "nodesMap cm"
  let ?body = "print_json (json_of_PeerParam \<lparr>param_Peers = nodeAddrs ?nm, param_DBs = ds\<rparr>)"
  have M: "meta_store M up kv" using etcd_meta_store [OF assms(1)] assms(3) by simp
  fix post and order :: "string list \<Rightarrow> string list"
  assume ord: "set (order (httpAddrs ?nm)) = set (httpAddrs ?nm)"
  have "meta_store.cm_inv M up (cm, m)" using assms(2,6,7) by (simp add: meta_store.cm_inv_def [OF M])
  from meta_store.heartbeat_nodes [OF M this, of post "nodeAddrs ?nm" "order (httpAddrs ?nm)"] ord assms(4)
  have "nodesMap (fst (cm_heartbeat M post order (cm, m)))
      = filter (\<lambda>p. \<not> (fst p \<in> set (map_keys ?nm) \<and> node_fails post (nodeAddrs ?nm) (Ok ds) (fst p))) ?nm"
    by (simp add: cm_heartbeat_def Let_def)
  with assms(8) have "node \<in> set (map_keys (nodesMap (fst (cm_heartbeat M post order (cm, m)))))
      = (\<not> node_fails post (nodeAddrs ?nm) (Ok ds) node)"
    by (auto simp: map_keys_def)
  then show "node \<in> set (map_keys (nodesMap (fst (cm_heartbeat M post order (cm, m)))))
      = (\<exists>res. post (MakeURL node @ ''/meta'') ?body = Ok res \<and> StatusCode res = 200)"
    by (simp add: node_answers)
next
  fix nd
  let ?nm = "nodesMap cm"
  let ?body = "print_json (json_of_PeerParam \<lparr>param_Peers = nodeAddrs ?nm, param_DBs = ds\<rparr>)"
  have "gomap_wf ?nm" "utf8_map ?nm" using assms(7) by (simp_all add: nm_ok_def)
  then have u: "\<forall>x\<in>set (nodeAddrs ?nm) \<union> set ds. valid_utf8 x"
    using assms(5) utf8_map_set [of ?nm] by (auto simp: nodeAddrs_def)
  obtain ctx nd' where h: "handleMeta ?body nd new_ctx = (ctx, nd')" by fastforce
  have "sort (nodeAddrs ?nm) = nodeAddrs ?nm" by (simp add: nodeAddrs_def sorted_sort_id)
  with h handleMeta_result [OF u h] show "\<exists>ctx nd'. handleMeta ?body nd new_ctx = (ctx, nd') \<and> StatusCode (ctx_response ctx) = 200
      \<and> node_dbs nd' = sort ds \<and> node_peers nd' = nodeAddrs ?nm"
    by simp
qed

section \<open>Witnesses\<close>

text \<open>A group of one, at r:1 and h:1, that r:2 and h:2 joins.\<close>

theorem join_is_published_witness:
  "\<exists>m1 s' m2. Start mock_store_if (etcd_meta mem_Get mem_Put) (\<lambda>u b. if u = ''http://h:1/join'' then Ok (answer 200 (json_of_Status StatusOK)) else Err (Errorf ''refused''))
      \<lparr>raftAddr = ''r:2'', httpAddr = ''h:2''\<rparr> NewMockStore
      [(httpAddrKeyOfRaftAddr ''r:1'', ''h:1''), (raftNodesKey, marshal_strings [''h:1''])] = Ok (NewMockStore, m1)
    \<and> updatePeers (raft_store (\<lambda>_. []) \<lparr>ResolveTCPAddr = None, NewTCPTransport = None, peerStore_Peers = Ok [],
         NewFileSnapshotStore = None, NewBoltStore_err = None, NewRaft = None\<rparr> None (\<lambda>a. Ok [''r:1'', a])) (etcd_meta mem_Get mem_Put) svc1 s' m1 = (None, m2)
    \<and> (\<exists>qs. Peers (etcd_meta mem_Get mem_Put) m2 = Ok qs \<and> ''h:2'' \<in> set qs)"
proof -
  let ?post = "\<lambda>u b. if u = ''http://h:1/join'' then Ok (answer 200 (json_of_Status StatusOK)) else Err (Errorf ''refused'')"
  let ?env = "\<lparr>ResolveTCPAddr = None, NewTCPTransport = None, peerStore_Peers = Ok [],
         NewFileSnapshotStore = None, NewBoltStore_err = None, NewRaft = None\<rparr>"
  let ?new = "\<lparr>raftAddr = ''r:2'', httpAddr = ''h:2''\<rparr>" and ?m = "[(httpAddrKeyOfRaftAddr ''r:1'', ''h:1''), (raftNodesKey, marshal_strings [''h:1''])]"
  have "MakeURL ''h:1'' = ''http://h:1''" by (simp add: MakeURL_def HasPrefix_def TrimSuffix_def)
  then have net: "\<forall>resp s'. serve (raft_store (\<lambda>_. []) ?env None (\<lambda>a. Ok [''r:1'', a])) svc1 (leading []) ''POST'' ''/join'' (joinParams ?new) = Some (resp, s')
      \<longrightarrow> ?post (MakeURL (httpAddr svc1) @ ''/join'') (joinParams ?new) = Ok resp"
    by (simp add: serve_join join_served)
  note join_is_published [where post = ?post and leader = svc1 and new = ?new and s = "leading []" and stats = "\<lambda>_. []" and env = ?env
      and fut = None and ap = "\<lambda>a. Ok [''r:1'', a]" and m = ?m and ps = "[''h:1'']" and rs = "[''r:1'', ''r:2'']"
      and S = mock_store_if and sn = NewMockStore, OF mem_etcd_client _ refl]
  with net show ?thesis by (fastforce simp: mock_store_if_def)
qed

text \<open>A master with one node and one published database.\<close>

theorem heartbeat_informs_node_witness:
  "\<exists>body. (\<forall>post. ''http://a:1'' \<in> set (map_keys (nodesMap (fst (cm_heartbeat (etcd_meta mem_Get mem_Put) post id
        (\<lparr>nodesMap = [(''http://a:1'', ''http://a:2'')], cm_dbs = [], cm_addr = ''c:1''\<rparr>,
         [(raftNodesKey, marshal_strings [''h:1'']), (cacheNodesKey, marshal_map [(''http://a:1'', ''http://a:2'')])])))))
      = (\<exists>res. post (MakeURL ''http://a:1'' @ ''/meta'') body = Ok res \<and> StatusCode res = 200))
    \<and> (\<exists>ctx nd'. handleMeta body (node_New ''a:1'' ''a:2'' ''m:1'') new_ctx = (ctx, nd') \<and> node_dbs nd' = [''h:1'']
         \<and> node_peers nd' = [''http://a:2''])"
proof -
  let ?M = "etcd_meta mem_Get mem_Put"
  let ?nm = "[(''http://a:1'', ''http://a:2'')]"
  let ?m = "[(raftNodesKey, marshal_strings [''h:1'']), (cacheNodesKey, marshal_map ?nm)]"
  let ?cm = "\<lparr>nodesMap = ?nm, cm_dbs = [], cm_addr = ''c:1''\<rparr>"
  have nm: "nm_ok ?nm"
    using nm_ok_simps(2) [OF nm_ok_simps(1), of "''http://a:1''" "''http://a:2''"] by simp
  then have "unmarshal_map (marshal_map ?nm) = Ok ?nm" by (simp add: nm_ok_def json_simps)
  then have stored: "Peers ?M ?m = Ok [''h:1'']" "fetchNodesMap ?M ?m = Ok (nodesMap ?cm)"
    by (simp_all add: Peers_def fetchPeers_def fetchNodesMap_def etcd_meta_def etcd_Get_def mem_Get_def json_simps)
  from heartbeat_informs_node [OF mem_etcd_client _ refl stored(1) _ stored(2), of "''http://a:1''"] nm
  obtain body where b: "\<forall>post order. set (order (httpAddrs ?nm)) = set (httpAddrs ?nm) \<longrightarrow>
         ''http://a:1'' \<in> set (map_keys (nodesMap (fst (cm_heartbeat ?M post order (?cm, ?m)))))
           = (\<exists>res. post (MakeURL ''http://a:1'' @ ''/meta'') body = Ok res \<and> StatusCode res = 200)"
    and n: "\<forall>nd. \<exists>ctx nd'. handleMeta body nd new_ctx = (ctx, nd') \<and> StatusCode (ctx_response ctx) = 200
         \<and> node_dbs nd' = sort [''h:1''] \<and> node_peers nd' = nodeAddrs ?nm" by auto
  show ?thesis
    using b spec [OF n, of "node_New ''a:1'' ''a:2'' ''m:1''"]
    by (intro exI [of _ body]) (auto simp: nodeAddrs_def)
qed

end
