(* ===== verification/ReadPath.thy ===== *)
theory ReadPath
  imports Client Cluster
begin

text \<open>
  The way of a value through the HTTP interfaces: what the database service answers to the write of the client and to the
  read of a cache node, and what the cache node makes of the answer. A request is given by its decoded path;
  how a URL leads to one is the matter of \<open>HttpNet\<close>.
\<close>

definition cache_get_path :: "string \<Rightarrow> string" where
  "cache_get_path key = ''/key/'' @ key"

definition db_get_path :: "string \<Rightarrow> string" where
  "db_get_path key = ''/i/key/'' @ key"

lemma serve_get:
  assumes "key \<noteq> []" and "CHR ''/'' \<notin> set key"
  shows "serve S svc s ''GET'' (db_get_path key) body = Some (ctx_response (handleGet S svc s key new_ctx), s)"
  using assms by (simp add: serve_def route_of_def registered_def HasPrefix_def db_get_path_def)

lemma node_key_route: "node_route_of ''GET'' (cache_get_path key) = NodeKey key \<longleftrightarrow> key \<noteq> [] \<and> CHR ''/'' \<notin> set key"
  by (auto simp: node_route_of_def node_registered_def HasPrefix_def cache_get_path_def split: option.splits)

lemma serve_post: "serve S svc s ''POST'' ''/key'' body =
    (let (ctx, s') = handleSet S svc s body new_ctx in Some (ctx_response ctx, s'))"
  by (simp add: serve_def route_of_def registered_def HasPrefix_def)

text \<open>What a fill reads.\<close>

lemma fill_reads:
  assumes "key \<noteq> []" and "CHR ''/'' \<notin> set key"
    and "serve (raft_store (\<lambda>_. []) env None ap) svc s ''GET'' (db_get_path key) [] = Some (resp, s')"
    and "node_find (\<lambda>url. Ok resp) key u = Ok b"
  shows "\<exists>v. map_of (kvm s) key = Some v \<and> v \<noteq> [] \<and> b = print_json (json_of_kvResp key v)"
proof -
  have resp: "StatusCode resp = 200" "Body resp = Ok b" using assms(4) by (auto simp: node_find_Ok)
  have "resp = ctx_response (handleGet (raft_store (\<lambda>_. []) env None ap) svc s key new_ctx)"
    using assms(1-3) by (auto simp: serve_get)
  with assms(1) have "resp = (if raftAddr svc \<noteq> raft_Leader s then answer 400 (json_of_Status StatusNotLeaderError)
      else if map_of (kvm s) key = None \<or> map_of (kvm s) key = Some [] then answer 404 (json_of_Status StatusKeyNotFound)
      else answer 200 (json_of_kvResp key (the (map_of (kvm s) key))))"
    by (simp add: get_response)
  with resp show ?thesis by (auto split: if_splits)
qed

abbreviation env1 :: open_env where
  "env1 \<equiv> \<lparr>ResolveTCPAddr = None, NewTCPTransport = None, peerStore_Peers = Ok [],
     NewFileSnapshotStore = None, NewBoltStore_err = None, NewRaft = None\<rparr>"

abbreviation svc2 :: Service where
  "svc2 \<equiv> \<lparr>raftAddr = ''r:2'', httpAddr = ''h:2''\<rparr>"

lemma kv_body_params: "valid_utf8 k \<Longrightarrow> valid_utf8 v \<Longrightarrow> set_params (kv_body k v) = Some (k, v)"
  unfolding kv_body_def by (rule set_params_kv)

lemma post_committed:
  assumes "raftAddr svc = raft_Leader s" and "raft_State s = Leader" and "valid_utf8 k" and "valid_utf8 v"
  shows "serve (raft_store stats env None ap) svc s ''POST'' ''/key'' (kv_body k v) =
    Some (answer 200 (json_of_Status StatusOK), s\<lparr>kvm := snd (applyAdd k v (kvm s))\<rparr>)"
  using assms by (simp add: serve_post handleSet_eq kv_body_params store_Add_eq)

lemma get_stored:
  assumes "raftAddr svc = raft_Leader s" and "store_contents s k = Some v" and "v \<noteq> []" and "k \<noteq> []" and "CHR ''/'' \<notin> set k"
  shows "serve (raft_store stats env None ap) svc s ''GET'' (db_get_path k) [] = Some (answer 200 (json_of_kvResp k v), s)"
  using assms by (simp add: serve_get get_response)

lemma print_json_not_Nil: "print_json (json_of_kvResp k v) \<noteq> []"
  by (simp add: json_of_kvResp_def print_json.simps)

lemma find_body: "node_find (\<lambda>url. Ok (answer 200 (json_of_kvResp k v))) key u = Ok (print_json (json_of_kvResp k v))"
  by (simp add: node_find_Ok print_json_not_Nil)

end
