(* ===== verification/Replication.thy ===== *)
theory Replication
  imports ReadPath
begin

text \<open>
  The storage side of the system: database nodes with their replicas of the store, and the log that raft commits.
  The raft library is taken at its word: there is one log of committed entries, and every replica applies it
  in order, from the start or from a snapshot. Everything else may happen in any order (\<open>cl_event\<close>):

  \<^item> a write request to any node, with the outcome of its future (\<open>Write\<close>); a future ends without an
    error when its entry is committed and the leader, which has applied all earlier ones, has applied it;
  \<^item> an entry that is committed although its future was not waited for or had failed (\<open>Commit\<close>);
  \<^item> a replica that applies its next entry (\<open>ApplyNext\<close>), or is restored from a snapshot of another one (\<open>Install\<close>);
  \<^item> a node that writes a snapshot to its disk (\<open>TakeSnapshot\<close>), and one that crashes and starts again, with nothing but that
    snapshot (\<open>Restart\<close>);
  \<^item> a node that changes its raft state or its idea of the leader (\<open>Elect\<close>), so that several may think they lead.

  Nodes that lag behind or are no longer the leader may thus answer reads.
\<close>

section \<open>Model\<close>

text \<open>\<open>rep_snapshot\<close> is the latest snapshot on disk: the number of entries it stands for, and its bytes.\<close>

record replica =
  rep_svc :: Service
  rep_store :: store
  rep_applied :: nat
  rep_snapshot :: "(nat \<times> string) option"

record cluster =
  committed_log :: "string list"
  cl_replicas :: "replica list"

datatype cl_event =
    Write nat error string
  | Commit string string
  | ApplyNext nat
  | Install nat nat
  | TakeSnapshot nat
  | Restart nat
  | Elect nat RaftState string

text \<open>The log entry of a write request that a node accepts.\<close>

definition write_entry :: "Service \<Rightarrow> store \<Rightarrow> string \<Rightarrow> string list" where
  "write_entry svc s body =
     (if raftAddr svc \<noteq> raft_Leader s \<or> raft_State s \<noteq> Leader then []
      else case set_params body of None \<Rightarrow> [] | Some (k, v) \<Rightarrow> [encode_command (add_command k v)])"

definition set_replica :: "nat \<Rightarrow> replica \<Rightarrow> cluster \<Rightarrow> cluster" where
  "set_replica i r c = c\<lparr>cl_replicas := (cl_replicas c)[i := r]\<rparr>"

definition cl_write :: "open_env \<Rightarrow> nat \<Rightarrow> error \<Rightarrow> string \<Rightarrow> cluster \<Rightarrow> cluster" where
  "cl_write env i fut body c = (let r = cl_replicas c ! i in
     case serve (raft_store (\<lambda>_. []) env fut (\<lambda>a. Ok [a])) (rep_svc r) (rep_store r) ''POST'' ''/key'' body of
       None \<Rightarrow> c
     | Some (resp, s') \<Rightarrow>
         (let es = (if fut = None then write_entry (rep_svc r) (rep_store r) body else [])
          in set_replica i (r\<lparr>rep_store := s', rep_applied := rep_applied r + length es\<rparr>)
               (c\<lparr>committed_log := committed_log c @ es\<rparr>)))"

definition cl_apply :: "nat \<Rightarrow> cluster \<Rightarrow> cluster" where
  "cl_apply i c = (let r = cl_replicas c ! i in
     case fsm_step (committed_log c ! rep_applied r) (kvm (rep_store r)) of
       Inl panic \<Rightarrow> c
     | Inr m \<Rightarrow> set_replica i (r\<lparr>rep_store := (rep_store r)\<lparr>kvm := m\<rparr>, rep_applied := rep_applied r + 1\<rparr>) c)"

definition snapshot_of :: "replica \<Rightarrow> nat \<times> string" where
  "snapshot_of r = (case fsmSnapshot_Persist None None (fsm_Snapshot (kvm (rep_store r))) of
     (err, bytes, cancelled) \<Rightarrow> (rep_applied r, bytes))"

text \<open>A store that is restored from a snapshot; a snapshot that cannot be decoded is refused.\<close>

definition restore_from :: "nat \<times> string \<Rightarrow> replica \<Rightarrow> replica option" where
  "restore_from snap r = (case fsm_Restore (snd snap) (kvm (rep_store r)) of
     (Some _, _) \<Rightarrow> None
   | (None, m) \<Rightarrow> Some (r\<lparr>rep_store := (rep_store r)\<lparr>kvm := m\<rparr>, rep_applied := fst snap, rep_snapshot := Some snap\<rparr>))"

definition cl_install :: "nat \<Rightarrow> nat \<Rightarrow> cluster \<Rightarrow> cluster" where
  "cl_install i j c = (case restore_from (snapshot_of (cl_replicas c ! i)) (cl_replicas c ! j) of
     None \<Rightarrow> c | Some r \<Rightarrow> set_replica j r c)"

definition cl_restart :: "nat \<Rightarrow> cluster \<Rightarrow> cluster" where
  "cl_restart i c = (let r = cl_replicas c ! i;
       r0 = r\<lparr>rep_store := (rep_store r)\<lparr>kvm := [], raft_State := Follower, raft_Leader := []\<rparr>, rep_applied := 0\<rparr>
     in case rep_snapshot r of
       None \<Rightarrow> set_replica i r0 c
     | Some snap \<Rightarrow> (case restore_from snap r0 of None \<Rightarrow> set_replica i r0 c | Some r' \<Rightarrow> set_replica i r' c))"

fun cl_step :: "open_env \<Rightarrow> cl_event \<Rightarrow> cluster \<Rightarrow> cluster" where
  "cl_step env (Write i fut body) c =
     (if i < length (cl_replicas c) \<and> rep_applied (cl_replicas c ! i) = length (committed_log c) then cl_write env i fut body c else c)"
| "cl_step env (Commit k v) c =
     (if valid_utf8 k \<and> valid_utf8 v then c\<lparr>committed_log := committed_log c @ [encode_command (add_command k v)]\<rparr> else c)"
| "cl_step env (ApplyNext i) c =
     (if i < length (cl_replicas c) \<and> rep_applied (cl_replicas c ! i) < length (committed_log c) then cl_apply i c else c)"
| "cl_step env (Install i j) c = (if i < length (cl_replicas c) \<and> j < length (cl_replicas c) then cl_install i j c else c)"
| "cl_step env (TakeSnapshot i) c =
     (if i < length (cl_replicas c)
      then set_replica i ((cl_replicas c ! i)\<lparr>rep_snapshot := Some (snapshot_of (cl_replicas c ! i))\<rparr>) c else c)"
| "cl_step env (Restart i) c = (if i < length (cl_replicas c) then cl_restart i c else c)"
| "cl_step env (Elect i state leader) c =
     (if i < length (cl_replicas c)
      then set_replica i ((cl_replicas c ! i)\<lparr>rep_store := (rep_store (cl_replicas c ! i))\<lparr>raft_State := state, raft_Leader := leader\<rparr>\<rparr>) c
      else c)"

definition cl_init :: "Service list \<Rightarrow> cluster" where
  "cl_init svcs = \<lparr>committed_log = [],
     cl_replicas = map (\<lambda>svc. \<lparr>rep_svc = svc, rep_store = New_store, rep_applied = 0, rep_snapshot = None\<rparr>) svcs\<rparr>"

section \<open>What is committed\<close>

definition committed :: "string list \<Rightarrow> string \<Rightarrow> string option" where
  "committed ds = (case run_log fsm_step ds [] of Inl _ \<Rightarrow> Map.empty | Inr m \<Rightarrow> map_of m)"

lemma committed_append: "\<forall>d\<in>set (xs @ ys). is_add d \<Longrightarrow> committed xs \<subseteq>\<^sub>m committed (xs @ ys)"
proof -
  assume adds: "\<forall>d\<in>set (xs @ ys). is_add d"
  then obtain m where m: "run_log fsm_step xs [] = Ok m" using run_adds [of xs "[]"] by auto
  with adds run_adds [of ys m] show ?thesis by (auto simp: committed_def run_log_append)
qed

lemma committed_utf8: "committed ds k = Some v \<Longrightarrow> valid_utf8 k \<and> valid_utf8 v"
  using fsm.run_log_inv [of "[]" ds]
  by (auto simp: committed_def fsm_inv_def utf8_map_def split: sum.splits)

lemma is_add_command: "valid_utf8 k \<Longrightarrow> valid_utf8 v \<Longrightarrow> is_add (encode_command (add_command k v))"
  by (simp add: is_add_def json_simps utf8_command_def)

section \<open>Invariant\<close>

definition state_at :: "string list \<Rightarrow> nat \<Rightarrow> string gomap \<Rightarrow> bool" where
  "state_at ds n m \<longleftrightarrow> n \<le> length ds \<and> run_log fsm_step (take n ds) [] = Ok m"

definition snap_ok :: "string list \<Rightarrow> nat \<times> string \<Rightarrow> bool" where
  "snap_ok ds snap \<longleftrightarrow> (\<exists>m. state_at ds (fst snap) m \<and> snd snap = marshal_map (fsm_Snapshot m))"

definition rep_ok :: "string list \<Rightarrow> replica \<Rightarrow> bool" where
  "rep_ok ds r \<longleftrightarrow> state_at ds (rep_applied r) (kvm (rep_store r)) \<and> (\<forall>snap. rep_snapshot r = Some snap \<longrightarrow> snap_ok ds snap)"

definition cl_inv :: "cluster \<Rightarrow> bool" where
  "cl_inv c \<longleftrightarrow> (\<forall>d\<in>set (committed_log c). is_add d) \<and> (\<forall>r\<in>set (cl_replicas c). rep_ok (committed_log c) r)"

lemma rep_ok_append: "rep_ok ds r \<Longrightarrow> rep_ok (ds @ es) r"
  unfolding rep_ok_def snap_ok_def state_at_def by fastforce

lemma rep_ok_committed:
  assumes "rep_ok ds r" and "\<forall>d\<in>set ds. is_add d"
  shows "store_contents (rep_store r) \<subseteq>\<^sub>m committed ds"
proof -
  have "store_contents (rep_store r) = committed (take (rep_applied r) ds)" using assms(1) by (simp add: rep_ok_def state_at_def committed_def)
  then show ?thesis using committed_append [of "take (rep_applied r) ds" "drop (rep_applied r) ds"] assms(2) by simp
qed

lemma state_at_fsm_inv: "state_at ds n m \<Longrightarrow> fsm_inv m"
  using fsm.run_log_inv [of "[]" "take n ds" m] by (simp add: state_at_def)

lemma snapshot_ok: "rep_ok ds r \<Longrightarrow> snap_ok ds (snapshot_of r)"
  by (auto simp: snap_ok_def snapshot_of_def fsmSnapshot_Persist_def rep_ok_def)

text \<open>A snapshot of the log restores the state it was taken of, on any replica.\<close>

lemma restore_ok:
  assumes "snap_ok ds snap"
  shows "\<exists>m. restore_from snap r = Some (r\<lparr>rep_store := (rep_store r)\<lparr>kvm := m\<rparr>, rep_applied := fst snap, rep_snapshot := Some snap\<rparr>)
    \<and> state_at ds (fst snap) m"
proof -
  obtain m where m: "state_at ds (fst snap) m" "snd snap = marshal_map (fsm_Snapshot m)" using assms by (auto simp: snap_ok_def)
  then have "fsm_Restore (snd snap) (kvm (rep_store r)) = (None, m)" by (simp add: restore_persist state_at_fsm_inv)
  with m(1) show ?thesis by (intro exI [of _ m]) (simp add: restore_from_def)
qed

lemma restore_rep_ok: "snap_ok ds snap \<Longrightarrow> \<exists>r'. restore_from snap r = Some r' \<and> rep_ok ds r'"
  using restore_ok [of ds snap r] by (auto simp: rep_ok_def)

lemma cl_inv_extend:
  assumes "cl_inv c" and "\<forall>d\<in>set es. is_add d"
  shows "cl_inv (c\<lparr>committed_log := committed_log c @ es\<rparr>)"
proof -
  have "\<forall>d\<in>set (committed_log c @ es). is_add d" using assms by (auto simp: cl_inv_def)
  with assms(1) show ?thesis by (simp add: cl_inv_def rep_ok_append)
qed

lemma cl_inv_set: "cl_inv c \<Longrightarrow> rep_ok (committed_log c) r \<Longrightarrow> cl_inv (set_replica i r c)"
  using set_update_subset_insert [of "cl_replicas c" i r] by (auto simp: cl_inv_def set_replica_def)

text \<open>What a write does to the replica of the node is what its entry does.\<close>

lemma write_entry_add: "\<forall>d\<in>set (write_entry svc s body). is_add d"
proof (cases "set_params body")
  case (Some kv)
  obtain k v where "kv = (k, v)" by fastforce
  with Some set_params_utf8 [of body k v] show ?thesis by (simp add: write_entry_def is_add_command)
qed (simp add: write_entry_def)

lemma write_applies:
  assumes "serve (raft_store stats env fut ap) svc s ''POST'' ''/key'' body = Some (resp, s')"
  shows "run_log fsm_step (if fut = None then write_entry svc s body else []) (kvm s) = Ok (kvm s')"
proof -
  obtain ctx where h: "handleSet (raft_store stats env fut ap) svc s body new_ctx = (ctx, s')"
    using assms by (auto simp: serve_post split: prod.splits)
  show ?thesis
  proof (cases "set_params body")
    case None
    with h show ?thesis by (auto simp: handleSet_eq write_entry_def split: if_splits)
  next
    case (Some kv)
    obtain k v where kv: "kv = (k, v)" by fastforce
    with Some have u: "valid_utf8 k" "valid_utf8 v" using set_params_utf8 by blast+
    with Some kv h store_Add_eq [OF u, of fut s] fsm_Apply_add [OF u, of "kvm s"] show ?thesis
      by (auto simp: handleSet_eq write_entry_def fsm_step_def split: if_splits option.splits prod.splits)
  qed
qed

lemma cl_write_inv:
  assumes "cl_inv c" and "i < length (cl_replicas c)" and "rep_applied (cl_replicas c ! i) = length (committed_log c)"
  shows "cl_inv (cl_write env i fut body c)"
proof -
  let ?r = "cl_replicas c ! i"
  let ?es = "if fut = None then write_entry (rep_svc ?r) (rep_store ?r) body else []"
  obtain resp s' where sv: "serve (raft_store (\<lambda>_. []) env fut (\<lambda>a. Ok [a])) (rep_svc ?r) (rep_store ?r) ''POST'' ''/key'' body = Some (resp, s')"
    by (cases "handleSet (raft_store (\<lambda>_. []) env fut (\<lambda>a. Ok [a])) (rep_svc ?r) (rep_store ?r) body new_ctx") (simp add: serve_post)
  let ?c = "c\<lparr>committed_log := committed_log c @ ?es\<rparr>"
  have ok: "rep_ok (committed_log c) ?r" using assms(1,2) by (simp add: cl_inv_def)
  then have "run_log fsm_step (committed_log c) [] = Ok (kvm (rep_store ?r))" using assms(3) by (simp add: rep_ok_def state_at_def)
  moreover have "rep_ok (committed_log c @ ?es) ?r" by (rule rep_ok_append [OF ok])
  ultimately have "rep_ok (committed_log ?c) (?r\<lparr>rep_store := s', rep_applied := rep_applied ?r + length ?es\<rparr>)"
    using write_applies [OF sv] assms(3) by (simp add: rep_ok_def state_at_def run_log_append)
  moreover have "cl_inv ?c" by (rule cl_inv_extend [OF assms(1)]) (use write_entry_add in auto)
  ultimately show ?thesis using cl_inv_set [of ?c] by (simp add: cl_write_def Let_def sv)
qed

lemma cl_apply_inv:
  assumes "cl_inv c" and "i < length (cl_replicas c)" and "rep_applied (cl_replicas c ! i) < length (committed_log c)"
  shows "cl_inv (cl_apply i c)"
proof (cases "fsm_step (committed_log c ! rep_applied (cl_replicas c ! i)) (kvm (rep_store (cl_replicas c ! i)))")
  case (Inr m)
  let ?r = "cl_replicas c ! i"
  have "rep_ok (committed_log c) ?r" using assms(1,2) by (simp add: cl_inv_def)
  then have "rep_ok (committed_log c) (?r\<lparr>rep_store := (rep_store ?r)\<lparr>kvm := m\<rparr>, rep_applied := rep_applied ?r + 1\<rparr>)"
    using assms(3) Inr by (simp add: rep_ok_def state_at_def take_Suc_conv_app_nth run_log_append)
  with cl_inv_set [OF assms(1)] show ?thesis by (simp add: cl_apply_def Let_def Inr)
qed (use assms(1) in \<open>simp add: cl_apply_def\<close>)

lemma cl_replica_ok: "cl_inv c \<Longrightarrow> i < length (cl_replicas c) \<Longrightarrow> rep_ok (committed_log c) (cl_replicas c ! i)"
  by (simp add: cl_inv_def)

lemma cl_install_inv:
  assumes "cl_inv c" and "i < length (cl_replicas c)" and "j < length (cl_replicas c)"
  shows "cl_inv (cl_install i j c)"
proof -
  have snap: "snap_ok (committed_log c) (snapshot_of (cl_replicas c ! i))" by (rule snapshot_ok [OF cl_replica_ok [OF assms(1,2)]])
  then obtain r where r: "restore_from (snapshot_of (cl_replicas c ! i)) (cl_replicas c ! j) = Some r" "rep_ok (committed_log c) r"
    using restore_rep_ok by blast
  then show ?thesis by (simp add: cl_install_def cl_inv_set [OF assms(1)])
qed

lemma cl_restart_eq:
  assumes "cl_inv c" and "i < length (cl_replicas c)"
  shows "\<exists>r. cl_restart i c = set_replica i r c \<and> rep_ok (committed_log c) r"
proof (cases "rep_snapshot (cl_replicas c ! i)")
  case None
  then show ?thesis by (auto simp: cl_restart_def Let_def rep_ok_def state_at_def)
next
  case (Some snap)
  then have "snap_ok (committed_log c) snap" using cl_replica_ok [OF assms] by (simp add: rep_ok_def)
  then obtain r where "restore_from snap ((cl_replicas c ! i)\<lparr>rep_store := (rep_store (cl_replicas c ! i))\<lparr>kvm := [], raft_State := Follower,
      raft_Leader := []\<rparr>, rep_applied := 0\<rparr>) = Some r" "rep_ok (committed_log c) r"
    using restore_rep_ok by blast
  with Some show ?thesis by (auto simp: cl_restart_def Let_def)
qed

lemma cl_restart_inv: "cl_inv c \<Longrightarrow> i < length (cl_replicas c) \<Longrightarrow> cl_inv (cl_restart i c)"
  using cl_restart_eq cl_inv_set by metis

lemma cl_step_inv: "cl_inv c \<Longrightarrow> cl_inv (cl_step env ev c)"
proof (cases ev)
  case (Commit k v)
  assume "cl_inv c"
  with Commit cl_inv_extend [of c "[encode_command (add_command k v)]"] show ?thesis by (simp add: is_add_command)
next
  case (Elect i state leader)
  assume "cl_inv c"
  moreover from this have "rep_ok (committed_log c) (cl_replicas c ! i)" if "i < length (cl_replicas c)"
    using that by (simp add: cl_inv_def)
  ultimately show ?thesis using Elect by (simp add: cl_inv_set rep_ok_def)
next
  case (TakeSnapshot i)
  assume inv: "cl_inv c"
  have "rep_ok (committed_log c) ((cl_replicas c ! i)\<lparr>rep_snapshot := Some (snapshot_of (cl_replicas c ! i))\<rparr>)" if "i < length (cl_replicas c)"
    using cl_replica_ok [OF inv that] snapshot_ok [OF cl_replica_ok [OF inv that]] by (simp add: rep_ok_def)
  with TakeSnapshot inv show ?thesis by (simp add: cl_inv_set)
qed (simp_all add: cl_write_inv cl_apply_inv cl_install_inv cl_restart_inv)

lemma cl_init_inv: "cl_inv (cl_init svcs)"
  by (auto simp: cl_inv_def cl_init_def rep_ok_def state_at_def New_store_def)

lemma cl_run_inv: "cl_inv c \<Longrightarrow> cl_inv (fold (cl_step env) evs c)"
  by (induction evs arbitrary: c) (auto simp: cl_step_inv)

text \<open>The log only grows.\<close>

lemma cl_step_log: "\<exists>es. committed_log (cl_step env ev c) = committed_log c @ es"
  by (cases ev) (auto simp: cl_write_def cl_apply_def cl_install_def cl_restart_def set_replica_def Let_def
      split: option.split sum.split prod.split)

lemma cl_run_log: "\<exists>es. committed_log (fold (cl_step env) evs c) = committed_log c @ es"
proof (induction evs arbitrary: c)
  case (Cons ev evs)
  from cl_step_log [of env ev c] Cons [of "cl_step env ev c"] show ?case by auto
qed simp

section \<open>Recovery\<close>

lemma cl_step_length [simp]: "length (cl_replicas (cl_step env ev c)) = length (cl_replicas c)"
  by (cases ev) (auto simp: cl_write_def cl_apply_def cl_install_def cl_restart_def set_replica_def Let_def
      split: option.split sum.split prod.split)

lemma cl_run_length [simp]: "length (cl_replicas (fold (cl_step env) evs c)) = length (cl_replicas c)"
  by (induction evs arbitrary: c) simp_all

lemma apply_next:
  assumes "cl_inv c" and "i < length (cl_replicas c)" and "rep_applied (cl_replicas c ! i) < length (committed_log c)"
  shows "committed_log (cl_step env (ApplyNext i) c) = committed_log c"
    and "rep_applied (cl_replicas (cl_step env (ApplyNext i) c) ! i) = rep_applied (cl_replicas c ! i) + 1"
proof -
  have "is_add (committed_log c ! rep_applied (cl_replicas c ! i))" using assms by (simp add: cl_inv_def)
  then obtain m where "fsm_step (committed_log c ! rep_applied (cl_replicas c ! i)) (kvm (rep_store (cl_replicas c ! i))) = Ok m"
    using is_add_step by blast
  with assms(2,3) show "committed_log (cl_step env (ApplyNext i) c) = committed_log c"
      "rep_applied (cl_replicas (cl_step env (ApplyNext i) c) ! i) = rep_applied (cl_replicas c ! i) + 1"
    by (simp_all add: cl_apply_def set_replica_def Let_def)
qed

lemma catch_up:
  assumes "cl_inv c" and "i < length (cl_replicas c)" and "length (committed_log c) \<le> rep_applied (cl_replicas c ! i) + n"
  shows "committed_log (fold (cl_step env) (replicate n (ApplyNext i)) c) = committed_log c
    \<and> rep_applied (cl_replicas (fold (cl_step env) (replicate n (ApplyNext i)) c) ! i) = length (committed_log c)"
  using assms
proof (induction n arbitrary: c)
  case 0
  then show ?case using cl_replica_ok [of c i] by (simp add: rep_ok_def state_at_def)
next
  case (Suc n)
  let ?c = "cl_step env (ApplyNext i) c"
  show ?case
  proof (cases "rep_applied (cl_replicas c ! i) < length (committed_log c)")
    case True
    note a = apply_next [OF Suc.prems(1,2) True, of env]
    have "cl_inv ?c" by (rule cl_step_inv [OF Suc.prems(1)])
    from Suc.IH [OF this] Suc.prems a show ?thesis by (simp del: cl_step.simps)
  next
    case False
    then have "?c = c" by simp
    moreover have "length (committed_log c) \<le> rep_applied (cl_replicas c ! i) + n" using False by simp
    ultimately show ?thesis using Suc.IH [OF Suc.prems(1,2)] by (simp del: cl_step.simps)
  qed
qed

text \<open>
  C6: a node that crashes recovers. Let anything happen in the cluster, then restart a database node, which has lost its
  store, and let it restore its latest snapshot, if it has one, and apply the log from there on. It then has exactly the
  committed values, whenever the snapshot was taken and whether by the node itself or installed by another.
\<close>

theorem restart_recovers:
  assumes "c = fold (cl_step env) evs (cl_init svcs)" and "i < length svcs" and "length (committed_log c) \<le> n"
  shows "store_contents (rep_store (cl_replicas (fold (cl_step env) (Restart i # replicate n (ApplyNext i)) c) ! i))
    = committed (committed_log c)"
proof -
  have inv: "cl_inv c" using cl_run_inv [OF cl_init_inv] assms(1) by blast
  have i: "i < length (cl_replicas c)" using assms(1,2) by (simp add: cl_init_def)
  let ?c = "cl_step env (Restart i) c" and ?run = "fold (cl_step env) (replicate n (ApplyNext i))"
  obtain r where "?c = set_replica i r c" using cl_restart_eq [OF inv i] i by auto
  then have log: "committed_log ?c = committed_log c" by (simp add: set_replica_def)
  have c: "cl_inv ?c" by (rule cl_step_inv [OF inv])
  have up: "committed_log (?run ?c) = committed_log c \<and> rep_applied (cl_replicas (?run ?c) ! i) = length (committed_log c)"
    using catch_up [OF c, of i n env] i log assms(3) by (simp del: cl_step.simps)
  have "rep_ok (committed_log (?run ?c)) (cl_replicas (?run ?c) ! i)"
    by (rule cl_replica_ok [OF cl_run_inv [OF c]]) (use i in \<open>simp del: cl_step.simps fold_replicate\<close>)
  with up have "run_log fsm_step (committed_log c) [] = Ok (kvm (rep_store (cl_replicas (?run ?c) ! i)))"
    unfolding rep_ok_def state_at_def by (simp del: cl_step.simps fold_replicate)
  then show ?thesis by (simp add: committed_def del: cl_step.simps)
qed

theorem restart_recovers_witness:
  "store_contents (rep_store (cl_replicas (fold (cl_step env1) [Restart 0, ApplyNext 0]
     (fold (cl_step env1) [Commit ''k'' ''v'', ApplyNext 0, TakeSnapshot 0] (cl_init [svc1]))) ! 0)) ''k'' = Some ''v''"
proof -
  let ?c = "fold (cl_step env1) [Commit ''k'' ''v'', ApplyNext 0, TakeSnapshot 0] (cl_init [svc1])"
  have log: "committed_log ?c = [encode_command (add_command ''k'' ''v'')]"
    by (simp add: cl_init_def set_replica_def cl_apply_def Let_def split: sum.split)
  then have "committed (committed_log ?c) ''k'' = Some ''v''"
    by (simp add: committed_def fsm_step_def fsm_Apply_add applyAdd_def)
  with restart_recovers [OF refl, of 0 "[svc1]" env1 "[Commit ''k'' ''v'', ApplyNext 0, TakeSnapshot 0]" 1] log
  show ?thesis by (simp del: cl_step.simps)
qed

end
