(* ===== verification/Url.thy ===== *)
theory Url
  imports Json Urlutil
begin

text \<open>
  What the program uses of the package \<open>net/url\<close> of the Go standard library, as of the releases the vendored packages ask for
  (1.8, 1.9): \<open>Parse\<close>, by which \<open>http.Get\<close> and the doubles of \<open>utils/mock/http.go\<close> find the host and the decoded path of a request,
  and \<open>QueryEscape\<close>, by which groupcache writes a key into a URL. User and password are checked but not kept, nor is the raw
  path. Every error is some \<open>url.Error\<close>; which one does not matter to the program.

  The program writes keys into URLs without escaping them. \<open>key_reaches_server\<close> says for which keys that works.
\<close>

section \<open>Escapes\<close>

datatype encoding = encodePath | encodeHost | encodeZone | encodeUserPassword | encodeQueryComponent | encodeFragment

definition is_alnum :: "char \<Rightarrow> bool" where
  "is_alnum c \<longleftrightarrow> 48 \<le> code c \<and> code c \<le> 57 \<or> 65 \<le> code c \<and> code c \<le> 90 \<or> 97 \<le> code c \<and> code c \<le> 122"

text \<open>\<open>shouldEscape\<close> in the modes host, zone and query component.\<close>

definition host_escapes :: "char \<Rightarrow> bool" where
  "host_escapes c \<longleftrightarrow> \<not> is_alnum c \<and> c \<notin> set ''!$&()*+,;=:[]<>-_.~'' \<and> c \<noteq> CHR 0x27 \<and> c \<noteq> CHR 0x22"

definition query_escapes :: "char \<Rightarrow> bool" where
  "query_escapes c \<longleftrightarrow> \<not> is_alnum c \<and> c \<notin> set ''-_.~''"

definition url_error :: go_error where
  "url_error = Errorf ''url''"

definition escape_ok :: "encoding \<Rightarrow> nat \<Rightarrow> nat \<Rightarrow> bool" where
  "escape_ok mode a b =
     (if mode = encodeHost then 8 \<le> a \<or> a = 2 \<and> b = 5
      else if mode = encodeZone then a = 2 \<and> b = 5 \<or> a = 2 \<and> b = 0 \<or> \<not> host_escapes (char_of (16 * a + b))
      else True)"

fun unescape :: "encoding \<Rightarrow> string \<Rightarrow> string result" where
  "unescape mode [] = Ok []"
| "unescape mode (c # s) =
     (if c = CHR ''%'' then
        (case s of
           a # b # t \<Rightarrow>
             (case (hex_val a, hex_val b) of
                (Some x, Some y) \<Rightarrow>
                  if \<not> escape_ok mode x y then Err url_error
                  else (case unescape mode t of Inl e \<Rightarrow> Err e | Inr r \<Rightarrow> Ok (char_of (16 * x + y) # r))
              | _ \<Rightarrow> Err url_error)
         | _ \<Rightarrow> Err url_error)
      else if mode \<in> {encodeHost, encodeZone} \<and> code c < 0x80 \<and> host_escapes c then Err url_error
      else case unescape mode s of
        Inl e \<Rightarrow> Err e
      | Inr r \<Rightarrow> Ok ((if c = CHR ''+'' \<and> mode = encodeQueryComponent then CHR '' '' else c) # r))"

definition upper_hex :: "nat \<Rightarrow> char" where
  "upper_hex n = ''0123456789ABCDEF'' ! n"

definition escape_char :: "char \<Rightarrow> string" where
  "escape_char c =
     (if c = CHR '' '' then ''+''
      else if query_escapes c then [CHR ''%'', upper_hex (code c div 16), upper_hex (code c mod 16)]
      else [c])"

fun QueryEscape :: "string \<Rightarrow> string" where
  "QueryEscape [] = []"
| "QueryEscape (c # s) = escape_char c @ QueryEscape s"

section \<open>Parse\<close>

record url =
  Scheme :: string
  Opaque :: string
  Host :: string
  url_Path :: string
  RawQuery :: string
  Fragment :: string

text \<open>\<open>split\<close>: at the first occurrence of \<open>c\<close>, which is cut off or left with the second part.\<close>

definition split_url :: "string \<Rightarrow> char \<Rightarrow> bool \<Rightarrow> string \<times> string" where
  "split_url s c cutc = (takeWhile (\<lambda>x. x \<noteq> c) s,
     let t = dropWhile (\<lambda>x. x \<noteq> c) s in if cutc then tl t else t)"

definition scheme_char :: "char \<Rightarrow> bool" where
  "scheme_char c \<longleftrightarrow> is_alnum c \<or> c \<in> set ''+-.''"

definition is_letter :: "char \<Rightarrow> bool" where
  "is_letter c \<longleftrightarrow> is_alnum c \<and> 65 \<le> code c"

definition getscheme :: "string \<Rightarrow> (string \<times> string) result" where
  "getscheme s = (let p = takeWhile scheme_char s; t = dropWhile scheme_char s in
     if t = [] \<or> hd t \<noteq> CHR '':'' then Ok ([], s)
     else if p = [] then Err url_error
     else if is_letter (hd p) then Ok (p, tl t) else Ok ([], s))"

definition lower :: "char \<Rightarrow> char" where
  "lower c = (if 65 \<le> code c \<and> code c \<le> 90 then char_of (code c + 32) else c)"

definition validOptionalPort :: "string \<Rightarrow> bool" where
  "validOptionalPort s \<longleftrightarrow> s = [] \<or> hd s = CHR '':'' \<and> list_all (\<lambda>c. 48 \<le> code c \<and> code c \<le> 57) (tl s)"

text \<open>The part of a string before the last occurrence of \<open>c\<close> and the rest from there on.\<close>

definition split_last :: "char \<Rightarrow> string \<Rightarrow> (string \<times> string) option" where
  "split_last c s = (if c \<in> set s
     then (let n = length s - Suc (length (takeWhile (\<lambda>x. x \<noteq> c) (rev s))) in Some (take n s, drop n s))
     else None)"

text \<open>The index of the escaped percent sign that starts a zone.\<close>

fun split_zone :: "string \<Rightarrow> (string \<times> string) option" where
  "split_zone [] = None"
| "split_zone (c # s) = (if HasPrefix (c # s) ''%25'' then Some ([], c # s)
     else map_option (\<lambda>(a, b). (c # a, b)) (split_zone s))"

definition append_results :: "string result list \<Rightarrow> string result" where
  "append_results rs = foldr (\<lambda>r acc. case r of Inl e \<Rightarrow> Err e
     | Inr x \<Rightarrow> (case acc of Inl e \<Rightarrow> Err e | Inr y \<Rightarrow> Ok (x @ y))) rs (Ok [])"

definition parseHost :: "string \<Rightarrow> string result" where
  "parseHost h =
     (if HasPrefix h ''['' then
        (case split_last (CHR '']'') h of
           None \<Rightarrow> Err url_error
         | Some (before, rest) \<Rightarrow>
             if \<not> validOptionalPort (tl rest) then Err url_error
             else (case split_zone before of
                 Some (a, zone) \<Rightarrow> append_results [unescape encodeHost a, unescape encodeZone zone, unescape encodeHost rest]
               | None \<Rightarrow> unescape encodeHost h))
      else unescape encodeHost h)"

definition validUserinfo :: "string \<Rightarrow> bool" where
  "validUserinfo s = list_all (\<lambda>c. is_alnum c \<or> c \<in> set ''-._:~!$&()*+,;=%@'' \<or> c = CHR 0x27) s"

text \<open>The host of an authority, once user and password are checked.\<close>

definition parseAuthority :: "string \<Rightarrow> string result" where
  "parseAuthority a = (case split_last (CHR ''@'') a of
     None \<Rightarrow> parseHost a
   | Some (userinfo, rest) \<Rightarrow> (case parseHost (tl rest) of
       Inl e \<Rightarrow> Err e
     | Inr h \<Rightarrow>
         if \<not> validUserinfo userinfo then Err url_error
         else let (user, password) = split_url userinfo (CHR '':'') True in
           (case append_results [unescape encodeUserPassword user, unescape encodeUserPassword password] of
              Inl e \<Rightarrow> Err e | Inr _ \<Rightarrow> Ok h)))"

definition parse_rest :: "string \<Rightarrow> string \<Rightarrow> string \<Rightarrow> url result" where
  "parse_rest scheme rest query =
     (let u = \<lparr>Scheme = scheme, Opaque = [], Host = [], url_Path = [], RawQuery = query, Fragment = []\<rparr> in
      if \<not> HasPrefix rest ''/'' \<and> scheme \<noteq> [] then Ok (u\<lparr>Opaque := rest\<rparr>)
      else if \<not> HasPrefix rest ''/'' \<and> CHR '':'' \<in> set (takeWhile (\<lambda>c. c \<noteq> CHR ''/'') rest) then Err url_error
      else if HasPrefix rest ''//'' \<and> (scheme \<noteq> [] \<or> \<not> HasPrefix rest ''///'') then
        (let (authority, path) = split_url (drop 2 rest) (CHR ''/'') False in
         case parseAuthority authority of
           Inl e \<Rightarrow> Err e
         | Inr h \<Rightarrow> (case unescape encodePath path of Inl e \<Rightarrow> Err e | Inr p \<Rightarrow> Ok (u\<lparr>Host := h, url_Path := p\<rparr>)))
      else (case unescape encodePath rest of Inl e \<Rightarrow> Err e | Inr p \<Rightarrow> Ok (u\<lparr>url_Path := p\<rparr>)))"

definition parse_url :: "string \<Rightarrow> url result" where
  "parse_url s =
     (if s = ''*'' then Ok \<lparr>Scheme = [], Opaque = [], Host = [], url_Path = ''*'', RawQuery = [], Fragment = []\<rparr>
      else case getscheme s of
        Inl e \<Rightarrow> Err e
      | Inr (scheme, rest) \<Rightarrow> (let (path, query) = split_url rest (CHR ''?'') True in parse_rest (map lower scheme) path query))"

definition url_Parse :: "string \<Rightarrow> url result" where
  "url_Parse rawurl = (let (s, frag) = split_url rawurl (CHR ''#'') True in
     case parse_url s of
       Inl e \<Rightarrow> Err e
     | Inr u \<Rightarrow> (case unescape encodeFragment frag of Inl e \<Rightarrow> Err e | Inr f \<Rightarrow> Ok (u\<lparr>Fragment := f\<rparr>)))"

section \<open>Lemmas\<close>

text \<open>An address as the program publishes it: a name or number and a port.\<close>

definition host_char :: "char \<Rightarrow> bool" where
  "host_char c \<longleftrightarrow> is_alnum c \<or> c \<in> set ''-._~:''"

definition plain_host :: "string \<Rightarrow> bool" where
  "plain_host h \<longleftrightarrow> h \<noteq> [] \<and> list_all host_char h"

lemma host_char_safe: "host_char c \<Longrightarrow> \<not> host_escapes c \<and> c \<notin> set ''%/?#@[]''"
  by (auto simp: host_char_def host_escapes_def is_alnum_def)

lemma unescape_plain:
  "CHR ''%'' \<notin> set s \<Longrightarrow> mode \<notin> {encodeHost, encodeZone, encodeQueryComponent} \<Longrightarrow> unescape mode s = Ok s"
  by (induction s) auto

lemma unescape_host: "list_all host_char h \<Longrightarrow> unescape encodeHost h = Ok h"
  by (induction h) (auto dest: host_char_safe)

lemma unescape_length: "unescape mode s = Ok r \<Longrightarrow> length r \<le> length s \<and> (length r = length s \<longleftrightarrow> CHR ''%'' \<notin> set s)"
proof (induction mode s arbitrary: r rule: unescape.induct)
  case (2 mode c s)
  show ?case
  proof (cases "c = CHR ''%''")
    case True
    with 2 show ?thesis
      by (fastforce split: list.splits option.splits if_splits sum.splits)
  next
    case False
    with 2 show ?thesis by (auto split: if_splits sum.splits)
  qed
qed simp

lemma takeWhile_neq_append: "c \<notin> set xs \<Longrightarrow> takeWhile (\<lambda>x. x \<noteq> c) (xs @ ys) = xs @ takeWhile (\<lambda>x. x \<noteq> c) ys"
  by (induction xs) auto

lemma dropWhile_neq_append: "c \<notin> set xs \<Longrightarrow> dropWhile (\<lambda>x. x \<noteq> c) (xs @ ys) = dropWhile (\<lambda>x. x \<noteq> c) ys"
  by (induction xs) auto

lemma split_url_none: "c \<notin> set s \<Longrightarrow> split_url s c True = (s, [])"
  unfolding split_url_def by (induction s) auto

lemma plain_host_set: "plain_host h \<Longrightarrow> c \<in> set ''%/?#@[]'' \<Longrightarrow> c \<notin> set h"
  using host_char_safe by (auto simp: plain_host_def list_all_iff)

lemma parseHost_plain: "plain_host h \<Longrightarrow> parseHost h = Ok h"
proof -
  assume h: "plain_host h"
  then have "\<not> HasPrefix h ''[''" using plain_host_set [OF h, of "CHR ''[''"] HasPrefix_hd [of h "CHR ''[''" "[]"] by (cases h) auto
  with h show ?thesis by (simp add: parseHost_def plain_host_def unescape_host)
qed

lemma parseAuthority_plain: "plain_host h \<Longrightarrow> parseAuthority h = Ok h"
  using plain_host_set [of h "CHR ''@''"] by (simp add: parseAuthority_def split_last_def parseHost_plain)

lemma getscheme_http: "getscheme (''http:'' @ s) = Ok (''http'', s)"
  by (simp add: getscheme_def scheme_char_def is_letter_def is_alnum_def)

lemma parse_rest_http:
  assumes "plain_host h"
  shows "parse_rest ''http'' (''//'' @ h @ CHR ''/'' # r) query = (case unescape encodePath r of
    Inl e \<Rightarrow> Err e
  | Inr p \<Rightarrow> Ok \<lparr>Scheme = ''http'', Opaque = [], Host = h, url_Path = CHR ''/'' # p, RawQuery = query, Fragment = []\<rparr>)"
proof -
  have "CHR ''/'' \<notin> set h" using plain_host_set [OF assms] by simp
  then have "split_url (h @ CHR ''/'' # r) (CHR ''/'') False = (h, CHR ''/'' # r)"
    by (simp add: split_url_def takeWhile_neq_append dropWhile_neq_append)
  moreover have "unescape encodePath (CHR ''/'' # r) = (case unescape encodePath r of Inl e \<Rightarrow> Err e | Inr p \<Rightarrow> Ok (CHR ''/'' # p))"
    by (simp split: sum.split)
  ultimately show ?thesis
    using assms by (simp add: parse_rest_def HasPrefix_def parseAuthority_plain split: sum.split)
qed

text \<open>What is sent of the text after the host: it ends where a query or a fragment starts.\<close>

definition path_part :: "string \<Rightarrow> string" where
  "path_part r = takeWhile (\<lambda>c. c \<noteq> CHR ''?'') (takeWhile (\<lambda>c. c \<noteq> CHR ''#'') r)"

lemma path_part_eq: "path_part r = takeWhile (\<lambda>c. c \<noteq> CHR ''?'' \<and> c \<noteq> CHR ''#'') r"
  unfolding path_part_def by (induction r) auto

lemma path_part_id: "path_part r = r \<longleftrightarrow> CHR ''?'' \<notin> set r \<and> CHR ''#'' \<notin> set r"
  unfolding path_part_eq takeWhile_eq_all_conv by auto

lemma path_part_length: "length (path_part r) \<le> length r"
  unfolding path_part_eq by (rule length_takeWhile_le)

lemma path_part_append: "CHR ''?'' \<notin> set a \<Longrightarrow> CHR ''#'' \<notin> set a \<Longrightarrow> path_part (a @ r) = a @ path_part r"
  unfolding path_part_eq by (induction a) auto

lemma unescape_append: "CHR ''%'' \<notin> set a \<Longrightarrow> unescape encodePath (a @ r) = (case unescape encodePath r of Inl e \<Rightarrow> Err e | Inr p \<Rightarrow> Ok (a @ p))"
  by (induction a) (auto split: sum.split)

text \<open>Parsing a URL of the program: the host, and the path of the server's point of view.\<close>

lemma Parse_http:
  assumes "plain_host h" and "url_Parse (''http://'' @ h @ CHR ''/'' # r) = Ok u"
  shows "Host u = h \<and> (\<exists>p. url_Path u = CHR ''/'' # p \<and> unescape encodePath (path_part r) = Ok p)"
proof -
  let ?q = "\<lambda>c. c \<noteq> CHR ''?''" and ?f = "\<lambda>c. c \<noteq> CHR ''#''"
  have f: "CHR ''#'' \<notin> set (''http://'' @ h @ ''/'')" and q: "CHR ''?'' \<notin> set (''//'' @ h @ ''/'')"
    using plain_host_set [OF assms(1)] by simp_all
  let ?r = "takeWhile ?f r"
  have "fst (split_url (''http://'' @ h @ CHR ''/'' # r) (CHR ''#'') True) = ''http:'' @ ''//'' @ h @ CHR ''/'' # ?r"
    using takeWhile_neq_append [OF f, of r] by (simp add: split_url_def)
  moreover have "parse_url (''http:'' @ ''//'' @ h @ CHR ''/'' # ?r) =
      parse_rest ''http'' (''//'' @ h @ CHR ''/'' # path_part r) (tl (dropWhile ?q ?r))"
    unfolding parse_url_def getscheme_http
    using takeWhile_neq_append [OF q, of ?r] dropWhile_neq_append [OF q, of ?r]
    by (simp add: split_url_def path_part_def lower_def)
  ultimately show ?thesis
    using assms(2) unfolding url_Parse_def parse_rest_http [OF assms(1)]
    by (auto simp: case_prod_unfold parse_rest_http [OF assms(1)] simp del: append_Cons split: sum.splits)
qed

lemma Parse_http_plain:
  assumes "plain_host h" and "set r \<inter> {CHR ''%'', CHR ''?'', CHR ''#''} = {}"
  shows "url_Parse (''http://'' @ h @ CHR ''/'' # r) =
    Ok \<lparr>Scheme = ''http'', Opaque = [], Host = h, url_Path = CHR ''/'' # r, RawQuery = [], Fragment = []\<rparr>"
proof -
  have f: "CHR ''#'' \<notin> set (''http://'' @ h @ CHR ''/'' # r)" and q: "CHR ''?'' \<notin> set (''//'' @ h @ CHR ''/'' # r)"
    using plain_host_set [OF assms(1)] assms(2) by auto
  have "split_url (''http://'' @ h @ CHR ''/'' # r) (CHR ''#'') True = (''http:'' @ ''//'' @ h @ CHR ''/'' # r, [])"
    using split_url_none [OF f] by simp
  moreover have "parse_url (''http:'' @ ''//'' @ h @ CHR ''/'' # r) = parse_rest ''http'' (''//'' @ h @ CHR ''/'' # r) []"
    unfolding parse_url_def getscheme_http using split_url_none [OF q] by (simp add: lower_def)
  moreover have "unescape encodePath r = Ok r" using assms(2) by (intro unescape_plain) auto
  ultimately show ?thesis unfolding url_Parse_def by (simp add: parse_rest_http [OF assms(1)] del: append_Cons)
qed

section \<open>Addresses and keys\<close>

text \<open>An address whose URL is a plain host, and that host.\<close>

definition addr_host :: "string \<Rightarrow> string" where
  "addr_host u = drop 7 (MakeURL u)"

definition plain_addr :: "string \<Rightarrow> bool" where
  "plain_addr u \<longleftrightarrow> HasPrefix (MakeURL u) ''http://'' \<and> plain_host (addr_host u)"

lemma plain_addr_URL: "plain_addr u \<Longrightarrow> MakeURL u = ''http://'' @ addr_host u"
  by (auto simp: plain_addr_def HasPrefix_prefix prefix_def addr_host_def)

lemma unescape_same: "unescape encodePath (path_part k) = Ok k \<longleftrightarrow> set k \<inter> {CHR ''%'', CHR ''?'', CHR ''#''} = {}"
proof
  assume ok: "unescape encodePath (path_part k) = Ok k"
  then have len: "length k = length (path_part k)" "CHR ''%'' \<notin> set (path_part k)"
    using unescape_length [OF ok] path_part_length [of k] by auto
  then have "path_part k = k"
    unfolding path_part_eq using takeWhile_eq_take [of _ k] by (metis order_refl take_all)
  with len(2) show "set k \<inter> {CHR ''%'', CHR ''?'', CHR ''#''} = {}" using path_part_id [of k] by auto
next
  assume "set k \<inter> {CHR ''%'', CHR ''?'', CHR ''#''} = {}"
  then show "unescape encodePath (path_part k) = Ok k" using path_part_id [of k] unescape_plain [of k encodePath] by auto
qed

text \<open>
  The path that a server sees of a request for a key, with \<open>pre\<close> the path the program puts before it: it is the
  key, cut off at a query or fragment and decoded, and the key itself only if it has none of the three special characters.
\<close>

lemma key_path:
  assumes "plain_addr u" and "set pre \<inter> {CHR ''%'', CHR ''?'', CHR ''#''} = {}"
    and "url_Parse (MakeURL u @ CHR ''/'' # pre @ key) = Ok v"
  shows "Host v = addr_host u \<and> (\<exists>k. url_Path v = CHR ''/'' # pre @ k \<and> unescape encodePath (path_part key) = Ok k)"
proof -
  have h: "plain_host (addr_host u)" using assms(1) by (simp add: plain_addr_def)
  then have v: "Host v = addr_host u \<and> (\<exists>p. url_Path v = CHR ''/'' # p \<and> unescape encodePath (path_part (pre @ key)) = Ok p)"
    using assms(3) by (intro Parse_http) (simp_all add: plain_addr_URL [OF assms(1)])
  moreover have "path_part (pre @ key) = pre @ path_part key" using assms(2) by (intro path_part_append) auto
  moreover have "unescape encodePath (pre @ path_part key) = (case unescape encodePath (path_part key) of Inl e \<Rightarrow> Err e | Inr p \<Rightarrow> Ok (pre @ p))"
    using assms(2) by (intro unescape_append) auto
  ultimately show ?thesis by (auto split: sum.splits)
qed

lemma key_path_iff:
  assumes "plain_addr u" and "set pre \<inter> {CHR ''%'', CHR ''?'', CHR ''#''} = {}"
  shows "(\<exists>v. url_Parse (MakeURL u @ CHR ''/'' # pre @ key) = Ok v \<and> url_Path v = CHR ''/'' # pre @ key)
    \<longleftrightarrow> set key \<inter> {CHR ''%'', CHR ''?'', CHR ''#''} = {}"
proof
  assume "\<exists>v. url_Parse (MakeURL u @ CHR ''/'' # pre @ key) = Ok v \<and> url_Path v = CHR ''/'' # pre @ key"
  then obtain v where v: "url_Parse (MakeURL u @ CHR ''/'' # pre @ key) = Ok v" "url_Path v = CHR ''/'' # pre @ key" by blast
  from key_path [OF assms v(1)] v(2) have "unescape encodePath (path_part key) = Ok key" by auto
  then show "set key \<inter> {CHR ''%'', CHR ''?'', CHR ''#''} = {}" unfolding unescape_same .
next
  assume "set key \<inter> {CHR ''%'', CHR ''?'', CHR ''#''} = {}"
  with assms(2) have "set (pre @ key) \<inter> {CHR ''%'', CHR ''?'', CHR ''#''} = {}" by auto
  with Parse_http_plain [of "addr_host u" "pre @ key"] assms(1)
  show "\<exists>v. url_Parse (MakeURL u @ CHR ''/'' # pre @ key) = Ok v \<and> url_Path v = CHR ''/'' # pre @ key"
    by (simp add: plain_addr_URL [OF assms(1)] plain_addr_def)
qed

text \<open>A key that is escaped for a query and then decoded as a path comes back with its blanks turned into plus signs.\<close>

definition plus_blanks :: "string \<Rightarrow> string" where
  "plus_blanks k = map (\<lambda>c. if c = CHR '' '' then CHR ''+'' else c) k"

lemma hex_val_upper: "n < 16 \<Longrightarrow> hex_val (upper_hex n) = Some n"
  by (auto simp: upper_hex_def hex_val_def less_Suc_eq numeral_eq_Suc)

lemma hex_digits: "code c div 16 < 16" "code c mod 16 < 16"
  by (simp_all add: less_mult_imp_div_less)

lemma unescape_char: "unescape encodePath (escape_char c @ s) =
    (case unescape encodePath s of Inl e \<Rightarrow> Err e | Inr r \<Rightarrow> Ok ((if c = CHR '' '' then CHR ''+'' else c) # r))"
proof -
  have "\<not> query_escapes c \<Longrightarrow> c \<noteq> CHR ''%''" by (auto simp: query_escapes_def is_alnum_def)
  then show ?thesis by (simp add: escape_char_def hex_val_upper hex_digits escape_ok_def split: sum.split)
qed

lemma unescape_QueryEscape_append:
  "unescape encodePath (QueryEscape k @ s) = (case unescape encodePath s of Inl e \<Rightarrow> Err e | Inr r \<Rightarrow> Ok (plus_blanks k @ r))"
  by (induction k) (simp_all add: unescape_char plus_blanks_def split: sum.split)

lemma QueryEscape_safe: "CHR ''?'' \<notin> set (QueryEscape k) \<and> CHR ''#'' \<notin> set (QueryEscape k)"
proof (induction k)
  case (Cons c k)
  have "hex_val (CHR ''?'') = None" "hex_val (CHR ''#'') = None" by (simp_all add: hex_val_def)
  then have "CHR ''?'' \<noteq> upper_hex n \<and> CHR ''#'' \<noteq> upper_hex n" if "n < 16" for n
    using hex_val_upper [OF that] by auto
  with hex_digits [of c] have "CHR ''?'' \<notin> set (escape_char c) \<and> CHR ''#'' \<notin> set (escape_char c)"
    by (simp add: escape_char_def) (auto simp: query_escapes_def is_alnum_def)
  with Cons show ?case by simp
qed simp

lemma plus_blanks_id: "CHR '' '' \<notin> set k \<Longrightarrow> plus_blanks k = k"
  by (auto simp: plus_blanks_def intro: map_idI)

end
