(* ===== verification/HttpNet.thy ===== *)
theory HttpNet
  imports Client Url
begin

text \<open>
  HTTP between the processes: \<open>http.Get\<close> of the standard library over servers that are functions of the decoded path, and the
  clusters of doubles of \<open>utils/mock/http.go\<close>, which stand for it in the tests. A redirect, which the servers
  answer only to a path with one slash too many, is followed to the path without it, for ten requests at most.
\<close>

section \<open>Model\<close>

type_synonym get_server = "string \<Rightarrow> http_response"

fun follow :: "nat \<Rightarrow> get_server \<Rightarrow> string \<Rightarrow> http_response result" where
  "follow 0 srv path = Err (Errorf ''stopped after 10 redirects'')"
| "follow (Suc n) srv path =
     (let resp = srv path in if StatusCode resp = 301 then follow n srv (butlast path) else Ok resp)"

definition http_Get :: "(string \<Rightarrow> get_server option) \<Rightarrow> HTTPGetter" where
  "http_Get hosts rawurl = (case url_Parse rawurl of
     Inl err \<Rightarrow> Err err
   | Inr u \<Rightarrow>
       if Scheme u \<noteq> ''http'' \<and> Scheme u \<noteq> ''https'' then Err (Errorf ''unsupported protocol scheme'')
       else if Host u = [] then Err (Errorf ''http: no Host in request URL'')
       else case hosts (Host u) of
         None \<Rightarrow> Err (Errorf ''connection refused'')
       | Some srv \<Rightarrow> follow 10 srv (if url_Path u = [] then ''/'' else url_Path u))"

text \<open>The doubles. A panic ends the test; here it is the result, at once.\<close>

definition HostOfURL :: "string \<Rightarrow> string result" where
  "HostOfURL rawurl = (case url_Parse rawurl of
     Inl err \<Rightarrow> Err (GoPanic (''wrong url format, err: '' @ err_text err)) | Inr u \<Rightarrow> Ok (Host u))"

definition HTTPGetterCluster :: "(string \<rightharpoonup> network) \<Rightarrow> network" where
  "HTTPGetterCluster getterMap rawurl = (case HostOfURL rawurl of
     Inl p \<Rightarrow> (0, Err p)
   | Inr host \<Rightarrow> (case getterMap host of
       None \<Rightarrow> (0, Err (GoPanic (''client: no getter can handle '' @ host))) | Some getter \<Rightarrow> getter host))"

definition HTTPPosterCluster :: "(string \<rightharpoonup> post_network) \<Rightarrow> post_network" where
  "HTTPPosterCluster posterMap rawurl body = (case HostOfURL rawurl of
     Inl p \<Rightarrow> Some (0, Err p)
   | Inr host \<Rightarrow> (case posterMap host of
       None \<Rightarrow> Some (0, Err (GoPanic (''client: no poster can handle '' @ host))) | Some poster \<Rightarrow> poster host body))"

text \<open>\<open>utils/mock/rpccaller.go\<close>: a function as an RPC client.\<close>

definition RPCClientFunc_Call :: "(string \<Rightarrow> 'a \<Rightarrow> 'r \<Rightarrow> error \<times> 'r) \<Rightarrow> string \<Rightarrow> 'a \<Rightarrow> 'r \<Rightarrow> error \<times> 'r" where
  "RPCClientFunc_Call f serviceMethod args rep = f serviceMethod args rep"

section \<open>Lemmas\<close>

abbreviation special :: "char set" where
  "special \<equiv> {CHR ''%'', CHR ''?'', CHR ''#''}"

lemma follow_direct: "StatusCode (srv path) \<noteq> 301 \<Longrightarrow> follow 10 srv path = Ok (srv path)"
  by (simp add: numeral_eq_Suc)

lemma Parse_key:
  assumes "plain_addr u" and "set pre \<inter> special = {}" and "set key \<inter> special = {}"
  shows "url_Parse (MakeURL u @ CHR ''/'' # pre @ key) =
    Ok \<lparr>Scheme = ''http'', Opaque = [], Host = addr_host u, url_Path = CHR ''/'' # pre @ key, RawQuery = [], Fragment = []\<rparr>"
proof -
  have "plain_host (addr_host u)" "set (pre @ key) \<inter> special = {}" using assms by (auto simp: plain_addr_def)
  from Parse_http_plain [OF this] show ?thesis by (simp add: plain_addr_URL [OF assms(1)])
qed

text \<open>What a server is asked when the program asks for a key, with \<open>pre\<close> the path before the key.\<close>

lemma http_Get_key:
  assumes "plain_addr u" and "hosts (addr_host u) = Some srv" and "set pre \<inter> special = {}"
  shows "if set key \<inter> special = {} then http_Get hosts (MakeURL u @ CHR ''/'' # pre @ key) = follow 10 srv (CHR ''/'' # pre @ key)
    else (\<exists>e. http_Get hosts (MakeURL u @ CHR ''/'' # pre @ key) = Err e)
      \<or> (\<exists>k. k \<noteq> key \<and> http_Get hosts (MakeURL u @ CHR ''/'' # pre @ key) = follow 10 srv (CHR ''/'' # pre @ k))"
proof -
  have ne: "addr_host u \<noteq> []" using assms(1) by (simp add: plain_addr_def plain_host_def)
  show ?thesis
  proof (cases "set key \<inter> special = {}")
    case True
    with Parse_key [OF assms(1,3) True] ne assms(2) show ?thesis by (simp add: http_Get_def del: follow.simps)
  next
    case False
    show ?thesis
    proof (cases "url_Parse (MakeURL u @ CHR ''/'' # pre @ key)")
      case (Inl e)
      then have "http_Get hosts (MakeURL u @ CHR ''/'' # pre @ key) = Err e" by (simp add: http_Get_def)
      with False show ?thesis by auto
    next
      case (Inr v)
      from key_path [OF assms(1,3) Inr] obtain k where k: "Host v = addr_host u" "url_Path v = CHR ''/'' # pre @ k" by blast
      have "k \<noteq> key" using key_path_iff [OF assms(1,3), of key] False Inr k(2) by blast
      moreover have "http_Get hosts (MakeURL u @ CHR ''/'' # pre @ key) = follow 10 srv (CHR ''/'' # pre @ k)
          \<or> (\<exists>e. http_Get hosts (MakeURL u @ CHR ''/'' # pre @ key) = Err e)"
        using Inr k assms(2) ne by (simp add: http_Get_def del: follow.simps)
      ultimately show ?thesis using False by auto
    qed
  qed
qed

lemma kv_find_net: "net (MakeURL u @ ''/key/'' @ key) = net' (MakeURL u @ ''/key/'' @ key) \<Longrightarrow> kv_find net key u t = kv_find net' key u t"
  by (simp add: kv_find_def)

text \<open>A client under test whose servers are doubles is answered by the double of the server it asks.\<close>

lemma getter_cluster:
  assumes "plain_addr u" and "set key \<inter> special = {}" and "getterMap (addr_host u) = Some getter"
  shows "kv_find (HTTPGetterCluster getterMap) key u t = kv_find (\<lambda>url. getter (addr_host u)) key u t"
  using Parse_key [OF assms(1) _ assms(2), of "''key/''"] assms(3)
  by (intro kv_find_net) (simp add: HTTPGetterCluster_def HostOfURL_def)

lemma poster_cluster:
  assumes "plain_addr u" and "posterMap (addr_host u) = Some poster"
  shows "kv_set (HTTPPosterCluster posterMap) key val u = kv_set (\<lambda>url body. poster (addr_host u) body) key val u"
  using Parse_key [OF assms(1), of "''key''" "[]"] assms(2)
  by (simp add: kv_set_def HTTPPosterCluster_def HostOfURL_def)

section \<open>Properties\<close>

text \<open>
  C21: which keys a client can ask for. The client writes the key into the URL as it is. A key without percent sign, question
  mark and number sign arrives as it is at the server; any other key either makes no URL, or the
  server is asked for a different key, whatever the server is.
\<close>

theorem keys_in_URLs:
  assumes "plain_addr u" and "hosts (addr_host u) = Some srv"
  shows "\<exists>r. kv_find (\<lambda>url. (d, http_Get hosts url)) key u t = kv_find (\<lambda>url. (d, r)) key u t
    \<and> (if set key \<inter> {CHR ''%'', CHR ''?'', CHR ''#''} = {} then r = follow 10 srv (''/key/'' @ key)
       else (\<exists>e. r = Err e) \<or> (\<exists>k. k \<noteq> key \<and> r = follow 10 srv (''/key/'' @ k)))"
proof -
  let ?r = "http_Get hosts (MakeURL u @ ''/key/'' @ key)"
  have "kv_find (\<lambda>url. (d, http_Get hosts url)) key u t = kv_find (\<lambda>url. (d, ?r)) key u t" by (rule kv_find_net) simp
  moreover have "set ''key/'' \<inter> special = {}" by simp
  note http_Get_key [where hosts = hosts and key = key, OF assms(1) _ this, of srv, unfolded append_Cons append_Nil]
  ultimately show ?thesis using assms(2) unfolding append_Cons append_Nil by blast
qed

theorem keys_in_URLs_witness:
  "\<exists>r. kv_find (\<lambda>url. (1, http_Get [''h:1'' \<mapsto> (\<lambda>p. answer 200 (json_of_kvResp (drop 5 p) ''v''))] url)) ''a?b'' ''h:1'' 100
      = kv_find (\<lambda>url. (1, r)) ''a?b'' ''h:1'' 100
    \<and> ((\<exists>e. r = Err e) \<or> (\<exists>k. k \<noteq> ''a?b'' \<and> r = follow 10 (\<lambda>p. answer 200 (json_of_kvResp (drop 5 p) ''v'')) (''/key/'' @ k)))"
proof -
  let ?srv = "\<lambda>p. answer 200 (json_of_kvResp (drop 5 p) ''v'')"
  have url: "MakeURL ''h:1'' = ''http://h:1''" by (simp add: MakeURL_def HasPrefix_def TrimSuffix_def)
  then have host: "addr_host ''h:1'' = ''h:1''" by (simp add: addr_host_def)
  then have "plain_addr ''h:1''" by (simp add: plain_addr_def url HasPrefix_def plain_host_def host_char_def is_alnum_def)
  from keys_in_URLs [OF this, of "[''h:1'' \<mapsto> ?srv]" ?srv 1 "''a?b''" 100] host show ?thesis by (simp del: follow.simps)
qed

end
