(* ===== verification/ConsistentHash.thy ===== *)
theory ConsistentHash
  imports Prelude
begin

unbundle bit_operations_syntax

text \<open>
  \<open>utils/consistenthash/consistenthash.go\<close>: the ring of hash points that assigns a string to one of
  the added (integer) keys. Each key owns \<open>replicas\<close> points, the hashes of the decimal labels
  \<open>key*10+i\<close>; a string belongs to the owner of the first point at or after its own hash,
  going round at the end.

  The hash is a parameter of the ring; the default, \<open>crc32.ChecksumIEEE\<close>, is modelled too.
  Labels are computed in 64-bit arithmetic (\<open>wrap64\<close>). \<open>sort.Search\<close> is the standard library's
  binary search; \<open>clockwise\<close> is the reference the search is proved to implement.
\<close>

section \<open>Model\<close>

text \<open>The signed 64-bit value an \<open>int\<close> expression has.\<close>

definition wrap64 :: "int \<Rightarrow> int" where
  "wrap64 i = (i + 2 ^ 63) mod 2 ^ 64 - 2 ^ 63"

text \<open>\<open>crc32.ChecksumIEEE\<close>: the reflected polynomial \<open>0xEDB88320\<close>, bit by bit.\<close>

fun crc32_shift :: "nat \<Rightarrow> 32 word \<Rightarrow> 32 word" where
  "crc32_shift 0 crc = crc"
| "crc32_shift (Suc n) crc =
     crc32_shift n (if odd (uint crc) then drop_bit 1 crc XOR 0xEDB88320 else drop_bit 1 crc)"

definition ChecksumIEEE :: "string \<Rightarrow> 32 word" where
  "ChecksumIEEE data = NOT (foldl (\<lambda>crc c. crc32_shift 8 (crc XOR of_char c)) 0xFFFFFFFF data)"

type_synonym Hash = "string \<Rightarrow> 32 word"

record hash_ring =
  ring_hash :: Hash
  replicas :: int
  ring_keys :: "int list"
  hashMap :: "(int \<times> int) list"

definition New_ring :: "int \<Rightarrow> Hash option \<Rightarrow> hash_ring" where
  "New_ring n fn = \<lparr>ring_hash = (case fn of None \<Rightarrow> ChecksumIEEE | Some h \<Rightarrow> h),
     replicas = n, ring_keys = [], hashMap = []\<rparr>"

definition IsEmpty :: "hash_ring \<Rightarrow> bool" where
  "IsEmpty m \<longleftrightarrow> length (ring_keys m) = 0"

text \<open>The label of replica \<open>i\<close> of a key, and its hash.\<close>

definition label :: "int \<Rightarrow> int \<Rightarrow> string" where
  "label key i = Itoa (wrap64 (key * 10 + i))"

definition point :: "hash_ring \<Rightarrow> int \<Rightarrow> int \<Rightarrow> int" where
  "point m key i = uint (ring_hash m (label key i))"

definition add_point :: "int \<Rightarrow> hash_ring \<Rightarrow> int \<Rightarrow> hash_ring" where
  "add_point key m i = m\<lparr>ring_keys := ring_keys m @ [point m key i],
     hashMap := map_put (point m key i) key (hashMap m)\<rparr>"

definition add_key :: "hash_ring \<Rightarrow> int \<Rightarrow> hash_ring" where
  "add_key m key = foldl (add_point key) m [0 .. replicas m - 1]"

definition ring_Add :: "int list \<Rightarrow> hash_ring \<Rightarrow> hash_ring" where
  "ring_Add keys m = (let m' = foldl add_key m keys in m'\<lparr>ring_keys := sort (ring_keys m')\<rparr>)"

text \<open>\<open>sort.Search\<close> on the half-open interval from \<open>i\<close> to \<open>j\<close>.\<close>

function search :: "(nat \<Rightarrow> bool) \<Rightarrow> nat \<Rightarrow> nat \<Rightarrow> nat" where
  "search f i j = (if i < j
     then let h = (i + j) div 2 in if \<not> f h then search f (h + 1) j else search f i h
     else i)"
  by pat_completeness auto
termination
  by (relation "measure (\<lambda>(f, i, j). j - i)") auto

declare search.simps [simp del]

definition ring_Get :: "hash_ring \<Rightarrow> string \<Rightarrow> int" where
  "ring_Get m key =
     (if IsEmpty m then 0
      else let h = uint (ring_hash m key);
               found = search (\<lambda>i. ring_keys m ! i \<ge> h) 0 (length (ring_keys m));
               idx = (if found = length (ring_keys m) then 0 else found)
           in case map_of (hashMap m) (ring_keys m ! idx) of None \<Rightarrow> 0 | Some k \<Rightarrow> k)"

section \<open>Binary search\<close>

text \<open>On a predicate that turns true at \<open>t\<close> the search finds \<open>t\<close>.\<close>

lemma search_threshold:
  "\<forall>a<j. f a \<longleftrightarrow> t \<le> a \<Longrightarrow> i \<le> t \<Longrightarrow> t \<le> j \<Longrightarrow> search f i j = t"
proof (induction f i j rule: search.induct)
  case (1 f i j)
  let ?h = "(i + j) div 2"
  show ?case
  proof (cases "i < j")
    case True
    then have h: "?h < j" by simp
    show ?thesis
    proof (cases "t \<le> ?h")
      case hit: True
      then have "f ?h" using "1.prems"(1) h by simp
      moreover have "search f i ?h = t"
        by (rule "1.IH"(2)) (use True hit h "1.prems" \<open>f ?h\<close> in auto)
      ultimately show ?thesis using True by (subst search.simps) (simp add: Let_def)
    next
      case False
      then have "\<not> f ?h" using "1.prems"(1) h by simp
      moreover have "search f (?h + 1) j = t"
        by (rule "1.IH"(1)) (use True False h "1.prems" \<open>\<not> f ?h\<close> in auto)
      ultimately show ?thesis using True by (subst search.simps) (simp add: Let_def)
    qed
  next
    case False
    with "1.prems" show ?thesis by (subst search.simps) simp
  qed
qed

lemma sorted_threshold:
  fixes ks :: "int list"
  assumes "sorted ks" and "a < length ks"
  shows "h \<le> ks ! a \<longleftrightarrow> length (takeWhile (\<lambda>k. k < h) ks) \<le> a"
proof
  assume "h \<le> ks ! a"
  then show "length (takeWhile (\<lambda>k. k < h) ks) \<le> a"
    using nth_mem takeWhile_nth [of a "\<lambda>k. k < h" ks] set_takeWhileD by (metis not_le)
next
  let ?t = "length (takeWhile (\<lambda>k. k < h) ks)"
  assume "?t \<le> a"
  then have "ks ! ?t \<le> ks ! a" "?t < length ks" using assms by (auto simp: sorted_nth_mono)
  moreover from this have "h \<le> ks ! ?t" using nth_length_takeWhile [of "\<lambda>k. k < h" ks] by simp
  ultimately show "h \<le> ks ! a" by simp
qed

section \<open>The ring\<close>

text \<open>The reference: the first point of a set at or after the hash, or the first of all.\<close>

definition clockwise :: "int set \<Rightarrow> int \<Rightarrow> int" where
  "clockwise S h = (if \<exists>p\<in>S. h \<le> p then Min {p \<in> S. h \<le> p} else Min S)"

definition ring_inv :: "hash_ring \<Rightarrow> bool" where
  "ring_inv m \<longleftrightarrow> sorted (ring_keys m) \<and> set (ring_keys m) = dom (map_of (hashMap m))"

definition points :: "hash_ring \<Rightarrow> int \<Rightarrow> int set" where
  "points m key = point m key ` {0..<replicas m}"

lemma clockwise_in: "finite S \<Longrightarrow> S \<noteq> {} \<Longrightarrow> clockwise S h \<in> S"
  using Min_in [of "{p \<in> S. h \<le> p}"] Min_in [of S] by (auto simp: clockwise_def)

lemma Min_subset_eq:
  fixes A :: "int set"
  assumes "finite B" and "A \<subseteq> B" and "Min B \<in> A"
  shows "Min A = Min B"
proof (rule Min_eqI)
  show "finite A" using assms(1,2) by (rule finite_subset [rotated])
  show "Min B \<le> y" if "y \<in> A" for y using that assms(1,2) by auto
qed (rule assms(3))

lemma clockwise_hit:
  assumes "finite S" and "p \<in> S" and "h \<le> p"
  shows "clockwise S h \<in> {p \<in> S. h \<le> p}"
proof -
  have "clockwise S h = Min {p \<in> S. h \<le> p}" using assms by (auto simp: clockwise_def)
  also have "\<dots> \<in> {p \<in> S. h \<le> p}" by (rule Min_in) (use assms in auto)
  finally show ?thesis .
qed

lemma clockwise_subset:
  assumes "finite T" and "S \<subseteq> T" and "clockwise T h \<in> S"
  shows "clockwise S h = clockwise T h"
proof (cases "\<exists>p\<in>T. h \<le> p")
  case True
  then have hit: "clockwise T h \<in> {p \<in> T. h \<le> p}" using clockwise_hit [OF assms(1)] by blast
  with assms(3) have mem: "clockwise T h \<in> {p \<in> S. h \<le> p}" by simp
  have T: "clockwise T h = Min {p \<in> T. h \<le> p}" using True by (simp add: clockwise_def)
  have "Min {p \<in> S. h \<le> p} = Min {p \<in> T. h \<le> p}"
    by (rule Min_subset_eq) (use assms(1,2) mem T in auto)
  moreover have "clockwise S h = Min {p \<in> S. h \<le> p}" using mem by (auto simp: clockwise_def)
  ultimately show ?thesis using T by simp
next
  case False
  then have "clockwise T h = Min T" "clockwise S h = Min S" using assms(2) by (auto simp: clockwise_def)
  then show ?thesis using Min_subset_eq [OF assms(1,2)] assms(3) by simp
qed

lemma clockwise_sorted:
  assumes "sorted ks" and "i \<le> length ks" and "ks \<noteq> []"
    and "\<forall>a<i. \<not> h \<le> ks ! a" and "i < length ks \<longrightarrow> h \<le> ks ! i"
  shows "clockwise (set ks) h = ks ! (if i = length ks then 0 else i)"
proof (cases "i = length ks")
  case True
  with assms(4) have "\<not> (\<exists>p\<in>set ks. h \<le> p)" by (auto simp: in_set_conv_nth)
  moreover have "Min (set ks) = ks ! 0"
    using assms(1,3) by (intro Min_eqI) (auto simp: in_set_conv_nth sorted_nth_mono)
  ultimately show ?thesis using True by (simp add: clockwise_def)
next
  case False
  with assms(2) have i: "i < length ks" by simp
  with assms(5) have hit: "ks ! i \<in> {p \<in> set ks. h \<le> p}" by simp
  have "Min {p \<in> set ks. h \<le> p} = ks ! i"
  proof (rule Min_eqI)
    fix p assume "p \<in> {p \<in> set ks. h \<le> p}"
    then obtain a where a: "a < length ks" "p = ks ! a" "h \<le> ks ! a" by (auto simp: in_set_conv_nth)
    with assms(4) have "i \<le> a" by (meson not_le)
    with a show "ks ! i \<le> p" by (simp add: assms(1) sorted_nth_mono)
  qed (use hit in auto)
  with hit False show ?thesis by (auto simp: clockwise_def)
qed

lemma ring_Get_clockwise:
  assumes "ring_inv m" and "ring_keys m \<noteq> []"
  shows "map_of (hashMap m) (clockwise (set (ring_keys m)) (uint (ring_hash m key))) = Some (ring_Get m key)"
proof -
  let ?ks = "ring_keys m" and ?h = "uint (ring_hash m key)"
  let ?i = "search (\<lambda>i. ?ks ! i \<ge> ?h) 0 (length ?ks)"
  have srt: "sorted ?ks" and dom: "set ?ks = dom (map_of (hashMap m))"
    using assms(1) by (auto simp: ring_inv_def)
  let ?t = "length (takeWhile (\<lambda>k. k < ?h) ?ks)"
  have t: "?i = ?t" "?t \<le> length ?ks"
    using sorted_threshold [OF srt] by (auto simp: length_takeWhile_le intro!: search_threshold)
  then have c: "clockwise (set ?ks) ?h = ?ks ! (if ?i = length ?ks then 0 else ?i)"
    using srt assms(2) sorted_threshold [OF srt, of _ ?h] by (intro clockwise_sorted) auto
  have "clockwise (set ?ks) ?h \<in> set ?ks"
    by (rule clockwise_in) (use assms(2) in auto)
  with dom have "clockwise (set ?ks) ?h \<in> dom (map_of (hashMap m))" by simp
  then show ?thesis
    using assms(2) by (auto simp: ring_Get_def IsEmpty_def c Let_def)
qed

section \<open>Adding keys\<close>

lemma add_point_foldl:
  "ring_hash (foldl (add_point k) m is) = ring_hash m \<and> replicas (foldl (add_point k) m is) = replicas m
   \<and> ring_keys (foldl (add_point k) m is) = ring_keys m @ map (point m k) is
   \<and> map_of (hashMap (foldl (add_point k) m is)) =
       (\<lambda>p. if p \<in> point m k ` set is then Some k else map_of (hashMap m) p)"
proof (induction "is" arbitrary: m)
  case (Cons i "is")
  have "point (add_point k m i) = point m" by (simp add: add_point_def point_def fun_eq_iff)
  with Cons [of "add_point k m i"] show ?case by (auto simp: add_point_def fun_eq_iff)
qed (auto simp: fun_eq_iff)

lemma add_key_simps [simp]:
  "ring_hash (add_key m k) = ring_hash m" "replicas (add_key m k) = replicas m"
  "set (ring_keys (add_key m k)) = set (ring_keys m) \<union> points m k"
  "map_of (hashMap (add_key m k)) = (\<lambda>p. if p \<in> points m k then Some k else map_of (hashMap m) p)"
  using add_point_foldl [of k m "[0..replicas m - 1]"]
  by (auto simp: add_key_def points_def atLeastLessThan_def lessThan_def atLeastAtMost_def atMost_def atLeast_def Int_def
      image_iff zle_diff1_eq)

lemma points_add_key [simp]: "points (add_key m k) = points m"
  by (simp add: points_def point_def fun_eq_iff)

lemma add_keys_simps [simp]:
  "ring_hash (foldl add_key m ks) = ring_hash m" "replicas (foldl add_key m ks) = replicas m"
  "set (ring_keys (foldl add_key m ks)) = set (ring_keys m) \<union> (\<Union>k\<in>set ks. points m k)"
  by (induction ks arbitrary: m) auto

lemma add_keys_old:
  "p \<notin> (\<Union>k\<in>set ks. points m k) \<Longrightarrow> map_of (hashMap (foldl add_key m ks)) p = map_of (hashMap m) p"
  by (induction ks arbitrary: m) auto

lemma add_keys_new:
  "p \<in> (\<Union>k\<in>set ks. points m k) \<Longrightarrow>
    \<exists>k\<in>set ks. p \<in> points m k \<and> map_of (hashMap (foldl add_key m ks)) p = Some k"
proof (induction ks arbitrary: m)
  case (Cons k ks)
  show ?case
  proof (cases "p \<in> (\<Union>k\<in>set ks. points m k)")
    case True
    then show ?thesis using Cons.IH [of "add_key m k"] by auto
  next
    case False
    with Cons.prems show ?thesis using add_keys_old [where p = p and ks = ks and m = "add_key m k"] by auto
  qed
qed simp

lemma ring_Add_simps [simp]:
  "ring_hash (ring_Add ks m) = ring_hash m" "replicas (ring_Add ks m) = replicas m"
  "set (ring_keys (ring_Add ks m)) = set (ring_keys m) \<union> (\<Union>k\<in>set ks. points m k)"
  "hashMap (ring_Add ks m) = hashMap (foldl add_key m ks)"
  "points (ring_Add ks m) = points m"
  by (simp_all add: ring_Add_def Let_def points_def point_def fun_eq_iff)

lemma ring_Add_inv: "ring_inv m \<Longrightarrow> ring_inv (ring_Add ks m)"
  unfolding ring_inv_def
proof (intro conjI set_eqI iffI; (elim conjE)?)
  fix p assume dom: "set (ring_keys m) = dom (map_of (hashMap m))"
  { assume "p \<in> set (ring_keys (ring_Add ks m))"
    with dom show "p \<in> dom (map_of (hashMap (ring_Add ks m)))"
      using add_keys_new [where p = p and ks = ks and m = m] add_keys_old [where p = p and ks = ks and m = m]
      by (cases "p \<in> (\<Union>k\<in>set ks. points m k)") auto }
  { assume "p \<in> dom (map_of (hashMap (ring_Add ks m)))"
    with dom show "p \<in> set (ring_keys (ring_Add ks m))"
      using add_keys_old [where p = p and ks = ks and m = m] by (cases "p \<in> (\<Union>k\<in>set ks. points m k)") auto }
qed (simp add: ring_Add_def Let_def)

lemma ring_inv_New [simp]: "ring_inv (New_ring n fn)"
  by (simp add: ring_inv_def New_ring_def)

lemma ring_keys_New [simp]: "ring_keys (New_ring n fn) = []" "replicas (New_ring n fn) = n"
  by (simp_all add: New_ring_def)

lemma finite_points [simp]: "finite (points m k)"
  by (simp add: points_def)

text \<open>A string stays with its owner or moves to a key that was added.\<close>

lemma ring_Add_moves:
  assumes "ring_inv m" and "ring_keys m \<noteq> []"
  shows "ring_Get (ring_Add ks m) key = ring_Get m key \<or> ring_Get (ring_Add ks m) key \<in> set ks"
proof -
  let ?m = "ring_Add ks m" and ?h = "uint (ring_hash m key)"
  let ?N = "\<Union>k\<in>set ks. points m k" and ?c = "clockwise (set (ring_keys (ring_Add ks m))) ?h"
  have ne: "ring_keys ?m \<noteq> []" using assms(2) by (metis Un_empty ring_Add_simps(3) set_empty)
  have new: "map_of (hashMap ?m) ?c = Some (ring_Get ?m key)"
    using ring_Get_clockwise [OF ring_Add_inv [OF assms(1)] ne, of key] by simp
  show ?thesis
  proof (cases "?c \<in> ?N")
    case True
    then show ?thesis using add_keys_new [OF True] new by auto
  next
    case False
    have "?c \<in> set (ring_keys ?m)" by (rule clockwise_in) (use ne in \<open>simp_all del: ring_Add_simps(3)\<close>)
    with False have "?c \<in> set (ring_keys m)" by simp
    then have "clockwise (set (ring_keys m)) ?h = ?c" by (intro clockwise_subset) auto
    then show ?thesis
      using ring_Get_clockwise [OF assms, of key] new add_keys_old [OF False] by simp
  qed
qed

text \<open>The ring after a sequence of \<open>Add\<close> calls.\<close>

definition built :: "int \<Rightarrow> Hash option \<Rightarrow> int list list \<Rightarrow> hash_ring" where
  "built n fn kss = fold ring_Add kss (New_ring n fn)"

lemma fold_Add_inv: "ring_inv m \<Longrightarrow> ring_inv (fold ring_Add kss m)"
  by (induction kss arbitrary: m) (auto simp: ring_Add_inv)

lemma fold_Add_simps [simp]:
  "points (fold ring_Add kss m) = points m"
  "set (ring_keys (fold ring_Add kss m)) = set (ring_keys m) \<union> (\<Union>k\<in>set (concat kss). points m k)"
  by (induction kss arbitrary: m) auto

lemma ring_Add_owner:
  "map_of (hashMap (ring_Add ks m)) p = Some v \<Longrightarrow> map_of (hashMap m) p = Some v \<or> v \<in> set ks \<and> p \<in> points m v"
  using add_keys_new [where p = p and ks = ks and m = m] add_keys_old [where p = p and ks = ks and m = m]
  by (cases "p \<in> (\<Union>k\<in>set ks. points m k)") auto

lemma fold_Add_owner:
  "map_of (hashMap (fold ring_Add kss m)) p = Some v \<Longrightarrow>
    map_of (hashMap m) p = Some v \<or> v \<in> set (concat kss) \<and> p \<in> points m v"
proof (induction kss arbitrary: m)
  case (Cons ks kss)
  then have "map_of (hashMap (ring_Add ks m)) p = Some v \<or> v \<in> set (concat kss) \<and> p \<in> points m v"
    by fastforce
  with ring_Add_owner [of ks m p v] show ?case by auto
qed simp

lemma built_facts:
  "ring_inv (built n fn kss)"
  "set (ring_keys (built n fn kss)) = (\<Union>k\<in>set (concat kss). points (built n fn kss) k)"
  "map_of (hashMap (built n fn kss)) p = Some v \<Longrightarrow> v \<in> set (concat kss) \<and> p \<in> points (built n fn kss) v"
  "0 < n \<Longrightarrow> concat kss \<noteq> [] \<Longrightarrow> ring_keys (built n fn kss) \<noteq> []"
proof -
  show keys: "set (ring_keys (built n fn kss)) = (\<Union>k\<in>set (concat kss). points (built n fn kss) k)"
    by (simp add: built_def)
  show "ring_keys (built n fn kss) \<noteq> []" if "0 < n" "concat kss \<noteq> []"
  proof -
    have "points (built n fn kss) (hd (concat kss)) \<noteq> {}" using that by (simp add: built_def points_def)
    with keys show ?thesis using hd_in_set [OF that(2)] by fastforce
  qed
  show "v \<in> set (concat kss) \<and> p \<in> points (built n fn kss) v" if "map_of (hashMap (built n fn kss)) p = Some v"
    using fold_Add_owner [OF that [unfolded built_def]] by (simp add: built_def New_ring_def)
qed (simp add: built_def fold_Add_inv)

lemma built_Get:
  assumes "0 < n" and "concat kss \<noteq> []"
  shows "ring_Get (built n fn kss) s \<in> set (concat kss) \<and>
    clockwise (\<Union>k\<in>set (concat kss). points (built n fn kss) k) (uint (ring_hash (built n fn kss) s))
      \<in> points (built n fn kss) (ring_Get (built n fn kss) s)"
  unfolding built_facts(2) [symmetric]
  using built_facts(3) [OF ring_Get_clockwise [OF built_facts(1) built_facts(4) [OF assms]]] by simp

lemma built_hash: "ring_hash (built n fn kss) = (case fn of None \<Rightarrow> ChecksumIEEE | Some h \<Rightarrow> h)"
proof -
  have "ring_hash (fold ring_Add kss m) = ring_hash m" for m by (induction kss arbitrary: m) auto
  then show ?thesis by (simp add: built_def New_ring_def)
qed

lemma wrap64_id: "- (2 ^ 63) \<le> i \<Longrightarrow> i < 2 ^ 63 \<Longrightarrow> wrap64 i = i"
  by (simp add: wrap64_def)

lemma wrap64_label: "0 \<le> i \<Longrightarrow> i < 10 \<Longrightarrow> \<bar>k\<bar> < 2 ^ 59 \<Longrightarrow> wrap64 (k * 10 + i) = k * 10 + i"
  by (rule wrap64_id) simp_all

section \<open>Properties\<close>

text \<open>
  C39: after any sequence of Adds, a string belongs to the owner of the ring point that follows its
  hash: the key Get returns was added, and one of its points is the first of all points at or
  after the hash of the string (the first of all when there is none after it).
\<close>

theorem ring_Get_successor:
  assumes "m = built n fn kss" and "concat kss \<noteq> []" and "0 < n"
  shows "ring_Get m s \<in> set (concat kss) \<and>
    clockwise (\<Union>k\<in>set (concat kss). points m k) (uint (ring_hash m s)) \<in> points m (ring_Get m s)"
  unfolding assms(1) by (rule built_Get [OF assms(3,2)])

theorem ring_Get_successor_witness:
  "ring_Get (built 3 None [[6, 4, 2], [8]]) ''27'' \<in> {6, 4, 2, 8}"
  using ring_Get_successor [of "built 3 None [[6, 4, 2], [8]]" 3 None "[[6, 4, 2], [8]]" "''27''"] by simp

text \<open>
  C40: adding keys to a ring moves a string only to one of the keys that were added: every string
  keeps its owner or gets a new one among them.
\<close>

theorem ring_Add_moves_to_new_keys:
  assumes "m = built n fn kss" and "concat kss \<noteq> []" and "0 < n"
  shows "ring_Get (ring_Add ks m) s = ring_Get m s \<or> ring_Get (ring_Add ks m) s \<in> set ks"
  unfolding assms(1) by (rule ring_Add_moves [OF built_facts(1) built_facts(4) [OF assms(3,2)]])

theorem ring_Add_moves_to_new_keys_witness:
  "ring_Get (ring_Add [9] (built 3 None [[6, 4, 2]])) ''27'' \<in> {ring_Get (built 3 None [[6, 4, 2]]) ''27'', 9}"
  using ring_Add_moves_to_new_keys [of "built 3 None [[6, 4, 2]]" 3 None "[[6, 4, 2]]" "[9]" "''27''"] by simp

text \<open>
  The labels of the replicas. With at most ten replicas different keys never share a label;
  replica 10 of a key has the label of replica 0 of the next key, so with more than ten replicas
  neighbouring keys share points of the ring.
\<close>

lemma labels_of_replicas:
  assumes "0 \<le> i" and "i < 10" and "0 \<le> j" and "j < 10" and "\<bar>k\<bar> < 2 ^ 59" and "\<bar>l\<bar> < 2 ^ 59"
  shows "(label k i = label l j \<longleftrightarrow> k = l \<and> i = j) \<and> label k 10 = label (k + 1) 0"
proof -
  have "(k * 10 + i) div 10 = k" "(l * 10 + j) div 10 = l" using assms(1-4) by simp_all
  then have "k * 10 + i = l * 10 + j \<longleftrightarrow> k = l \<and> i = j" by (metis add_left_cancel)
  then have "label k i = label l j \<longleftrightarrow> k = l \<and> i = j"
    using assms by (simp add: label_def wrap64_label)
  moreover have "label k 10 = label (k + 1) 0" by (simp add: label_def algebra_simps)
  ultimately show ?thesis by simp
qed

end
