(* ===== verification/Groupcache.thy ===== *)
theory Groupcache
  imports ConsistentHash Url "HOL-Library.Signed_Division"
begin

text \<open>
  What the cache nodes use of the vendored package \<open>github.com/golang/groupcache\<close>: the pool that assigns a key to one of the peers
  (\<open>http.go\<close>, over \<open>consistenthash\<close>), and the group with its two caches of bounded size (\<open>groupcache.go\<close>, over \<open>lru\<close>).

  A \<open>gcache\<close> keeps its entries with the most recently used one first, as the list of the LRU cache does; the map beside that list
  only finds its elements. The byte counts are those the code adds up, not the sizes of the entries: that they agree is the invariant
  \<open>gcache_ok\<close>, on which the loop of \<open>populateCache\<close> depends to end (\<open>populateCache_ends\<close>). The loop is an option-valued
  partial function. Concurrent calls, the merging of their loads (\<open>singleflight\<close>) and the statistics are the matter of \<open>Flight\<close>.
\<close>

section \<open>The pool\<close>

text \<open>\<open>consistenthash\<close> with string keys: 50 points for each peer, the hashes of the labels \<open>0peer\<close> to \<open>49peer\<close>.\<close>

definition peer_points :: "string \<Rightarrow> (int \<times> string) list" where
  "peer_points peer = map (\<lambda>i. (uint (ChecksumIEEE (Itoa i @ peer)), peer)) [0..49]"

definition pool_keys :: "string list \<Rightarrow> int list" where
  "pool_keys peers = sort (map fst (concat (map peer_points peers)))"

definition pool_hashMap :: "string list \<Rightarrow> (int \<times> string) list" where
  "pool_hashMap peers = foldl (\<lambda>m (hash, peer). map_put hash peer m) [] (concat (map peer_points peers))"

definition pool_Get :: "string list \<Rightarrow> string \<Rightarrow> string" where
  "pool_Get peers key = (let keys = pool_keys peers in
     if keys = [] then []
     else let h = uint (ChecksumIEEE key);
              found = search (\<lambda>i. keys ! i \<ge> h) 0 (length keys);
              idx = (if found = length keys then 0 else found)
          in case map_of (pool_hashMap peers) (keys ! idx) of None \<Rightarrow> [] | Some peer \<Rightarrow> peer)"

text \<open>The pool of a node whose own URL is \<open>self\<close> after \<open>Set(peers...)\<close>: the URL of the remote peer for a key, if it is a remote one.\<close>

definition PickPeer :: "string \<Rightarrow> string list \<Rightarrow> string \<Rightarrow> string option" where
  "PickPeer self peers key =
     (if pool_keys peers = [] then None
      else let peer = pool_Get peers key in if peer \<noteq> self then Some peer else None)"

text \<open>
  The request for a key that \<open>httpGetter.Get\<close> makes to a peer, and the group and key that \<open>ServeHTTP\<close> there reads from its path.
\<close>

definition basePath :: string where
  "basePath = ''/oncekv/''"

definition peer_URL :: "string \<Rightarrow> string \<Rightarrow> string \<Rightarrow> string" where
  "peer_URL peer name key = (peer @ basePath) @ QueryEscape name @ ''/'' @ QueryEscape key"

definition served_key :: "string \<Rightarrow> (string \<times> string) result" where
  "served_key path =
     (if \<not> HasPrefix path basePath then Err (GoPanic (''HTTPPool serving unexpected path: '' @ path))
      else let rest = drop (length basePath) path in
        if CHR ''/'' \<notin> set rest then Err (Errorf ''bad request'')
        else Ok (split_url rest (CHR ''/'') True))"

section \<open>Caches\<close>

record gcache =
  nbytes :: int
  lru :: "(string \<times> string) list"

definition lru_Add :: "string \<Rightarrow> string \<Rightarrow> (string \<times> string) list \<Rightarrow> (string \<times> string) list" where
  "lru_Add key val ll = (if map_of ll key \<noteq> None then (key, val) # filter (\<lambda>e. fst e \<noteq> key) ll else (key, val) # ll)"

definition lru_Get :: "string \<Rightarrow> (string \<times> string) list \<Rightarrow> string option \<times> (string \<times> string) list" where
  "lru_Get key ll = (case map_of ll key of
     None \<Rightarrow> (None, ll) | Some val \<Rightarrow> (Some val, (key, val) # filter (\<lambda>e. fst e \<noteq> key) ll))"

definition entry_size :: "string \<times> string \<Rightarrow> int" where
  "entry_size e = int (length (fst e)) + int (length (snd e))"

definition cache_add :: "string \<Rightarrow> string \<Rightarrow> gcache \<Rightarrow> gcache" where
  "cache_add key val c = c\<lparr>lru := lru_Add key val (lru c), nbytes := nbytes c + entry_size (key, val)\<rparr>"

definition cache_get :: "string \<Rightarrow> gcache \<Rightarrow> string option \<times> gcache" where
  "cache_get key c = (let (v, ll) = lru_Get key (lru c) in (v, c\<lparr>lru := ll\<rparr>))"

text \<open>\<open>removeOldest\<close>, with the callback \<open>OnEvicted\<close>.\<close>

definition cache_removeOldest :: "gcache \<Rightarrow> gcache" where
  "cache_removeOldest c = (if lru c = [] then c
     else c\<lparr>lru := butlast (lru c), nbytes := nbytes c - entry_size (last (lru c))\<rparr>)"

text \<open>The counters of a group.\<close>

record Stats =
  Gets :: nat
  CacheHits :: nat
  PeerLoads :: nat
  PeerErrors :: nat
  Loads :: nat
  LoadsDeduped :: nat
  LocalLoads :: nat
  LocalLoadErrs :: nat
  ServerRequests :: nat

record group =
  cacheBytes :: int
  mainCache :: gcache
  hotCache :: gcache

definition NewGroup :: "int \<Rightarrow> group" where
  "NewGroup n = \<lparr>cacheBytes = n, mainCache = \<lparr>nbytes = 0, lru = []\<rparr>, hotCache = \<lparr>nbytes = 0, lru = []\<rparr>\<rparr>"

definition lookupCache :: "string \<Rightarrow> group \<Rightarrow> string option \<times> group" where
  "lookupCache key g =
     (if cacheBytes g \<le> 0 then (None, g)
      else case cache_get key (mainCache g) of
        (Some v, c) \<Rightarrow> (Some v, g\<lparr>mainCache := c\<rparr>)
      | (None, c) \<Rightarrow> (let (v, d) = cache_get key (hotCache g) in (v, g\<lparr>mainCache := c, hotCache := d\<rparr>)))"

datatype CacheType = MainCache | HotCache

definition group_removeOldest :: "group \<Rightarrow> group" where
  "group_removeOldest g =
     (if nbytes (hotCache g) > nbytes (mainCache g) sdiv 8
      then g\<lparr>hotCache := cache_removeOldest (hotCache g)\<rparr>
      else g\<lparr>mainCache := cache_removeOldest (mainCache g)\<rparr>)"

partial_function (option) evict_loop :: "group \<Rightarrow> group option" where
  "evict_loop g =
     (if nbytes (mainCache g) + nbytes (hotCache g) \<le> cacheBytes g then Some g
      else evict_loop (group_removeOldest g))"

definition populateCache :: "string \<Rightarrow> string \<Rightarrow> CacheType \<Rightarrow> group \<Rightarrow> group option" where
  "populateCache key val which g =
     (if cacheBytes g \<le> 0 then Some g
      else evict_loop (case which of
          MainCache \<Rightarrow> g\<lparr>mainCache := cache_add key val (mainCache g)\<rparr>
        | HotCache \<Rightarrow> g\<lparr>hotCache := cache_add key val (hotCache g)\<rparr>))"

section \<open>The invariant of the caches\<close>

definition entries_size :: "(string \<times> string) list \<Rightarrow> int" where
  "entries_size ll = sum_list (map entry_size ll)"

definition gcache_ok :: "gcache \<Rightarrow> bool" where
  "gcache_ok c \<longleftrightarrow> distinct (map fst (lru c)) \<and> nbytes c = entries_size (lru c)"

definition group_ok :: "group \<Rightarrow> bool" where
  "group_ok g \<longleftrightarrow> gcache_ok (mainCache g) \<and> gcache_ok (hotCache g)
     \<and> (0 \<le> cacheBytes g \<longrightarrow> nbytes (mainCache g) + nbytes (hotCache g) \<le> cacheBytes g)"

text \<open>Everything a group has in its caches.\<close>

definition cached :: "group \<Rightarrow> (string \<times> string) set" where
  "cached g = set (lru (mainCache g)) \<union> set (lru (hotCache g))"

lemma entry_size_pos: "0 \<le> entry_size e"
  by (simp add: entry_size_def)

lemma entries_size_pos: "0 \<le> entries_size ll"
  unfolding entries_size_def by (rule sum_list_nonneg) (auto simp: entry_size_pos)

lemma entries_size_simps [simp]:
  "entries_size [] = 0" "entries_size (e # ll) = entry_size e + entries_size ll"
  "entries_size (ll @ ll') = entries_size ll + entries_size ll'"
  by (simp_all add: entries_size_def)

lemma entries_size_remove:
  "distinct (map fst ll) \<Longrightarrow> (k, v) \<in> set ll \<Longrightarrow> entry_size (k, v) + entries_size (filter (\<lambda>e. fst e \<noteq> k) ll) = entries_size ll"
proof (induction ll)
  case (Cons e ll)
  show ?case
  proof (cases "fst e = k")
    case True
    with Cons.prems(1) have notin: "k \<notin> fst ` set ll" by auto
    then have "filter (\<lambda>e. fst e \<noteq> k) ll = ll" by (force simp: filter_id_conv)
    moreover have "e = (k, v)" using Cons.prems(2) notin by (metis fst_conv image_eqI set_ConsD)
    ultimately show ?thesis by simp
  next
    case False
    with Cons show ?thesis by auto
  qed
qed simp

lemma lru_Get_facts:
  assumes "distinct (map fst ll)" and "lru_Get key ll = (r, ll')"
  shows "r = map_of ll key" and "set ll' = set ll" and "distinct (map fst ll')" and "entries_size ll' = entries_size ll"
proof -
  show r: "r = map_of ll key" using assms(2) by (auto simp: lru_Get_def split: option.splits)
  show "set ll' = set ll" "distinct (map fst ll')" "entries_size ll' = entries_size ll"
  proof (atomize (full), cases "map_of ll key")
    case None
    with assms show "set ll' = set ll \<and> distinct (map fst ll') \<and> entries_size ll' = entries_size ll" by (auto simp: lru_Get_def)
  next
    case (Some v)
    then have mem: "(key, v) \<in> set ll" by (rule map_of_SomeD)
    have ll': "ll' = (key, v) # filter (\<lambda>e. fst e \<noteq> key) ll" using assms(2) Some by (auto simp: lru_Get_def)
    have same: "w = v" if "(key, w) \<in> set ll" for w by (rule eq_key_imp_eq_value [OF assms(1) that mem])
    have "{e \<in> set ll. fst e \<noteq> key} = set ll - {(key, v)}" by (auto dest: same)
    then have "set ll' = set ll" unfolding ll' by (simp add: insert_absorb [OF mem])
    moreover have "distinct (map fst ll')" unfolding ll' using assms(1) by (auto simp: distinct_map_filter)
    ultimately show "set ll' = set ll \<and> distinct (map fst ll') \<and> entries_size ll' = entries_size ll"
      using entries_size_remove [OF assms(1) mem] unfolding ll' by simp
  qed
qed

lemma cache_get_facts:
  assumes "gcache_ok c" and "cache_get key c = (r, c')"
  shows "set (lru c') = set (lru c)" and "gcache_ok c'" and "nbytes c' = nbytes c"
    and "r = None \<Longrightarrow> key \<notin> fst ` set (lru c)" and "r = Some v \<Longrightarrow> (key, v) \<in> set (lru c)"
proof -
  obtain ll where l: "lru_Get key (lru c) = (r, ll)" "c' = c\<lparr>lru := ll\<rparr>"
    using assms(2) by (auto simp: cache_get_def split: prod.splits)
  have d: "distinct (map fst (lru c))" using assms(1) by (simp add: gcache_ok_def)
  note f = lru_Get_facts [OF d l(1)]
  show "set (lru c') = set (lru c)" "gcache_ok c'" "nbytes c' = nbytes c" using f assms(1) l(2) by (simp_all add: gcache_ok_def)
  show "r = None \<Longrightarrow> key \<notin> fst ` set (lru c)" using f(1) map_of_eq_None_iff [of "lru c" key] by metis
  show "r = Some v \<Longrightarrow> (key, v) \<in> set (lru c)" using f(1) map_of_SomeD [of "lru c" key v] by metis
qed

text \<open>A lookup finds an entry, and changes nothing but the order of use.\<close>

lemma lookupCache_facts:
  assumes "group_ok g" and "lookupCache key g = (r, g')"
  shows "group_ok g' \<and> cached g' = cached g \<and> cacheBytes g' = cacheBytes g
    \<and> (r = None \<and> 0 < cacheBytes g \<longrightarrow> key \<notin> fst ` cached g) \<and> (\<forall>v. r = Some v \<longrightarrow> (key, v) \<in> cached g)"
proof (cases "cacheBytes g \<le> 0")
  case False
  have ok: "gcache_ok (mainCache g)" "gcache_ok (hotCache g)" using assms(1) by (simp_all add: group_ok_def)
  obtain a c where a: "cache_get key (mainCache g) = (a, c)" by fastforce
  obtain b d where b: "cache_get key (hotCache g) = (b, d)" by fastforce
  note fa = cache_get_facts [OF ok(1) a] and fb = cache_get_facts [OF ok(2) b]
  show ?thesis
  proof (cases a)
    case None
    then have "r = b" "g' = g\<lparr>mainCache := c, hotCache := d\<rparr>"
      using assms(2) False a b by (auto simp: lookupCache_def split: prod.splits)
    with fa fb None assms(1) show ?thesis by (auto simp: group_ok_def cached_def image_Un)
  next
    case (Some v)
    then have "r = Some v" "g' = g\<lparr>mainCache := c\<rparr>" using assms(2) False a by (auto simp: lookupCache_def split: prod.splits)
    with fa Some assms(1) show ?thesis by (auto simp: group_ok_def cached_def)
  qed
qed (use assms in \<open>auto simp: lookupCache_def\<close>)

text \<open>Evictions.\<close>

lemma removeOldest_facts:
  assumes "gcache_ok c"
  shows "gcache_ok (cache_removeOldest c)" and "set (lru (cache_removeOldest c)) \<subseteq> set (lru c)"
    and "nbytes c > 0 \<Longrightarrow> length (lru (cache_removeOldest c)) < length (lru c)"
proof -
  have "distinct (map fst (butlast (lru c))) \<and> entries_size (lru c) = entries_size (butlast (lru c)) + entry_size (last (lru c))" if "lru c \<noteq> []"
    using that assms by (metis append_butlast_last_id distinct_append entries_size_simps(1-3) gcache_ok_def map_append add.right_neutral)
  with assms show "gcache_ok (cache_removeOldest c)" by (auto simp: gcache_ok_def cache_removeOldest_def)
  show "set (lru (cache_removeOldest c)) \<subseteq> set (lru c)" by (auto simp: cache_removeOldest_def dest: in_set_butlastD)
  show "nbytes c > 0 \<Longrightarrow> length (lru (cache_removeOldest c)) < length (lru c)"
    using assms by (auto simp: cache_removeOldest_def gcache_ok_def)
qed

lemma gcache_ok_pos: "gcache_ok c \<Longrightarrow> 0 \<le> nbytes c"
  using entries_size_pos [of "lru c"] by (simp add: gcache_ok_def)

lemma group_removeOldest_facts:
  assumes "gcache_ok (mainCache g)" and "gcache_ok (hotCache g)"
  shows "gcache_ok (mainCache (group_removeOldest g))" and "gcache_ok (hotCache (group_removeOldest g))"
    and "cached (group_removeOldest g) \<subseteq> cached g" and "cacheBytes (group_removeOldest g) = cacheBytes g"
    and "0 < nbytes (mainCache g) + nbytes (hotCache g) \<Longrightarrow>
      length (lru (mainCache (group_removeOldest g))) + length (lru (hotCache (group_removeOldest g)))
      < length (lru (mainCache g)) + length (lru (hotCache g))"
proof -
  note m = removeOldest_facts [OF assms(1)] and h = removeOldest_facts [OF assms(2)]
  have pos: "0 \<le> nbytes (mainCache g)" "0 \<le> nbytes (hotCache g)" using assms gcache_ok_pos by blast+
  then have div: "nbytes (mainCache g) sdiv 8 = nbytes (mainCache g) div 8"
    by (cases "nbytes (mainCache g) = 0") (simp_all add: signed_divide_int_def)
  show "gcache_ok (mainCache (group_removeOldest g))" "gcache_ok (hotCache (group_removeOldest g))"
      "cacheBytes (group_removeOldest g) = cacheBytes g"
    using assms m(1) h(1) by (simp_all add: group_removeOldest_def)
  show "cached (group_removeOldest g) \<subseteq> cached g" using m(2) h(2) by (auto simp: group_removeOldest_def cached_def)
  show "0 < nbytes (mainCache g) + nbytes (hotCache g) \<Longrightarrow>
      length (lru (mainCache (group_removeOldest g))) + length (lru (hotCache (group_removeOldest g)))
      < length (lru (mainCache g)) + length (lru (hotCache g))"
  proof (cases "nbytes (hotCache g) > nbytes (mainCache g) div 8")
    case True
    moreover from this have "0 < nbytes (hotCache g)" using pos(1) pos_imp_zdiv_nonneg_iff [of 8 "nbytes (mainCache g)"] by linarith
    ultimately show ?thesis using h(3) by (simp add: group_removeOldest_def div)
  next
    case False
    assume "0 < nbytes (mainCache g) + nbytes (hotCache g)"
    with False pos have "0 < nbytes (mainCache g)" by (cases "nbytes (mainCache g) = 0") auto
    with False m(3) show ?thesis by (simp add: group_removeOldest_def div)
  qed
qed

lemma evict_loop_ends:
  assumes "gcache_ok (mainCache g)" and "gcache_ok (hotCache g)" and "0 \<le> cacheBytes g"
  shows "\<exists>g'. evict_loop g = Some g' \<and> group_ok g' \<and> cached g' \<subseteq> cached g \<and> cacheBytes g' = cacheBytes g"
  using assms
proof (induction "length (lru (mainCache g)) + length (lru (hotCache g))" arbitrary: g rule: less_induct)
  case less
  show ?case
  proof (cases "nbytes (mainCache g) + nbytes (hotCache g) \<le> cacheBytes g")
    case True
    with less.prems show ?thesis by (auto simp: evict_loop.simps group_ok_def)
  next
    case False
    let ?g = "group_removeOldest g"
    note f = group_removeOldest_facts [OF less.prems(1,2)]
    have "\<exists>g'. evict_loop ?g = Some g' \<and> group_ok g' \<and> cached g' \<subseteq> cached ?g \<and> cacheBytes g' = cacheBytes ?g"
      by (rule less.hyps) (use f False less.prems in auto)
    moreover have "evict_loop g = evict_loop ?g" using False by (simp add: evict_loop.simps [of g])
    ultimately show ?thesis using f by fastforce
  qed
qed

lemma cache_add_ok: "gcache_ok c \<Longrightarrow> key \<notin> fst ` set (lru c) \<Longrightarrow> gcache_ok (cache_add key val c) \<and> set (lru (cache_add key val c)) = insert (key, val) (set (lru c))"
  by (simp add: gcache_ok_def cache_add_def lru_Add_def map_of_eq_None_iff)

lemma populateCache_ok:
  assumes "group_ok g" and "0 < cacheBytes g \<longrightarrow> key \<notin> fst ` cached g"
  shows "\<exists>g'. populateCache key val which g = Some g' \<and> group_ok g' \<and> cached g' \<subseteq> insert (key, val) (cached g) \<and> cacheBytes g' = cacheBytes g"
proof (cases "cacheBytes g \<le> 0")
  case False
  let ?g = "case which of MainCache \<Rightarrow> g\<lparr>mainCache := cache_add key val (mainCache g)\<rparr> | HotCache \<Rightarrow> g\<lparr>hotCache := cache_add key val (hotCache g)\<rparr>"
  have "key \<notin> fst ` set (lru (mainCache g))" "key \<notin> fst ` set (lru (hotCache g))"
    using assms(2) False by (auto simp: cached_def image_Un)
  then have "gcache_ok (mainCache ?g)" "gcache_ok (hotCache ?g)" "cached ?g = insert (key, val) (cached g)"
    using assms(1) cache_add_ok by (auto simp: group_ok_def cached_def split: CacheType.split)
  moreover have "cacheBytes ?g = cacheBytes g" by (simp split: CacheType.split)
  ultimately show ?thesis using evict_loop_ends [of ?g] False by (simp add: populateCache_def)
qed (use assms(1) in \<open>auto simp: populateCache_def\<close>)

section \<open>Lemmas on the pool\<close>

lemma search_le: "i \<le> j \<Longrightarrow> search f i j \<le> j"
proof (induction f i j rule: search.induct)
  case (1 f i j)
  let ?h = "(i + j) div 2"
  have "search f (?h + 1) j \<le> j" if "i < j" "\<not> f ?h" using 1 that by simp
  moreover have "search f i ?h \<le> ?h" if "i < j" "f ?h" using 1 that by simp
  moreover have "?h \<le> j" using "1.prems" by simp
  ultimately show ?case using "1.prems" by (subst search.simps) (auto simp: Let_def dest: le_trans)
qed

lemma map_of_foldl_put: "map_of (foldl (\<lambda>m (h, p). map_put h p m) m ps) h =
    (case map_of (rev ps) h of None \<Rightarrow> map_of m h | Some p \<Rightarrow> Some p)"
  by (induction ps arbitrary: m) (auto simp: map_add_def split: option.split)

text \<open>The owner of a key is one of the peers.\<close>

lemma pool_keys_Nil: "pool_keys peers = [] \<longleftrightarrow> peers = []"
  by (cases peers) (simp_all add: pool_keys_def peer_points_def upto.simps)

lemma pool_Get_peer:
  assumes "peers \<noteq> []"
  shows "pool_Get peers key \<in> set peers"
proof -
  let ?ks = "pool_keys peers" and ?ps = "concat (map peer_points peers)"
  let ?f = "search (\<lambda>i. ?ks ! i \<ge> uint (ChecksumIEEE key)) 0 (length ?ks)"
  let ?i = "if ?f = length ?ks then 0 else ?f"
  have ne: "?ks \<noteq> []" using assms by (simp add: pool_keys_Nil)
  then have "?i < length ?ks" using search_le [of 0 "length ?ks"] by (auto simp: le_less)
  then have "?ks ! ?i \<in> set ?ks" by (rule nth_mem)
  then have "?ks ! ?i \<in> fst ` set (rev ?ps)" by (simp add: pool_keys_def)
  then obtain p where p: "map_of (rev ?ps) (?ks ! ?i) = Some p" by (metis map_of_eq_None_iff not_None_eq)
  then have "(?ks ! ?i, p) \<in> set ?ps" using map_of_SomeD by fastforce
  then have "p \<in> set peers" by (auto simp: peer_points_def)
  with p ne show ?thesis by (simp add: pool_Get_def Let_def pool_hashMap_def map_of_foldl_put)
qed

lemma PickPeer_peer: "PickPeer self peers key = Some p \<Longrightarrow> p \<in> set peers \<and> p \<noteq> self \<and> p = pool_Get peers key"
  using pool_Get_peer by (auto simp: PickPeer_def pool_keys_Nil Let_def split: if_splits)

text \<open>A request from one peer to another: the key arrives with its blanks changed.\<close>

lemma served_peer_key:
  assumes "peer = ''http://'' @ h" and "plain_host h" and "url_Parse (peer_URL peer name key) = Ok u"
    and "CHR ''/'' \<notin> set name" and "CHR '' '' \<notin> set name"
  shows "Host u = h \<and> served_key (url_Path u) = Ok (name, plus_blanks key)"
proof -
  let ?r = "''oncekv/'' @ QueryEscape name @ ''/'' @ QueryEscape key"
  have "CHR ''?'' \<notin> set ?r" "CHR ''#'' \<notin> set ?r" using QueryEscape_safe by simp_all
  then have "path_part ?r = ?r" by (simp add: path_part_id)
  moreover have "unescape encodePath ?r = Ok (''oncekv/'' @ plus_blanks name @ ''/'' @ plus_blanks key)"
    using unescape_QueryEscape_append [of key "[]"] by (simp add: unescape_append unescape_QueryEscape_append)
  moreover have "peer_URL peer name key = ''http://'' @ h @ CHR ''/'' # ?r" by (simp add: peer_URL_def basePath_def assms(1))
  ultimately have u: "Host u = h" "url_Path u = ''/oncekv/'' @ name @ ''/'' @ plus_blanks key"
    using Parse_http [OF assms(2), of ?r u] assms(3,5) by (simp_all add: plus_blanks_id)
  moreover have "split_url (name @ ''/'' @ plus_blanks key) (CHR ''/'') True = (name, plus_blanks key)"
    using assms(4) by (simp add: split_url_def takeWhile_neq_append dropWhile_neq_append)
  ultimately show ?thesis by (simp add: served_key_def basePath_def HasPrefix_def)
qed

section \<open>Properties\<close>

text \<open>
  C13: keeping a value ends. On a group whose byte counts are exact, and with a key that neither cache has yet, as load
  makes sure, populateCache returns: its loop evicts until the caches fit again. The counts are exact again, and
  what is then cached was cached before or is the new entry.
\<close>

theorem populateCache_ends:
  assumes "group_ok g" and "key \<notin> fst ` cached g"
  shows "\<exists>g'. populateCache key val which g = Some g' \<and> group_ok g' \<and> cached g' \<subseteq> insert (key, val) (cached g)
    \<and> (0 < cacheBytes g \<longrightarrow> nbytes (mainCache g') + nbytes (hotCache g') \<le> cacheBytes g)"
proof -
  from populateCache_ok [OF assms(1), of key val which] assms(2) obtain g' where
    "populateCache key val which g = Some g'" "group_ok g'" "cached g' \<subseteq> insert (key, val) (cached g)" "cacheBytes g' = cacheBytes g" by auto
  then show ?thesis by (intro exI [of _ g']) (simp add: group_ok_def)
qed

text \<open>A cache of eight bytes that an old entry fills.\<close>

theorem populateCache_ends_witness:
  "\<exists>g'. populateCache ''k'' ''v'' MainCache
     \<lparr>cacheBytes = 8, mainCache = \<lparr>nbytes = 8, lru = [(''old'', ''value'')]\<rparr>, hotCache = \<lparr>nbytes = 0, lru = []\<rparr>\<rparr> = Some g'
   \<and> nbytes (mainCache g') + nbytes (hotCache g') \<le> 8"
  using populateCache_ends [of "\<lparr>cacheBytes = 8, mainCache = \<lparr>nbytes = 8, lru = [(''old'', ''value'')]\<rparr>, hotCache = \<lparr>nbytes = 0, lru = []\<rparr>\<rparr>"
      "''k''" "''v''" MainCache]
  by (auto simp: group_ok_def gcache_ok_def cached_def entry_size_def)

end
