(* ===== verification/CacheTier.thy ===== *)
theory CacheTier
  imports CacheNode Groupcache
begin

text \<open>
  The cache tier: several cache nodes whose groups share the keys among them. \<open>tier_get\<close> is a call of \<open>Group.Get\<close> on one node, with
  everything it sets off: the lookup in both caches, the request to the peer that the pool picks, which
  is a \<open>Get\<close> on that node in its turn, the fallback to the databases when the peer fails (\<open>fetchData\<close>), and what is then kept in the caches.
  It is an inductive relation because the reads of the databases race, because a request between peers may fail or its answer be
  lost, and because a node keeps one in ten foreign values at random. A key that a node is loading is busy: a
  second load waits for the first, so a request that comes back to a busy key never returns and has no derivation.
\<close>

section \<open>Model\<close>

record cache_server =
  srv_node :: Node
  srv_group :: group

type_synonym tier = "cache_server list"

definition new_server :: "string \<Rightarrow> string \<Rightarrow> string \<Rightarrow> cache_server" where
  "new_server h n mst = \<lparr>srv_node = node_New h n mst, srv_group = NewGroup (CacheBytes Config)\<rparr>"

definition defaultGroup :: string where
  "defaultGroup = ''kv''"

definition set_group :: "nat \<Rightarrow> group \<Rightarrow> tier \<Rightarrow> tier" where
  "set_group i g T = T[i := (T ! i)\<lparr>srv_group := g\<rparr>]"

text \<open>Which node a request to a peer arrives at, and the key it asks for there.\<close>

definition peer_request :: "tier \<Rightarrow> string \<Rightarrow> string \<Rightarrow> (nat \<times> string) option" where
  "peer_request T peer key = (case url_Parse (peer_URL peer defaultGroup key) of
     Inl _ \<Rightarrow> None
   | Inr u \<Rightarrow>
       (case (filter (\<lambda>j. addr_host (node_nodeAddr (srv_node (T ! j))) = Host u) [0..<length T], served_key (url_Path u)) of
          (j # _, Inr (name, k)) \<Rightarrow> if name = defaultGroup then Some (j, k) else None
        | _ \<Rightarrow> None))"

text \<open>\<open>getLocally\<close> and what \<open>load\<close> does with its result.\<close>

definition load_locally :: "HTTPGetter \<Rightarrow> nat \<Rightarrow> string \<Rightarrow> tier \<Rightarrow> string result \<Rightarrow> tier \<Rightarrow> bool" where
  "load_locally getter i key T r T' \<longleftrightarrow> (\<exists>v e nd. (v, e, nd) \<in> fetchData getter key (srv_node (T ! i)) \<and>
     (case e of
        Some err \<Rightarrow> r = Err err \<and> T' = T[i := (T ! i)\<lparr>srv_node := nd\<rparr>]
      | None \<Rightarrow> r = Ok v \<and> (\<exists>g. populateCache key v MainCache (srv_group (T ! i)) = Some g
          \<and> T' = T[i := \<lparr>srv_node = nd, srv_group = g\<rparr>])))"

text \<open>\<open>getFromPeer\<close> after the answer: \<open>hot\<close> is whether the random number was 0.\<close>

definition keep_foreign :: "bool \<Rightarrow> nat \<Rightarrow> string \<Rightarrow> string \<Rightarrow> tier \<Rightarrow> tier option" where
  "keep_foreign hot i key v T =
     (if hot then map_option (\<lambda>g. set_group i g T) (populateCache key v HotCache (srv_group (T ! i))) else Some T)"

definition pick :: "tier \<Rightarrow> nat \<Rightarrow> string \<Rightarrow> string option" where
  "pick T i key = PickPeer (pool_self (srv_node (T ! i))) (pool_peers (srv_node (T ! i))) key"

inductive tier_get :: "HTTPGetter \<Rightarrow> (nat \<times> string) set \<Rightarrow> tier \<Rightarrow> nat \<Rightarrow> string \<Rightarrow> string result \<Rightarrow> tier \<Rightarrow> bool"
  for getter :: HTTPGetter where
  Hit: "i < length T \<Longrightarrow> lookupCache key (srv_group (T ! i)) = (Some v, g)
    \<Longrightarrow> tier_get getter busy T i key (Ok v) (set_group i g T)"
| Local: "i < length T \<Longrightarrow> lookupCache key (srv_group (T ! i)) = (None, g) \<Longrightarrow> (i, key) \<notin> busy
    \<Longrightarrow> pick T i key = None \<Longrightarrow> load_locally getter i key (set_group i g T) r T'
    \<Longrightarrow> tier_get getter busy T i key r T'"
| FromPeer: "i < length T \<Longrightarrow> lookupCache key (srv_group (T ! i)) = (None, g) \<Longrightarrow> (i, key) \<notin> busy
    \<Longrightarrow> pick T i key = Some peer \<Longrightarrow> peer_request (set_group i g T) peer key = Some (j, k)
    \<Longrightarrow> tier_get getter (insert (i, key) busy) (set_group i g T) j k (Ok v) T1 \<Longrightarrow> keep_foreign hot i key v T1 = Some T'
    \<Longrightarrow> tier_get getter busy T i key (Ok v) T'"
| Unreachable: "i < length T \<Longrightarrow> lookupCache key (srv_group (T ! i)) = (None, g) \<Longrightarrow> (i, key) \<notin> busy
    \<Longrightarrow> pick T i key = Some peer \<Longrightarrow> load_locally getter i key (set_group i g T) r T'
    \<Longrightarrow> tier_get getter busy T i key r T'"
| PeerFails: "i < length T \<Longrightarrow> lookupCache key (srv_group (T ! i)) = (None, g) \<Longrightarrow> (i, key) \<notin> busy
    \<Longrightarrow> pick T i key = Some peer \<Longrightarrow> peer_request (set_group i g T) peer key = Some (j, k)
    \<Longrightarrow> tier_get getter (insert (i, key) busy) (set_group i g T) j k r1 T1 \<Longrightarrow> load_locally getter i key T1 r T'
    \<Longrightarrow> tier_get getter busy T i key r T'"

section \<open>Invariants\<close>

text \<open>The caches are in order, and every body in them satisfies \<open>P\<close>.\<close>

definition tier_ok :: "(string \<Rightarrow> bool) \<Rightarrow> tier \<Rightarrow> bool" where
  "tier_ok P T \<longleftrightarrow> (\<forall>s\<in>set T. group_ok (srv_group s) \<and> cacheBytes (srv_group s) = CacheBytes Config \<and> (\<forall>e\<in>cached (srv_group s). P (snd e)))"

definition absent :: "(nat \<times> string) set \<Rightarrow> tier \<Rightarrow> bool" where
  "absent busy T \<longleftrightarrow> (\<forall>i k. (i, k) \<in> busy \<longrightarrow> i < length T \<longrightarrow> 0 < cacheBytes (srv_group (T ! i)) \<longrightarrow> k \<notin> fst ` cached (srv_group (T ! i)))"

text \<open>Every value that can be read from a database through \<open>getter\<close> satisfies \<open>P\<close>.\<close>

definition fetches :: "(string \<Rightarrow> bool) \<Rightarrow> HTTPGetter \<Rightarrow> bool" where
  "fetches P getter \<longleftrightarrow> (\<forall>k u b. node_find getter k u = Ok b \<longrightarrow> P b)"

lemma tier_ok_nth: "tier_ok P T \<Longrightarrow> i < length T \<Longrightarrow> group_ok (srv_group (T ! i)) \<and> cacheBytes (srv_group (T ! i)) = CacheBytes Config \<and> (\<forall>e\<in>cached (srv_group (T ! i)). P (snd e))"
  unfolding tier_ok_def using nth_mem by blast

lemma tier_ok_cached: "tier_ok P T \<Longrightarrow> s \<in> set T \<Longrightarrow> (k, b) \<in> cached (srv_group s) \<Longrightarrow> P b"
  by (fastforce simp: tier_ok_def)

lemma tier_ok_update:
  assumes "tier_ok P T" and "group_ok (srv_group s)" and "cacheBytes (srv_group s) = CacheBytes Config" and "\<forall>e\<in>cached (srv_group s). P (snd e)"
  shows "tier_ok P (T[i := s])"
  using assms set_update_subset_insert [of T i s] unfolding tier_ok_def by blast

lemma absent_update:
  assumes "absent busy T" and "cacheBytes (srv_group s) = cacheBytes (srv_group (T ! i))"
    and "\<forall>k. (i, k) \<in> busy \<longrightarrow> k \<in> fst ` cached (srv_group s) \<longrightarrow> k \<in> fst ` cached (srv_group (T ! i))"
  shows "absent busy (T[i := s])"
  unfolding absent_def
proof (intro allI impI)
  fix j k
  assume "(j, k) \<in> busy" and "j < length (T[i := s])" and "0 < cacheBytes (srv_group (T[i := s] ! j))"
  with assms show "k \<notin> fst ` cached (srv_group (T[i := s] ! j))" by (cases "i = j") (auto simp: absent_def)
qed

text \<open>
  Loading a key that is not there yet: everything stays in order, what is new is what was fetched,
  and only that key is added.
\<close>

lemma populate_tier:
  assumes "tier_ok P T" and "absent busy T" and "i < length T" and "(i, key) \<notin> busy" and "P v"
    and "0 < cacheBytes (srv_group (T ! i)) \<longrightarrow> key \<notin> fst ` cached (srv_group (T ! i))"
    and "populateCache key v which (srv_group (T ! i)) = Some g"
  shows "tier_ok P (T[i := \<lparr>srv_node = nd, srv_group = g\<rparr>]) \<and> absent busy (T[i := \<lparr>srv_node = nd, srv_group = g\<rparr>])"
proof -
  have ok: "group_ok (srv_group (T ! i))" "cacheBytes (srv_group (T ! i)) = CacheBytes Config" "\<forall>e\<in>cached (srv_group (T ! i)). P (snd e)" using tier_ok_nth [OF assms(1,3)] by auto
  have g: "group_ok g" "cached g \<subseteq> insert (key, v) (cached (srv_group (T ! i)))" "cacheBytes g = cacheBytes (srv_group (T ! i))"
    using populateCache_ok [OF ok(1) assms(6), of v which] assms(7) by auto
  have "tier_ok P (T[i := \<lparr>srv_node = nd, srv_group = g\<rparr>])" by (rule tier_ok_update) (use assms(1,5) g ok in auto)
  moreover have "absent busy (T[i := \<lparr>srv_node = nd, srv_group = g\<rparr>])" by (rule absent_update) (use assms(2,4) g in auto)
  ultimately show ?thesis ..
qed

lemma load_locally_tier:
  assumes "load_locally getter i key T r T'" and "tier_ok P T" and "absent (insert (i, key) busy) T" and "i < length T" and "(i, key) \<notin> busy"
    and "fetches P getter"
  shows "length T' = length T \<and> tier_ok P T' \<and> absent busy T' \<and> (\<forall>v. r = Ok v \<longrightarrow> P v)"
proof -
  obtain v e nd where f: "(v, e, nd) \<in> fetchData getter key (srv_node (T ! i))"
    and res: "case e of Some err \<Rightarrow> r = Err err \<and> T' = T[i := (T ! i)\<lparr>srv_node := nd\<rparr>]
      | None \<Rightarrow> r = Ok v \<and> (\<exists>g. populateCache key v MainCache (srv_group (T ! i)) = Some g \<and> T' = T[i := \<lparr>srv_node = nd, srv_group = g\<rparr>])"
    using assms(1) unfolding load_locally_def by blast
  have busy: "absent busy T" and key: "0 < cacheBytes (srv_group (T ! i)) \<longrightarrow> key \<notin> fst ` cached (srv_group (T ! i))"
    using assms(3,4) by (auto simp: absent_def)
  show ?thesis
  proof (cases e)
    case None
    with f have "\<exists>u. node_find getter key u = Ok v"
      by (auto elim!: fetchData_cases dest!: tryAll_value)
    then have "P v" using assms(6) by (auto simp: fetches_def)
    with res None populate_tier [OF assms(2) busy assms(4,5) _ key] show ?thesis by auto
  next
    case (Some err)
    with res have T': "T' = T[i := (T ! i)\<lparr>srv_node := nd\<rparr>]" "r = Err err" by auto
    have "tier_ok P T'" unfolding T' by (rule tier_ok_update) (use assms(2) tier_ok_nth [OF assms(2,4)] in auto)
    moreover have "absent busy T'" unfolding T' by (rule absent_update) (use busy in auto)
    ultimately show ?thesis using T' by simp
  qed
qed

lemma lookup_tier:
  assumes "tier_ok P T" and "absent busy T" and "i < length T" and "lookupCache key (srv_group (T ! i)) = (r, g)"
  shows "tier_ok P (set_group i g T)" and "absent busy (set_group i g T)"
    and "r = None \<Longrightarrow> absent (insert (i, key) busy) (set_group i g T)" and "r = Some v \<Longrightarrow> P v"
proof -
  note n = tier_ok_nth [OF assms(1,3)]
  note f = lookupCache_facts [OF conjunct1 [OF n] assms(4)]
  show "tier_ok P (set_group i g T)" unfolding set_group_def by (rule tier_ok_update) (use assms(1) n f in auto)
  show a: "absent busy (set_group i g T)" unfolding set_group_def by (rule absent_update) (use assms(2) f in auto)
  show "r = None \<Longrightarrow> absent (insert (i, key) busy) (set_group i g T)"
    using a f assms(3) by (auto simp: absent_def set_group_def)
  show "r = Some v \<Longrightarrow> P v" using f n by auto
qed

text \<open>A read keeps the caches in order, and what it returns and leaves behind was fetched from a database, then or earlier.\<close>

lemma tier_get_ok:
  assumes "tier_get getter busy T i key r T'" and "fetches P getter"
    and "tier_ok P T" and "absent busy T"
  shows "length T' = length T \<and> tier_ok P T' \<and> absent busy T' \<and> (\<forall>v. r = Ok v \<longrightarrow> P v)"
  using assms(1,3,4)
proof (induction rule: tier_get.induct)
  case (Hit i T key v g busy)
  from lookup_tier [OF Hit.prems Hit.hyps(1,2)] show ?case by (simp add: set_group_def)
next
  case (Local i T key g busy r T')
  from lookup_tier [OF Local.prems Local.hyps(1,2)] load_locally_tier [OF Local.hyps(5) _ _ _ Local.hyps(3) assms(2)] Local.hyps(1)
  show ?case by (simp add: set_group_def)
next
  case (FromPeer i T key g busy peer j k v T1 hot T')
  have T1: "length T1 = length T" "tier_ok P T1" "absent (insert (i, key) busy) T1" "P v"
    using FromPeer.IH lookup_tier [OF FromPeer.prems FromPeer.hyps(1,2)] by (auto simp: set_group_def)
  then have i: "i < length T1" and b: "absent busy T1" and key: "0 < cacheBytes (srv_group (T1 ! i)) \<longrightarrow> key \<notin> fst ` cached (srv_group (T1 ! i))"
    using FromPeer.hyps(1) by (auto simp: absent_def)
  show ?case
  proof (cases hot)
    case True
    then obtain g' where g': "populateCache key v HotCache (srv_group (T1 ! i)) = Some g'" "T' = set_group i g' T1"
      using FromPeer.hyps(7) by (auto simp: keep_foreign_def)
    moreover have "set_group i g' T1 = T1[i := \<lparr>srv_node = srv_node (T1 ! i), srv_group = g'\<rparr>]"
      by (cases "T1 ! i") (simp add: set_group_def)
    ultimately show ?thesis using populate_tier [OF T1(2) b i FromPeer.hyps(3) T1(4) key g'(1), of "srv_node (T1 ! i)"] T1(1,4) by simp
  next
    case False
    with FromPeer.hyps(7) b T1 show ?thesis by (simp add: keep_foreign_def)
  qed
next
  case (Unreachable i T key g busy peer r T')
  from lookup_tier [OF Unreachable.prems Unreachable.hyps(1,2)] load_locally_tier [OF Unreachable.hyps(5) _ _ _ Unreachable.hyps(3) assms(2)] Unreachable.hyps(1)
  show ?case by (simp add: set_group_def)
next
  case (PeerFails i T key g busy peer j k r1 T1 r T')
  have T1: "length T1 = length T" "tier_ok P T1" "absent (insert (i, key) busy) T1"
    using PeerFails.IH lookup_tier [OF PeerFails.prems PeerFails.hyps(1,2)] by (auto simp: set_group_def)
  with load_locally_tier [OF PeerFails.hyps(7) _ _ _ PeerFails.hyps(3) assms(2)] PeerFails.hyps(1) show ?case by simp
qed

section \<open>Reads return\<close>

lemma load_locally_returns:
  assumes "group_ok (srv_group (T ! i))" and "0 < cacheBytes (srv_group (T ! i)) \<longrightarrow> key \<notin> fst ` cached (srv_group (T ! i))"
  shows "\<exists>r T'. load_locally getter i key T r T'"
proof -
  obtain v e nd where f: "(v, e, nd) \<in> fetchData getter key (srv_node (T ! i))" using fetchData_nonempty by blast
  obtain g where "populateCache key v MainCache (srv_group (T ! i)) = Some g" using populateCache_ok [OF assms] by blast
  moreover note f
  ultimately show ?thesis unfolding load_locally_def
    by (intro exI [of _ "case e of None \<Rightarrow> Ok v | Some err \<Rightarrow> Err err"]
      exI [of _ "case e of None \<Rightarrow> T[i := \<lparr>srv_node = nd, srv_group = g\<rparr>] | Some err \<Rightarrow> T[i := (T ! i)\<lparr>srv_node := nd\<rparr>]"]
      exI [of _ v] exI [of _ e] exI [of _ nd]) (simp split: option.split)
qed

text \<open>A read on a node that does not pass it on has an outcome, whoever else waits for it.\<close>

lemma tier_get_here:
  assumes "group_ok (srv_group (T ! i))" and "i < length T" and "(i, key) \<notin> busy" and "pick T i key = None"
  shows "\<exists>r T'. tier_get getter busy T i key r T'"
proof -
  obtain c g where c: "lookupCache key (srv_group (T ! i)) = (c, g)" by fastforce
  show ?thesis
  proof (cases c)
    case None
    note f = lookupCache_facts [OF assms(1) c]
    have "\<exists>r T'. load_locally getter i key (set_group i g T) r T'"
      by (rule load_locally_returns) (use f None assms(2) in \<open>auto simp: set_group_def\<close>)
    with tier_get.Local [OF assms(2) c [unfolded None] assms(3,4)] show ?thesis by blast
  next
    case (Some v)
    with tier_get.Hit [OF assms(2)] c show ?thesis by blast
  qed
qed

section \<open>Agreement on the peers\<close>

text \<open>All nodes have the list \<open>ps\<close> that the cache master sends, of the URLs of their groupcache servers.\<close>

definition agreed :: "string list \<Rightarrow> tier \<Rightarrow> bool" where
  "agreed ps T \<longleftrightarrow> (\<forall>p\<in>set ps. plain_addr p \<and> MakeURL p = p) \<and>
     (\<forall>s\<in>set T. pool_peers (srv_node s) = ps \<and> plain_addr (node_nodeAddr (srv_node s))
        \<and> pool_self (srv_node s) = MakeURL (node_nodeAddr (srv_node s)))"

lemma peer_request_key:
  assumes "plain_addr p" and "MakeURL p = p" and "peer_request T p key = Some (j, k)"
  shows "k = plus_blanks key \<and> j < length T \<and> addr_host (node_nodeAddr (srv_node (T ! j))) = addr_host p"
proof -
  from assms(3) obtain u where u: "url_Parse (peer_URL p defaultGroup key) = Ok u"
    by (auto simp: peer_request_def split: sum.splits)
  have p: "p = ''http://'' @ addr_host p" using plain_addr_URL [OF assms(1)] assms(2) by simp
  have h: "Host u = addr_host p \<and> served_key (url_Path u) = Ok (defaultGroup, plus_blanks key)"
    by (rule served_peer_key [OF p _ u]) (use assms(1) in \<open>simp_all add: plain_addr_def defaultGroup_def\<close>)
  let ?js = "filter (\<lambda>j. addr_host (node_nodeAddr (srv_node (T ! j))) = addr_host p) [0..<length T]"
  from assms(3) h u obtain js where js: "?js = j # js" and k: "k = plus_blanks key" by (auto simp: peer_request_def split: list.splits)
  have "j \<in> set ?js" unfolding js by simp
  with k show ?thesis unfolding set_filter by simp
qed

section \<open>Properties\<close>

text \<open>
  C19: a key has one loader. When all cache nodes have been sent the same peers, a node that does not own a key
  asks the owner, which is another node, and the owner, if the key has no blank in it, loads the key itself instead of
  passing the request on. So no request can run in a circle, and the owner's read has an outcome while the first node
  waits for it, whatever the databases answer. A blank arrives as a plus sign: the owner then answers for another key.
\<close>

theorem owner_loads_itself:
  assumes "agreed ps T" and "tier_ok P T" and "i < length T" and "pick T i key = Some p" and "peer_request T p key = Some (j, k)"
  shows "k = map (\<lambda>c. if c = CHR '' '' then CHR ''+'' else c) key \<and> p = pool_self (srv_node (T ! j))
    \<and> i \<noteq> j \<and> (CHR '' '' \<notin> set key \<longrightarrow> k = key \<and> pick T j k = None \<and> (\<exists>r T'. tier_get getter {(i, key)} T j k r T'))"
proof -
  have i: "pool_peers (srv_node (T ! i)) = ps" using assms(1,3) by (simp add: agreed_def)
  then have p: "p \<in> set ps" "p = pool_Get ps key" "p \<noteq> pool_self (srv_node (T ! i))" using PickPeer_peer assms(4) by (auto simp: pick_def)
  then have addr: "plain_addr p" "MakeURL p = p" using assms(1) by (auto simp: agreed_def)
  note r = peer_request_key [OF this assms(5)]
  then have j: "plain_addr (node_nodeAddr (srv_node (T ! j)))" "pool_peers (srv_node (T ! j)) = ps"
      "pool_self (srv_node (T ! j)) = MakeURL (node_nodeAddr (srv_node (T ! j)))"
    using assms(1) by (auto simp: agreed_def)
  then have self: "pool_self (srv_node (T ! j)) = p"
    using plain_addr_URL [OF j(1)] plain_addr_URL [OF addr(1)] addr(2) r by simp
  then have "pick T j k = None" if "CHR '' '' \<notin> set key"
    using that r p(2) j(2) by (simp add: pick_def PickPeer_def Let_def plus_blanks_id)
  moreover have "i \<noteq> j" using p(3) self by auto
  moreover have "\<exists>r T'. tier_get getter {(i, key)} T j k r T'" if "pick T j k = None"
    by (rule tier_get_here) (use that r tier_ok_nth [OF assms(2)] \<open>i \<noteq> j\<close> in auto)
  moreover have "k = key" if "CHR '' '' \<notin> set key" using that r by (simp add: plus_blanks_id)
  moreover have "k = map (\<lambda>c. if c = CHR '' '' then CHR ''+'' else c) key" using r by (simp add: plus_blanks_def)
  ultimately show ?thesis using self by blast
qed

text \<open>Two nodes that have been sent one peer.\<close>

abbreviation two_nodes :: tier where
  "two_nodes \<equiv> map (\<lambda>n. \<lparr>srv_node = (node_New ''a:1'' n ''m:1'')\<lparr>pool_peers := [''http://b:2'']\<rparr>, srv_group = NewGroup (CacheBytes Config)\<rparr>) [''a:2'', ''b:2'']"

theorem owner_loads_itself_witness: "pick two_nodes 0 ''k'' = Some ''http://b:2'' \<and> pick two_nodes 1 ''k'' = None
  \<and> (\<exists>r T. tier_get (\<lambda>_. Err (Errorf ''refused'')) {(0, ''k'')} two_nodes 1 ''k'' r T)"
proof -
  have url: "MakeURL ''a:2'' = ''http://a:2''" "MakeURL ''b:2'' = ''http://b:2''" "MakeURL ''http://b:2'' = ''http://b:2''"
    by (simp_all add: MakeURL_def HasPrefix_def TrimSuffix_def)
  then have host: "addr_host ''a:2'' = ''a:2''" "addr_host ''b:2'' = ''b:2''" "addr_host ''http://b:2'' = ''b:2''" by (simp_all add: addr_host_def)
  have "plain_addr ''a:2''" "plain_addr ''b:2''" "plain_addr ''http://b:2''"
    by (simp_all add: plain_addr_def url host HasPrefix_def plain_host_def host_char_def is_alnum_def)
  then have ag: "agreed [''http://b:2''] two_nodes" by (simp add: agreed_def node_New_def url)
  have "pool_Get [''http://b:2''] ''k'' = ''http://b:2''" using pool_Get_peer [of "[''http://b:2'']" "''k''"] by simp
  then have pk: "pick two_nodes 0 ''k'' = Some ''http://b:2''" by (simp add: pick_def PickPeer_def pool_keys_Nil node_New_def url)
  have "url_Parse (peer_URL ''http://b:2'' defaultGroup ''k'') =
      Ok \<lparr>Scheme = ''http'', Opaque = [], Host = ''b:2'', url_Path = ''/oncekv/kv/k'', RawQuery = [], Fragment = []\<rparr>"
    using Parse_http_plain [of "''b:2''" "''oncekv/kv/k''"]
    by (simp add: peer_URL_def basePath_def defaultGroup_def escape_char_def query_escapes_def is_alnum_def plain_host_def host_char_def)
  then have rq: "peer_request two_nodes ''http://b:2'' ''k'' = Some (1, ''k'')"
    by (simp add: peer_request_def served_key_def basePath_def HasPrefix_def split_url_def node_New_def host defaultGroup_def upt_rec)
  have ok: "tier_ok (\<lambda>_. True) two_nodes"
    by (simp add: tier_ok_def NewGroup_def group_ok_def gcache_ok_def Config_def)
  have "0 < length two_nodes" "CHR '' '' \<notin> set ''k''" by simp_all
  with owner_loads_itself [OF ag ok _ pk rq] pk show ?thesis by blast
qed

end
