(* ===== verification/System.thy ===== *)
theory System
  imports Replication HttpNet CacheTier
begin

text \<open>
  The whole system: the databases of \<open>Replication\<close> behind their HTTP service, the cache nodes of \<open>CacheTier\<close> that read from them over
  \<open>http.Get\<close>, and clients that read from both. A step (\<open>sys_step\<close>) is an event of the storage, a read of a cache node with
  all it sets off, new peers or databases for a cache node, or a cache node that starts, anew or again.

  A request takes time, and the requests of one read go out at different moments. The system therefore keeps all states of
  the storage so far, and a database answers a read of a cache node as it was at any of them (\<open>answered_by\<close>), or not at all; a client
  is answered by any server as it was at some moment of the run (\<open>answers_from\<close>).

  What makes this safe is \<open>honest\<close>: whatever a client takes from a body as the value of a key, by \<open>parseData\<close>, is the committed value of that key.
  Bodies of other keys, which unescaped URLs lead to, are honest as well.
\<close>

section \<open>Model\<close>

text \<open>
  What \<open>/stats\<close> is answered with: a database prints the map that \<open>raft.Stats\<close> returns, a parameter of which only its keys and
  the encoding of its values are used; a cache node prints the counters of its group, whatever they are.
\<close>

type_synonym raft_stats = "replica \<Rightarrow> string gomap"

definition raft_stats_keys :: "string list" where
  "raft_stats_keys = [''state'', ''term'', ''last_log_index'', ''last_log_term'', ''commit_index'', ''applied_index'', ''fsm_pending'',
     ''last_snapshot_index'', ''last_snapshot_term'', ''num_peers'', ''last_contact'']"

definition plain_stats :: "raft_stats \<Rightarrow> bool" where
  "plain_stats st \<longleftrightarrow> (\<forall>r. \<forall>(k, v)\<in>set (st r). k \<in> set raft_stats_keys \<and> valid_utf8 v)"

definition json_of_Stats :: "Stats \<Rightarrow> json" where
  "json_of_Stats t = JObj (map (\<lambda>(f, n). (f, JNum (decimal n)))
     [(''Gets'', Gets t), (''CacheHits'', CacheHits t), (''PeerLoads'', PeerLoads t), (''PeerErrors'', PeerErrors t), (''Loads'', Loads t),
      (''LoadsDeduped'', LoadsDeduped t), (''LocalLoads'', LocalLoads t), (''LocalLoadErrs'', LocalLoadErrs t), (''ServerRequests'', ServerRequests t)])"

text \<open>A GET without the headers of a web socket is refused by the upgrade with 400.\<close>

definition bad_upgrade :: http_response where
  "bad_upgrade = \<lparr>StatusCode = StatusBadRequest, Body = Ok ''Bad Request''\<rparr>"

definition db_GET :: "raft_stats \<Rightarrow> open_env \<Rightarrow> replica \<Rightarrow> get_server" where
  "db_GET st env r path =
     (case serve (raft_store (\<lambda>_. st r) env None (\<lambda>a. Ok [a])) (rep_svc r) (rep_store r) ''GET'' path [] of
        None \<Rightarrow> bad_upgrade | Some (resp, _) \<Rightarrow> resp)"

definition db_at :: "cluster \<Rightarrow> string \<Rightarrow> replica option" where
  "db_at c host = (case filter (\<lambda>r. addr_host (httpAddr (rep_svc r)) = host) (cl_replicas c) of [] \<Rightarrow> None | r # _ \<Rightarrow> Some r)"

definition cl_getter :: "raft_stats \<Rightarrow> open_env \<Rightarrow> cluster \<Rightarrow> HTTPGetter" where
  "cl_getter st env c = http_Get (\<lambda>host. map_option (db_GET st env) (db_at c host))"

record system =
  sys_past :: "cluster list"
  sys_tier :: tier

definition sys_init :: "Service list \<Rightarrow> system" where
  "sys_init svcs = \<lparr>sys_past = [cl_init svcs], sys_tier = []\<rparr>"

definition sys_log :: "system \<Rightarrow> string list" where
  "sys_log s = committed_log (hd (sys_past s))"

definition answered_by :: "raft_stats \<Rightarrow> open_env \<Rightarrow> cluster list \<Rightarrow> HTTPGetter \<Rightarrow> bool" where
  "answered_by st env cs getter \<longleftrightarrow> (\<forall>url. (\<exists>c\<in>set cs. getter url = cl_getter st env c url) \<or> (\<exists>e. getter url = Err e))"

inductive sys_step :: "raft_stats \<Rightarrow> open_env \<Rightarrow> system \<Rightarrow> system \<Rightarrow> bool" for st env where
  Storage: "sys_step st env s (s\<lparr>sys_past := cl_step env ev (hd (sys_past s)) # sys_past s\<rparr>)"
| CacheRead: "answered_by st env (sys_past s) getter \<Longrightarrow> tier_get getter {} (sys_tier s) i key r T
    \<Longrightarrow> sys_step st env s (s\<lparr>sys_tier := T\<rparr>)"
| PostMeta: "i < length (sys_tier s) \<Longrightarrow> handleMeta body (srv_node (sys_tier s ! i)) new_ctx = (ctx, nd)
    \<Longrightarrow> sys_step st env s (s\<lparr>sys_tier := (sys_tier s)[i := (sys_tier s ! i)\<lparr>srv_node := nd\<rparr>]\<rparr>)"
| JoinMaster: "i < length (sys_tier s) \<Longrightarrow> node_join call (srv_node (sys_tier s ! i)) = (e, nd)
    \<Longrightarrow> sys_step st env s (s\<lparr>sys_tier := (sys_tier s)[i := (sys_tier s ! i)\<lparr>srv_node := nd\<rparr>]\<rparr>)"
| StartCache: "sys_step st env s (s\<lparr>sys_tier := sys_tier s @ [new_server h n mst]\<rparr>)"
| RestartCache: "i < length (sys_tier s) \<Longrightarrow> sys_step st env s (s\<lparr>sys_tier := (sys_tier s)[i := new_server h n mst]\<rparr>)"

abbreviation sys_run :: "raft_stats \<Rightarrow> open_env \<Rightarrow> system \<Rightarrow> system \<Rightarrow> bool" where
  "sys_run st env \<equiv> (sys_step st env)\<^sup>*\<^sup>*"

text \<open>What a cache node can answer to a GET of a path, and to a client that follows its redirects.\<close>

definition cache_GET :: "raft_stats \<Rightarrow> open_env \<Rightarrow> system \<Rightarrow> nat \<Rightarrow> string \<Rightarrow> http_response \<Rightarrow> bool" where
  "cache_GET st env s i path resp \<longleftrightarrow> (case node_route_of ''GET'' path of
     NodeKey key \<Rightarrow> (\<exists>getter r T. answered_by st env (sys_past s) getter \<and> tier_get getter {} (sys_tier s) i key r T
       \<and> resp = ctx_response (handleGetKey r new_ctx))
   | NodeStats \<Rightarrow> (\<exists>t. resp = \<lparr>StatusCode = StatusOK_http, Body = Ok (print_json (json_of_Stats t))\<rparr>)
   | NodeWs \<Rightarrow> resp = bad_upgrade
   | NodeRedirect status \<Rightarrow> resp = \<lparr>StatusCode = status, Body = Ok []\<rparr>
   | _ \<Rightarrow> resp = \<lparr>StatusCode = StatusNotFound, Body = Ok ''404 page not found''\<rparr>)"

inductive cache_answers :: "raft_stats \<Rightarrow> open_env \<Rightarrow> system \<Rightarrow> nat \<Rightarrow> string \<Rightarrow> http_response \<Rightarrow> bool" for st env s i where
  Direct: "cache_GET st env s i path resp \<Longrightarrow> StatusCode resp \<noteq> 301 \<Longrightarrow> cache_answers st env s i path resp"
| Redirected: "cache_GET st env s i path resp \<Longrightarrow> StatusCode resp = 301 \<Longrightarrow> cache_answers st env s i (butlast path) resp'
    \<Longrightarrow> cache_answers st env s i path resp'"

definition sys_GET :: "raft_stats \<Rightarrow> open_env \<Rightarrow> system \<Rightarrow> string \<Rightarrow> http_response \<Rightarrow> bool" where
  "sys_GET st env s rawurl resp \<longleftrightarrow> cl_getter st env (hd (sys_past s)) rawurl = Ok resp \<or>
     (\<exists>u i. url_Parse rawurl = Ok u \<and> i < length (sys_tier s) \<and> addr_host (node_httpAddr (srv_node (sys_tier s ! i))) = Host u
        \<and> cache_answers st env s i (url_Path u) resp)"

text \<open>A network in which every answer comes from a server of the system, at some moment between its start and now.\<close>

definition answers_from :: "raft_stats \<Rightarrow> open_env \<Rightarrow> system \<Rightarrow> system \<Rightarrow> network \<Rightarrow> bool" where
  "answers_from st env s0 s net \<longleftrightarrow> (\<forall>url d resp. net url = (d, Ok resp) \<longrightarrow>
     (\<exists>t. sys_run st env s0 t \<and> sys_run st env t s \<and> sys_GET st env t url resp))"

section \<open>Honest bodies\<close>

definition honest :: "string list \<Rightarrow> string \<Rightarrow> bool" where
  "honest ds b \<longleftrightarrow> (\<forall>key v. parseData (Ok b) key = Ok v \<longrightarrow> committed ds key = Some v)"

text \<open>Statistics are no pairs: none of their keys is one that \<open>parseData\<close> looks for.\<close>

lemma no_field_no_value:
  assumes "wf_json (JObj ms)" and "\<forall>(k, v)\<in>set ms. find_field kvParams k = None"
  shows "parseData (Ok (print_json (JObj ms))) key \<noteq> Ok v"
proof -
  have "bind_members fs ms m = Ok m" if "\<forall>(k, v)\<in>set ms. find_field fs k = None" for fs m
    using that by (induction ms) auto
  with assms(2) show ?thesis by (simp add: parseData_def json_Unmarshal_print [OF assms(1)] string_field_def del: print_json.simps)
qed

lemma stats_keys_no_field: "\<forall>k\<in>set raft_stats_keys. find_field kvParams k = None \<and> valid_utf8 k"
  by (simp add: raft_stats_keys_def kvParams_def find_field_def valid_utf8_ascii)

lemma raft_stats_no_value:
  assumes "plain_stats st"
  shows "parseData (Ok (marshal_map (st r))) key \<noteq> Ok v"
proof -
  have "find_field kvParams k = None \<and> valid_utf8 k \<and> valid_utf8 w" if "(k, w) \<in> set (st r)" for k w
    using assms that stats_keys_no_field unfolding plain_stats_def by blast
  then show ?thesis unfolding marshal_map_def json_of_map_def by (intro no_field_no_value) auto
qed

lemma node_stats_no_value: "parseData (Ok (print_json (json_of_Stats t))) key \<noteq> Ok v"
  unfolding json_of_Stats_def
  by (rule no_field_no_value) (simp_all add: kvParams_def find_field_def valid_utf8_ascii)

lemma honest_append: "honest ds b \<Longrightarrow> \<forall>d\<in>set (ds @ es). is_add d \<Longrightarrow> honest (ds @ es) b"
  using committed_append [of ds es] by (fastforce simp: honest_def map_le_def dom_def)

lemma parseData_other:
  assumes "valid_utf8 k" and "valid_utf8 v" and "parseData (Ok (print_json (json_of_kvResp k v))) key = Ok w"
  shows "key = k \<and> w = v"
proof -
  have "wf_json (json_of_kvResp k v)" using assms(1,2) by (simp add: json_of_kvResp_def)
  then have "json_Unmarshal (print_json (json_of_kvResp k v)) = Ok (json_of_kvResp k v)" by (rule json_Unmarshal_print)
  with assms(3) show ?thesis
    by (auto simp: parseData_def json_of_kvResp_def kvParams_def find_field_def string_field_def split: if_splits)
qed

lemma honest_kvResp: "committed ds k = Some v \<Longrightarrow> honest ds (print_json (json_of_kvResp k v))"
  using committed_utf8 parseData_other unfolding honest_def by blast

lemma follow_Ok: "follow n srv path = Ok resp \<Longrightarrow> \<exists>p. srv p = resp \<and> StatusCode resp \<noteq> 301"
  by (induction n srv path rule: follow.induct) (auto simp: Let_def split: if_splits)

lemma http_Get_Ok: "http_Get hosts url = Ok resp \<Longrightarrow> \<exists>h srv p. hosts h = Some srv \<and> srv p = resp"
  using follow_Ok by (fastforce simp: http_Get_def simp del: follow.simps split: sum.splits if_splits option.splits)

lemma db_at_replica:
  assumes "db_at c h = Some r"
  shows "r \<in> set (cl_replicas c)"
proof -
  obtain rs where "filter (\<lambda>r. addr_host (httpAddr (rep_svc r)) = h) (cl_replicas c) = r # rs"
    using assms by (auto simp: db_at_def split: list.splits)
  then have "r \<in> set (filter (\<lambda>r. addr_host (httpAddr (rep_svc r)) = h) (cl_replicas c))" by (metis list.set_intros(1))
  then show ?thesis by simp
qed

text \<open>What a database answers with 200 is honest.\<close>

lemma parse_pong: "parseData (Ok ''pong'') key \<noteq> Ok v"
proof -
  have "parse_value 10 ''pong'' = None" by code_simp
  then show ?thesis by (simp add: parseData_def json_Unmarshal_def bind_result_def)
qed

lemma db_GET_honest:
  assumes "rep_ok ds r" and "\<forall>d\<in>set ds. is_add d" and "plain_stats st"
    and "StatusCode (db_GET st env r path) = 200" and "Body (db_GET st env r path) = Ok b"
  shows "honest ds b"
proof (cases "route_of ''GET'' path")
  case (GetKey k)
  let ?s = "rep_store r"
  from GetKey assms(4,5) have "store_contents ?s k \<noteq> None" "b = print_json (json_of_kvResp k (the (store_contents ?s k)))"
    by (auto simp: db_GET_def serve_def get_response split: if_splits)
  then obtain v where v: "store_contents ?s k = Some v" "b = print_json (json_of_kvResp k v)" by auto
  then have "committed ds k = Some v" using rep_ok_committed [OF assms(1,2)] by (auto simp: map_le_def dom_def)
  with v(2) show ?thesis by (simp add: honest_kvResp)
next
  case Ping
  with assms(5) show ?thesis by (auto simp: db_GET_def serve_def honest_def parse_pong)
next
  case Stats
  with assms(3,5) show ?thesis by (auto simp: db_GET_def serve_def honest_def raft_stats_no_value)
next
  case (Redirect status)
  then have "status = 301" by (auto simp: route_of_def registered_def redirect_status_def split: if_splits option.splits)
  with Redirect assms(4) show ?thesis by (simp add: db_GET_def serve_def)
qed (use assms(4) in \<open>auto simp: db_GET_def serve_def bad_upgrade_def route_of_def registered_def split: if_splits option.splits\<close>)

lemma cl_getter_honest:
  assumes "cl_inv c" and "plain_stats st" and "cl_getter st env c url = Ok resp" and "StatusCode resp = 200" and "Body resp = Ok b"
  shows "honest (committed_log c) b"
proof -
  obtain h srv p where h: "map_option (db_GET st env) (db_at c h) = Some srv" "srv p = resp"
    using http_Get_Ok [OF assms(3) [unfolded cl_getter_def]] by auto
  then obtain r where r: "db_at c h = Some r" "resp = db_GET st env r p" by auto
  have "rep_ok (committed_log c) r" "\<forall>d\<in>set (committed_log c). is_add d"
    using assms(1) db_at_replica [OF r(1)] by (auto simp: cl_inv_def)
  then show ?thesis using db_GET_honest [OF _ _ assms(2)] assms(4,5) r(2) by blast
qed

section \<open>Invariant\<close>

definition sys_inv :: "system \<Rightarrow> bool" where
  "sys_inv s \<longleftrightarrow> sys_past s \<noteq> [] \<and> (\<forall>c\<in>set (sys_past s). cl_inv c \<and> (\<exists>es. sys_log s = committed_log c @ es))
     \<and> tier_ok (honest (sys_log s)) (sys_tier s)"

lemma sys_log_adds: "sys_inv s \<Longrightarrow> \<forall>d\<in>set (sys_log s). is_add d"
  by (auto simp: sys_inv_def sys_log_def cl_inv_def)

text \<open>Whatever a cache node reads from the databases, at any of their past states, is honest.\<close>

lemma fetches_honest:
  assumes "sys_inv s" and "plain_stats st" and "answered_by st env (sys_past s) getter"
  shows "fetches (honest (sys_log s)) getter"
  unfolding fetches_def
proof (intro allI impI)
  fix k u b
  assume "node_find getter k u = Ok b"
  then obtain url r where r: "getter url = Ok r" "StatusCode r = 200" "Body r = Ok b" unfolding node_find_Ok by blast
  then obtain c where c: "c \<in> set (sys_past s)" "cl_getter st env c url = Ok r"
    using assms(3) unfolding answered_by_def by (metis sum.distinct(1))
  obtain es where es: "cl_inv c" "sys_log s = committed_log c @ es" using assms(1) c(1) by (auto simp: sys_inv_def)
  have "honest (committed_log c) b" by (rule cl_getter_honest [OF es(1) assms(2) c(2) r(2,3)])
  then show "honest (sys_log s) b" using honest_append sys_log_adds [OF assms(1)] es(2) by metis
qed

lemma absent_empty [simp]: "absent {} T"
  by (simp add: absent_def)

lemma tier_ok_mono: "tier_ok P T \<Longrightarrow> (\<And>b. P b \<Longrightarrow> Q b) \<Longrightarrow> tier_ok Q T"
  by (simp add: tier_ok_def)

lemma new_server_ok: "group_ok (srv_group (new_server h n mst)) \<and> cacheBytes (srv_group (new_server h n mst)) = CacheBytes Config \<and> cached (srv_group (new_server h n mst)) = {}"
  by (simp add: new_server_def NewGroup_def group_ok_def gcache_ok_def cached_def Config_def)

lemma sys_step_inv:
  assumes "sys_step st env s s'" and "plain_stats st" and "sys_inv s"
  shows "sys_inv s' \<and> (\<exists>es. sys_log s' = sys_log s @ es)"
  using assms(1)
proof cases
  case (Storage ev)
  let ?c = "hd (sys_past s)"
  have c: "?c \<in> set (sys_past s)" "cl_inv ?c" using assms(3) by (auto simp: sys_inv_def)
  obtain es where es: "committed_log (cl_step env ev ?c) = sys_log s @ es" using cl_step_log [of env ev ?c] by (auto simp: sys_log_def)
  have log: "sys_log s' = sys_log s @ es" using Storage es by (simp add: sys_log_def)
  have inv: "cl_inv (cl_step env ev ?c)" by (rule cl_step_inv [OF c(2)])
  then have "\<forall>d\<in>set (sys_log s @ es). is_add d" by (simp add: cl_inv_def es)
  then have "tier_ok (honest (sys_log s')) (sys_tier s')"
    using assms(3) Storage log honest_append by (auto simp: sys_inv_def intro: tier_ok_mono)
  moreover have "\<forall>d\<in>set (sys_past s'). cl_inv d \<and> (\<exists>es. sys_log s' = committed_log d @ es)"
    using assms(3) Storage inv log es by (auto simp: sys_inv_def)
  ultimately show ?thesis using log Storage by (simp add: sys_inv_def)
next
  case (CacheRead getter i key r T)
  have "fetches (honest (sys_log s)) getter" by (rule fetches_honest [OF assms(3,2) CacheRead(2)])
  then have "tier_ok (honest (sys_log s)) T" using tier_get_ok [OF CacheRead(3)] assms(3) by (simp add: sys_inv_def)
  with assms(3) CacheRead(1) show ?thesis by (simp add: sys_inv_def sys_log_def)
next
  case (PostMeta i body ctx nd)
  with assms(3) show ?thesis using tier_ok_nth [of "honest (sys_log s)" "sys_tier s" i]
    by (auto simp: sys_inv_def sys_log_def intro!: tier_ok_update)
next
  case (JoinMaster i call e nd)
  with assms(3) show ?thesis using tier_ok_nth [of "honest (sys_log s)" "sys_tier s" i]
    by (auto simp: sys_inv_def sys_log_def intro!: tier_ok_update)
next
  case (StartCache h n mst)
  with assms(3) new_server_ok show ?thesis by (auto simp: sys_inv_def sys_log_def tier_ok_def)
next
  case (RestartCache i h n mst)
  with assms(3) new_server_ok show ?thesis by (auto simp: sys_inv_def sys_log_def intro!: tier_ok_update)
qed

lemma sys_init_inv: "sys_inv (sys_init svcs)"
  by (simp add: sys_inv_def sys_init_def sys_log_def tier_ok_def cl_init_inv)

lemma sys_run_inv:
  assumes "sys_run st env s s'" and "plain_stats st" and "sys_inv s"
  shows "sys_inv s' \<and> (\<exists>es. sys_log s' = sys_log s @ es)"
  using assms(1)
proof (induction rule: rtranclp_induct)
  case (step t u)
  then obtain es fs where "sys_log t = sys_log s @ es" "sys_inv u" "sys_log u = sys_log t @ fs"
    using sys_step_inv [OF step(2) assms(2)] by blast
  then show ?case by simp
qed (use assms(3) in simp)

section \<open>What clients read\<close>

lemma cache_GET_honest:
  assumes "sys_inv s" and "plain_stats st" and "cache_GET st env s i path resp" and "StatusCode resp = 200" and "Body resp = Ok b"
  shows "honest (sys_log s) b"
proof (cases "node_route_of ''GET'' path")
  case (NodeKey key)
  with assms(3) obtain getter r T where r: "answered_by st env (sys_past s) getter" "tier_get getter {} (sys_tier s) i key r T"
      "resp = ctx_response (handleGetKey r new_ctx)" by (auto simp: cache_GET_def)
  then have "r = Ok b" using assms(4,5) by (auto simp: handleGetKey_def split: sum.splits if_splits)
  moreover have "tier_ok (honest (sys_log s)) (sys_tier s)" using assms(1) by (simp add: sys_inv_def)
  ultimately show ?thesis using tier_get_ok [OF r(2) fetches_honest [OF assms(1,2) r(1)]] by simp
next
  case NodeStats
  with assms(3,5) show ?thesis by (auto simp: cache_GET_def honest_def node_stats_no_value)
next
  case (NodeRedirect status)
  then have "status = 301"
    by (auto simp: node_route_of_def node_registered_def redirect_status_def split: if_splits option.splits)
  with NodeRedirect assms(3,4) show ?thesis by (simp add: cache_GET_def)
qed (use assms(3,4) in \<open>auto simp: cache_GET_def bad_upgrade_def\<close>)

lemma cache_answers_GET: "cache_answers st env s i path resp \<Longrightarrow> \<exists>p. cache_GET st env s i p resp"
  by (induction rule: cache_answers.induct) auto

text \<open>Whatever any server of the system answers with 200 is honest.\<close>

lemma sys_GET_honest:
  assumes "sys_inv s" and "plain_stats st" and "sys_GET st env s url resp" and "StatusCode resp = 200" and "Body resp = Ok b"
  shows "honest (sys_log s) b"
proof (cases "cl_getter st env (hd (sys_past s)) url = Ok resp")
  case True
  have "cl_inv (hd (sys_past s))" using assms(1) by (auto simp: sys_inv_def)
  from cl_getter_honest [OF this assms(2) True assms(4,5)] show ?thesis by (simp add: sys_log_def)
next
  case False
  with assms(3) obtain i p where "cache_GET st env s i p resp" using cache_answers_GET unfolding sys_GET_def by blast
  with assms show ?thesis by (blast intro: cache_GET_honest)
qed

lemma committed_stays:
  assumes "sys_run st env s s'" and "plain_stats st" and "sys_inv s" and "committed (sys_log s) key = Some v"
  shows "committed (sys_log s') key = Some v"
proof -
  from sys_run_inv [OF assms(1-3)] obtain es where es: "sys_inv s'" "sys_log s' = sys_log s @ es" by blast
  then show ?thesis using committed_append [of "sys_log s" es] sys_log_adds [OF es(1)] assms(4) by (auto simp: map_le_def dom_def)
qed

lemma served_committed:
  assumes "plain_stats st" and "answers_from st env (sys_init svcs) s net" and "served net key u v"
  shows "committed (sys_log s) key = Some v"
proof -
  obtain d res where net: "net (MakeURL u @ ''/key/'' @ key) = (d, Ok res)" "StatusCode res = 200" "parseData (Body res) key = Ok v"
    using assms(3) by (auto simp: served_def)
  then obtain b where b: "Body res = Ok b" by (cases "Body res") (auto simp: parseData_def)
  from net(1) assms(2) obtain t where t: "sys_run st env (sys_init svcs) t" "sys_run st env t s" "sys_GET st env t (MakeURL u @ ''/key/'' @ key) res"
    unfolding answers_from_def by blast
  have inv: "sys_inv t" using sys_run_inv [OF t(1) assms(1) sys_init_inv] by blast
  have "honest (sys_log t) b" by (rule sys_GET_honest [OF inv assms(1) t(3) net(2) b])
  with net(3) b have "committed (sys_log t) key = Some v" by (simp add: honest_def)
  then show ?thesis by (rule committed_stays [OF t(2) assms(1) inv])
qed

text \<open>The caches stay in order whatever the databases answer.\<close>

lemma sys_run_tier:
  assumes "sys_run st env (sys_init svcs) s"
  shows "tier_ok (\<lambda>_. True) (sys_tier s)"
  using assms
proof (induction rule: rtranclp_induct)
  case (step s s')
  show ?case using step.hyps(2)
  proof cases
    case (CacheRead getter i key r T)
    with tier_get_ok [OF CacheRead(3), of "\<lambda>_. True"] step.IH show ?thesis by (simp add: fetches_def)
  next
    case (PostMeta i body ctx nd)
    with step.IH show ?thesis using tier_ok_nth [of "\<lambda>_. True" "sys_tier s" i] by (auto intro!: tier_ok_update)
  next
    case (JoinMaster i call e nd)
    with step.IH show ?thesis using tier_ok_nth [of "\<lambda>_. True" "sys_tier s" i] by (auto intro!: tier_ok_update)
  next
    case (StartCache h n mst)
    with step.IH new_server_ok show ?thesis by (auto simp: tier_ok_def)
  next
    case (RestartCache i h n mst)
    with step.IH new_server_ok show ?thesis by (auto intro!: tier_ok_update)
  qed (use step.IH in simp)
qed (simp add: sys_init_def tier_ok_def)

section \<open>Reads that go through\<close>

lemma db_at_only:
  assumes "i < length (cl_replicas c)"
    and "\<forall>l<length (cl_replicas c). addr_host (httpAddr (rep_svc (cl_replicas c ! l))) = h \<longleftrightarrow> l = i"
  shows "db_at c h = Some (cl_replicas c ! i)"
proof -
  let ?rs = "filter (\<lambda>r. addr_host (httpAddr (rep_svc r)) = h) (cl_replicas c)"
  have all: "r = cl_replicas c ! i" if "r \<in> set ?rs" for r
    using that assms(2) by (auto simp: in_set_conv_nth)
  moreover have "cl_replicas c ! i \<in> set ?rs" using assms by simp
  then obtain r rs where rs: "?rs = r # rs" by (cases ?rs) auto
  ultimately have "r = cl_replicas c ! i" by (metis list.set_intros(1))
  with rs show ?thesis unfolding db_at_def by simp
qed

text \<open>The leader answers the read of a cache node.\<close>

lemma db_read:
  assumes "plain_addr db" and "db_at c (addr_host db) = Some r" and "raftAddr (rep_svc r) = raft_Leader (rep_store r)"
    and "store_contents (rep_store r) k = Some v" and "v \<noteq> []" and "k \<noteq> []" and "CHR ''/'' \<notin> set k" and "set k \<inter> special = {}"
  shows "node_find (cl_getter st env c) k db = Ok (print_json (json_of_kvResp k v))"
proof -
  have "serve (raft_store (\<lambda>_. st r) env None (\<lambda>a. Ok [a])) (rep_svc r) (rep_store r) ''GET'' (db_get_path k) [] =
      Some (answer 200 (json_of_kvResp k v), rep_store r)" by (rule get_stored) (use assms in simp_all)
  then have GET: "db_GET st env r (''/i/key/'' @ k) = answer 200 (json_of_kvResp k v)" by (simp add: db_GET_def db_get_path_def)
  have "follow 10 (db_GET st env r) (''/i/key/'' @ k) = Ok (answer 200 (json_of_kvResp k v))"
    using follow_direct [of "db_GET st env r" "''/i/key/'' @ k"] unfolding GET by simp
  moreover have "cl_getter st env c (MakeURL db @ CHR ''/'' # ''i/key/'' @ k) = follow 10 (db_GET st env r) (CHR ''/'' # ''i/key/'' @ k)"
    using http_Get_key [OF assms(1), of "\<lambda>host. map_option (db_GET st env) (db_at c host)" "db_GET st env r" "''i/key/''" k] assms(2,8)
    unfolding cl_getter_def by (simp del: follow.simps)
  ultimately show ?thesis unfolding node_find_Ok by (simp add: print_json_not_Nil del: follow.simps)
qed

lemma node_read:
  assumes "node_find getter k db = Ok b" and "db \<in> set (node_dbs n)" and "node_fastDB n = []"
  shows "\<exists>nd. (b, None, nd) \<in> fetchData getter k n"
proof -
  have "b \<noteq> []" using assms(1) by (simp add: node_find_Ok)
  then have "db \<in> winners node_ErrDataNotFound (node_find getter k) (node_dbs n)" "reply (node_find getter k) db = (b, None)"
    using assms(1,2) by (simp_all add: winners_def answers_def reply_def val_of_def)
  then have "(b, None) \<in> node_returns getter k n"
    using fan_returns_winner [of db node_ErrDataNotFound "node_find getter k" "node_dbs n" ErrDatabaseQueryTimeout] by metis
  moreover have "node_dbs n \<noteq> []" using assms(2) by auto
  ultimately obtain nd where "(b, None, nd) \<in> node_tryAllDBFind getter k n" using node_returns_tryAll by blast
  with assms(3) show ?thesis by (auto simp: fetchData_def)
qed

lemma lookup_absent: "k \<notin> fst ` cached g \<Longrightarrow> lookupCache k g = (None, g)"
proof -
  assume "k \<notin> fst ` cached g"
  then have "map_of (lru (mainCache g)) k = None" "map_of (lru (hotCache g)) k = None"
    by (simp_all add: cached_def image_Un map_of_eq_None_iff)
  then show ?thesis by (simp add: lookupCache_def cache_get_def lru_Get_def)
qed

text \<open>A node that has not got the key and owns it asks the databases, and answers a client with what it gets.\<close>

lemma tier_read:
  assumes "tier_ok P T" and "j < length T" and "pick T j k = None" and "k \<notin> fst ` cached (srv_group (T ! j))"
    and "(b, None, nd) \<in> fetchData getter k (srv_node (T ! j))"
  shows "\<exists>T'. tier_get getter {} T j k (Ok b) T'"
proof -
  note ok = tier_ok_nth [OF assms(1,2)]
  obtain g where "populateCache k b MainCache (srv_group (T ! j)) = Some g"
    using populateCache_ok [of "srv_group (T ! j)" k b MainCache] ok assms(4) by blast
  then have "load_locally getter j k T (Ok b) (T[j := \<lparr>srv_node = nd, srv_group = g\<rparr>])"
    unfolding load_locally_def using assms(5) by (intro exI [of _ b] exI [of _ None] exI [of _ nd]) simp
  moreover have "set_group j (srv_group (T ! j)) T = T" by (simp add: set_group_def)
  ultimately show ?thesis using assms(2,3) lookup_absent [OF assms(4)] by (metis empty_iff tier_get.Local)
qed

lemma cache_answers_client:
  assumes "answered_by st env (sys_past s) getter" and "tier_get getter {} (sys_tier s) j k (Ok b) T" and "j < length (sys_tier s)"
    and "plain_addr cache" and "addr_host (node_httpAddr (srv_node (sys_tier s ! j))) = addr_host cache"
    and "k \<noteq> []" and "CHR ''/'' \<notin> set k" and "set k \<inter> special = {}"
  shows "sys_GET st env s (MakeURL cache @ ''/key/'' @ k) \<lparr>StatusCode = 200, Body = Ok b\<rparr>"
proof -
  have url: "url_Parse (MakeURL cache @ ''/key/'' @ k) =
      Ok \<lparr>Scheme = ''http'', Opaque = [], Host = addr_host cache, url_Path = ''/key/'' @ k, RawQuery = [], Fragment = []\<rparr>"
    using Parse_key [OF assms(4) _ assms(8), of "''key/''"] by simp
  have "node_route_of ''GET'' (''/key/'' @ k) = NodeKey k" using node_key_route [of k] assms(6,7) by (simp add: cache_get_path_def)
  then have "cache_GET st env s j (''/key/'' @ k) \<lparr>StatusCode = 200, Body = Ok b\<rparr>"
    using assms(1,2) unfolding cache_GET_def by (auto simp: handleGetKey_def intro!: exI [of _ getter] exI [of _ "Ok b"])
  then have "cache_answers st env s j (''/key/'' @ k) \<lparr>StatusCode = 200, Body = Ok b\<rparr>" by (rule cache_answers.Direct) simp
  with url assms(3,5) show ?thesis unfolding sys_GET_def by (intro disjI2 exI conjI) (auto split: if_splits)
qed

section \<open>A run, for the witnesses\<close>

text \<open>
  One database at h:1, which is elected and takes the pair (k, v), and one cache node at a:1, which joins and is
  told of the database.
\<close>

abbreviation stats0 :: raft_stats where
  "stats0 \<equiv> \<lambda>_. [(''num_peers'', ''0''), (''state'', ''Leader'')]"

definition demo_elected :: cluster where
  "demo_elected = cl_step env1 (Elect 0 Leader ''r:1'') (cl_init [svc1])"

definition demo_written :: cluster where
  "demo_written = cl_step env1 (Write 0 None (kv_body ''k'' ''v'')) demo_elected"

abbreviation demo_node :: Node where
  "demo_node \<equiv> (node_New ''a:1'' ''a:2'' ''m:1'')\<lparr>pool_peers := [], node_peers := [], node_dbs := [''h:1'']\<rparr>"

abbreviation demo :: system where
  "demo \<equiv> \<lparr>sys_past = [demo_written, demo_elected, cl_init [svc1]], sys_tier = [\<lparr>srv_node = demo_node, srv_group = NewGroup (CacheBytes Config)\<rparr>]\<rparr>"

abbreviation demo_body :: string where
  "demo_body \<equiv> print_json (json_of_kvResp ''k'' ''v'')"

lemma stats0_plain: "plain_stats stats0"
  by (simp add: plain_stats_def raft_stats_keys_def valid_utf8_ascii)

abbreviation demo_before :: system where
  "demo_before \<equiv> \<lparr>sys_past = [demo_elected, cl_init [svc1]], sys_tier = []\<rparr>"

abbreviation demo_after :: system where
  "demo_after \<equiv> \<lparr>sys_past = [demo_written, demo_elected, cl_init [svc1]], sys_tier = []\<rparr>"

lemma demo_run_before: "sys_run stats0 env1 (sys_init [svc1]) demo_before"
proof -
  have "sys_step stats0 env1 (sys_init [svc1]) demo_before"
    using sys_step.Storage [of stats0 env1 "sys_init [svc1]" "Elect 0 Leader ''r:1''"]
    by (simp add: sys_init_def demo_elected_def del: cl_step.simps)
  then show ?thesis ..
qed

lemma demo_step: "sys_step stats0 env1 demo_before demo_after"
  using sys_step.Storage [of stats0 env1 demo_before "Write 0 None (kv_body ''k'' ''v'')"]
  by (simp add: demo_written_def del: cl_step.simps)

lemma demo_run_after: "sys_run stats0 env1 demo_after demo"
proof -
  let ?new = "new_server ''a:1'' ''a:2'' ''m:1''"
  have "sys_step stats0 env1 demo_after (demo_after\<lparr>sys_tier := [?new]\<rparr>)"
    using sys_step.StartCache [of stats0 env1 demo_after] by simp
  moreover have "sys_step stats0 env1 (demo_after\<lparr>sys_tier := [?new]\<rparr>) demo"
    using sys_step.JoinMaster [of 0 "demo_after\<lparr>sys_tier := [?new]\<rparr>" "\<lambda>_. Ok \<lparr>param_Peers = [], param_DBs = [''h:1'']\<rparr>" None demo_node stats0 env1]
    by (simp add: node_join_def new_server_def)
  ultimately show ?thesis by (rule converse_rtranclp_into_rtranclp [OF _ r_into_rtranclp])
qed

lemma demo_run: "sys_run stats0 env1 (sys_init [svc1]) demo"
  by (rule rtranclp_trans [OF demo_run_before converse_rtranclp_into_rtranclp [OF demo_step demo_run_after]])

lemma demo_replica: "\<exists>r. cl_replicas demo_written = [r] \<and> rep_svc r = svc1 \<and> raft_Leader (rep_store r) = ''r:1''
    \<and> store_contents (rep_store r) ''k'' = Some ''v''"
  by (simp add: demo_written_def demo_elected_def cl_init_def set_replica_def cl_write_def post_committed New_store_def applyAdd_def write_entry_def kv_body_params)

lemma h1_host: "MakeURL ''h:1'' = ''http://h:1''" "addr_host ''h:1'' = ''h:1''" "plain_addr ''h:1''"
proof -
  show url: "MakeURL ''h:1'' = ''http://h:1''" by (simp add: MakeURL_def HasPrefix_def TrimSuffix_def)
  then show host: "addr_host ''h:1'' = ''h:1''" by (simp add: addr_host_def)
  show "plain_addr ''h:1''" by (simp add: plain_addr_def url host HasPrefix_def plain_host_def host_char_def is_alnum_def)
qed

text \<open>The database answers the read of the cache node.\<close>

lemma demo_find: "node_find (cl_getter stats0 env1 demo_written) ''k'' ''h:1'' = Ok demo_body"
proof -
  obtain r where r: "cl_replicas demo_written = [r]" "rep_svc r = svc1" "raft_Leader (rep_store r) = ''r:1''"
      "store_contents (rep_store r) ''k'' = Some ''v''" using demo_replica by blast
  then have "db_at demo_written ''h:1'' = Some r" by (simp add: db_at_def h1_host)
  with r db_read [OF h1_host(3), of demo_written r "''k''" "''v''"] show ?thesis by (simp add: h1_host(2))
qed

lemma demo_fetch: "\<exists>nd. (demo_body, None, nd) \<in> fetchData (cl_getter stats0 env1 demo_written) ''k'' demo_node"
  by (rule node_read [OF demo_find]) (simp_all add: node_New_def)

lemma demo_populate: "populateCache ''k'' demo_body MainCache (NewGroup (CacheBytes Config)) =
    Some \<lparr>cacheBytes = CacheBytes Config, mainCache = \<lparr>nbytes = entry_size (''k'', demo_body), lru = [(''k'', demo_body)]\<rparr>, hotCache = \<lparr>nbytes = 0, lru = []\<rparr>\<rparr>"
proof -
  have "length demo_body < 100" by code_simp
  then show ?thesis
    by (simp add: populateCache_def NewGroup_def Config_def cache_add_def lru_Add_def evict_loop.simps entry_size_def)
qed

text \<open>The cache node reads the pair and keeps it.\<close>

lemma demo_read: "\<exists>T. tier_get (cl_getter stats0 env1 demo_written) {} (sys_tier demo) 0 ''k'' (Ok demo_body) T
    \<and> (\<exists>srv\<in>set T. (''k'', demo_body) \<in> cached (srv_group srv))"
proof -
  let ?T = "sys_tier demo" and ?G = "NewGroup (CacheBytes Config)"
  obtain nd where nd: "(demo_body, None, nd) \<in> fetchData (cl_getter stats0 env1 demo_written) ''k'' demo_node" using demo_fetch by blast
  let ?g = "\<lparr>cacheBytes = CacheBytes Config, mainCache = \<lparr>nbytes = entry_size (''k'', demo_body), lru = [(''k'', demo_body)]\<rparr>, hotCache = \<lparr>nbytes = 0, lru = []\<rparr>\<rparr>"
  let ?T' = "[\<lparr>srv_node = nd, srv_group = ?g\<rparr>]"
  have miss: "lookupCache ''k'' ?G = (None, ?G)" by (simp add: lookupCache_def NewGroup_def Config_def cache_get_def lru_Get_def)
  have "set_group 0 ?G ?T = ?T" by (simp add: set_group_def)
  then have "load_locally (cl_getter stats0 env1 demo_written) 0 ''k'' (set_group 0 ?G ?T) (Ok demo_body) ?T'"
    unfolding load_locally_def using nd demo_populate by (intro exI [of _ demo_body] exI [of _ None] exI [of _ nd]) simp
  moreover have "pick ?T 0 ''k'' = None" by (simp add: pick_def PickPeer_def pool_keys_Nil)
  ultimately have "tier_get (cl_getter stats0 env1 demo_written) {} ?T 0 ''k'' (Ok demo_body) ?T'"
    using miss by (intro tier_get.Local [where g = ?G]) simp_all
  then show ?thesis by (intro exI [of _ ?T'] conjI) (simp_all add: cached_def)
qed

lemma demo_answered: "answered_by stats0 env1 (sys_past demo) (cl_getter stats0 env1 demo_written)"
  by (simp add: answered_by_def)

text \<open>A network in which only the cache node answers, and a client that knows it.\<close>

abbreviation demo_net :: network where
  "demo_net \<equiv> \<lambda>url. (1, if url = ''http://a:1/key/k'' then Ok \<lparr>StatusCode = 200, Body = Ok demo_body\<rparr> else Err (Errorf ''refused''))"

abbreviation demo_client :: client where
  "demo_client \<equiv> \<lparr>cli_dbs = [''h:1''], cli_caches = [''http://a:1''], cli_fastCache = ''http://a:1'', cli_fastDB = []\<rparr>"

lemma a1_host: "MakeURL ''a:1'' = ''http://a:1''" "addr_host ''a:1'' = ''a:1''" "plain_addr ''a:1''"
proof -
  show url: "MakeURL ''a:1'' = ''http://a:1''" by (simp add: MakeURL_def HasPrefix_def TrimSuffix_def)
  then show host: "addr_host ''a:1'' = ''a:1''" by (simp add: addr_host_def)
  show "plain_addr ''a:1''" by (simp add: plain_addr_def url host HasPrefix_def plain_host_def host_char_def is_alnum_def)
qed

lemma demo_GET: "sys_GET stats0 env1 demo ''http://a:1/key/k'' \<lparr>StatusCode = 200, Body = Ok demo_body\<rparr>"
proof -
  obtain T where "tier_get (cl_getter stats0 env1 demo_written) {} (sys_tier demo) 0 ''k'' (Ok demo_body) T" using demo_read by blast
  from cache_answers_client [OF demo_answered this, of "''a:1''"] show ?thesis by (simp add: a1_host node_New_def)
qed

lemma demo_answers: "answers_from stats0 env1 (sys_init [svc1]) demo demo_net"
  using demo_run demo_GET unfolding answers_from_def by (auto split: if_splits intro!: exI [of _ demo])

lemma demo_kv_Get: "(''v'', None, demo_client) \<in> kv_Get demo_net ''k'' demo_client"
proof -
  have "MakeURL ''http://a:1'' = ''http://a:1''" by (simp add: MakeURL_def HasPrefix_def TrimSuffix_def)
  then have "kv_find demo_net ''k'' ''http://a:1'' idealResponseDuration = (''v'', 1, None)"
    by (simp add: kv_find_def parseData_kvResp idealResponseDuration_def Config_def)
  then show ?thesis by (simp add: kv_Get_def kv_cache_def)
qed

section \<open>Properties\<close>

text \<open>
  C12: the memory of a cache node is bounded. Whatever happens in the system, the keys and values that a cache node
  keeps, in its own cache and in that of foreign keys together, have at most the configured ten megabytes, no key
  is kept twice in one cache, and the byte counts of both caches, by which the code decides what to evict, are exact.
\<close>

theorem cache_memory_bounded:
  assumes "sys_run st env (sys_init svcs) s" and "srv \<in> set (sys_tier s)"
  shows "(\<Sum>e\<leftarrow>lru (mainCache (srv_group srv)) @ lru (hotCache (srv_group srv)). int (length (fst e) + length (snd e))) \<le> 10485760
    \<and> distinct (map fst (lru (mainCache (srv_group srv)))) \<and> distinct (map fst (lru (hotCache (srv_group srv))))
    \<and> nbytes (mainCache (srv_group srv)) = (\<Sum>e\<leftarrow>lru (mainCache (srv_group srv)). int (length (fst e) + length (snd e)))
    \<and> nbytes (hotCache (srv_group srv)) = (\<Sum>e\<leftarrow>lru (hotCache (srv_group srv)). int (length (fst e) + length (snd e)))"
proof -
  have "group_ok (srv_group srv)" "cacheBytes (srv_group srv) = CacheBytes Config"
    using sys_run_tier [OF assms(1)] assms(2) by (auto simp: tier_ok_def)
  then show ?thesis by (simp add: group_ok_def gcache_ok_def entries_size_def entry_size_def [abs_def] Config_def)
qed

theorem cache_memory_bounded_witness:
  "(\<Sum>e\<leftarrow>lru (mainCache (srv_group (sys_tier demo ! 0))) @ lru (hotCache (srv_group (sys_tier demo ! 0))). int (length (fst e) + length (snd e))) \<le> 10485760"
  using cache_memory_bounded [OF demo_run, of "sys_tier demo ! 0"] by simp

end
