(* ===== verification/Writes.thy ===== *)
theory Writes
  imports System
begin

text \<open>
  The client's writes over the system: a POST to a database, as the service answers it, is an event of the storage
  (\<open>sys_POST\<close>), and the network of a \<open>Put\<close> is one whose answers come from such events (\<open>posts_to\<close>). A future that ends without an error
  ends when the node has applied the entry and thus all before it; whatever else delays or fails a request shows as a failed future or
  as no answer.
\<close>

section \<open>Model\<close>

definition sys_POST :: "open_env \<Rightarrow> system \<Rightarrow> string \<Rightarrow> string \<Rightarrow> http_response \<Rightarrow> system \<Rightarrow> bool" where
  "sys_POST env s rawurl body resp s' \<longleftrightarrow> (\<exists>u i fut st. let c = hd (sys_past s); r = cl_replicas c ! i in
     url_Parse rawurl = Ok u \<and> i < length (cl_replicas c) \<and> addr_host (httpAddr (rep_svc r)) = Host u \<and> url_Path u = ''/key''
     \<and> (fut = None \<longrightarrow> rep_applied r = length (committed_log c))
     \<and> serve (raft_store (\<lambda>_. []) env fut (\<lambda>a. Ok [a])) (rep_svc r) (rep_store r) ''POST'' ''/key'' body = Some (resp, st)
     \<and> s' = s\<lparr>sys_past := cl_step env (Write i fut body) c # sys_past s\<rparr>)"

definition posts_to :: "raft_stats \<Rightarrow> open_env \<Rightarrow> system \<Rightarrow> system \<Rightarrow> post_network \<Rightarrow> bool" where
  "posts_to st env s0 s post \<longleftrightarrow> (\<forall>rawurl body d resp. post rawurl body = Some (d, Ok resp) \<longrightarrow>
     (\<exists>t t'. sys_run st env s0 t \<and> sys_POST env t rawurl body resp t' \<and> sys_run st env t' s))"

section \<open>Lemmas\<close>

lemma committed_add:
  assumes "\<forall>d\<in>set ds. is_add d" and "valid_utf8 k" and "valid_utf8 v"
  shows "committed (ds @ [encode_command (add_command k v)]) k = Some (case committed ds k of None \<Rightarrow> v | Some w \<Rightarrow> w)"
proof -
  obtain m where "run_log fsm_step ds [] = Ok m" using run_adds [OF assms(1), of "[]"] by blast
  then show ?thesis
    by (auto simp: committed_def run_log_append fsm_step_def fsm_Apply_add [OF assms(2,3)] applyAdd_def split: option.split)
qed

text \<open>What the answer to a write says about the log.\<close>

lemma POST_logged:
  assumes "sys_POST env s rawurl (kv_body k v) resp s'" and "StatusCode resp = 200" and "valid_utf8 k" and "valid_utf8 v"
  shows "\<exists>status\<in>{StatusOK, StatusKeyDuplicate, StatusInternalError}. resp = answer 200 (json_of_Status status) \<and>
    (if status = StatusOK then sys_log s' = sys_log s @ [encode_command (add_command k v)] else sys_log s' = sys_log s)"
proof -
  let ?c = "hd (sys_past s)"
  obtain i fut st where i: "i < length (cl_replicas ?c)"
    and fut: "fut = None \<longrightarrow> rep_applied (cl_replicas ?c ! i) = length (committed_log ?c)"
    and sv: "serve (raft_store (\<lambda>_. []) env fut (\<lambda>a. Ok [a])) (rep_svc (cl_replicas ?c ! i)) (rep_store (cl_replicas ?c ! i)) ''POST'' ''/key'' (kv_body k v)
      = Some (resp, st)"
    and s': "s' = s\<lparr>sys_past := cl_step env (Write i fut (kv_body k v)) ?c # sys_past s\<rparr>"
    using assms(1) unfolding sys_POST_def Let_def by blast
  let ?r = "cl_replicas ?c ! i"
  note eq = sv [unfolded serve_post handleSet_eq kv_body_params [OF assms(3,4)]] store_Add_eq [OF assms(3,4)]
  have leader: "raftAddr (rep_svc ?r) = raft_Leader (rep_store ?r)" using eq assms(2) by (auto split: if_splits)
  show ?thesis
  proof (cases "raft_State (rep_store ?r) = Leader \<and> fut = None")
    case True
    then have "resp = answer 200 (json_of_Status StatusOK)" using eq leader by simp
    moreover have "sys_log s' = sys_log s @ [encode_command (add_command k v)]"
      using True i fut leader sv s'
      by (simp add: sys_log_def cl_write_def set_replica_def Let_def write_entry_def kv_body_params [OF assms(3,4)])
    ultimately show ?thesis by (intro bexI [of _ StatusOK]) simp_all
  next
    case False
    let ?status = "if (if raft_State (rep_store ?r) \<noteq> Leader then Some (Errorf ''not leader'') else fut) = Some ErrKeyDuplicated
      then StatusKeyDuplicate else StatusInternalError"
    have "resp = answer 200 (json_of_Status ?status)" using eq leader False by (auto split: option.splits)
    moreover have "sys_log s' = sys_log s"
      using False sv s' by (auto simp: sys_log_def cl_write_def set_replica_def Let_def write_entry_def)
    moreover have "?status \<noteq> StatusOK" by (simp add: StatusOK_def StatusKeyDuplicate_def StatusInternalError_def)
    ultimately show ?thesis by (intro bexI [of _ ?status]) simp_all
  qed
qed

lemma POST_step: "sys_POST env s rawurl body resp s' \<Longrightarrow> sys_step st env s s'"
  unfolding sys_POST_def Let_def using sys_step.Storage by blast

text \<open>The leader takes the write of a fresh key, and has it then.\<close>

lemma leader_accepts:
  assumes "i < length (cl_replicas cl)" and "cl = hd (sys_past s)" and "raftAddr (rep_svc (cl_replicas cl ! i)) = raft_Leader (rep_store (cl_replicas cl ! i))"
    and "raft_State (rep_store (cl_replicas cl ! i)) = Leader" and "rep_applied (cl_replicas cl ! i) = length (committed_log cl)"
    and "plain_addr db" and "addr_host (httpAddr (rep_svc (cl_replicas cl ! i))) = addr_host db" and "valid_utf8 k" and "valid_utf8 v"
  shows "sys_POST env s (MakeURL db @ ''/key'') (kv_body k v) (answer 200 (json_of_Status StatusOK))
    (s\<lparr>sys_past := cl_step env (Write i None (kv_body k v)) cl # sys_past s\<rparr>)"
proof -
  let ?u = "\<lparr>Scheme = ''http'', Opaque = [], Host = addr_host db, url_Path = ''/key'', RawQuery = [], Fragment = []\<rparr>"
  have "url_Parse (MakeURL db @ ''/key'') = Ok ?u" using Parse_key [OF assms(6), of "''key''" "[]"] by simp
  with post_committed [OF assms(3,4,8,9), of "\<lambda>_. []" env "\<lambda>a. Ok [a]"] assms show ?thesis
    unfolding sys_POST_def Let_def by (intro exI [of _ ?u] exI [of _ i] exI [of _ None]) (auto simp del: cl_step.simps)
qed

lemma leader_has_written:
  assumes "i < length (cl_replicas cl)" and "r = cl_replicas cl ! i" and "raftAddr (rep_svc r) = raft_Leader (rep_store r)"
    and "raft_State (rep_store r) = Leader" and "rep_applied r = length (committed_log cl)" and "store_contents (rep_store r) k = None"
    and "\<forall>l<length (cl_replicas cl). addr_host (httpAddr (rep_svc (cl_replicas cl ! l))) = h \<longleftrightarrow> l = i"
    and "valid_utf8 k" and "valid_utf8 v"
  shows "\<exists>r'. db_at (cl_step env (Write i None (kv_body k v)) cl) h = Some r' \<and> raftAddr (rep_svc r') = raft_Leader (rep_store r')
    \<and> store_contents (rep_store r') k = Some v"
proof -
  let ?c = "cl_step env (Write i None (kv_body k v)) cl"
  let ?s = "(rep_store r)\<lparr>kvm := snd (applyAdd k v (kvm (rep_store r)))\<rparr>"
  obtain n where c: "cl_replicas ?c = (cl_replicas cl)[i := r\<lparr>rep_store := ?s, rep_applied := n\<rparr>]"
    using assms(1-5) post_committed [OF assms(3,4,8,9)] by (simp add: cl_write_def set_replica_def Let_def)
  have "db_at ?c h = Some (cl_replicas ?c ! i)"
    by (rule db_at_only) (use assms(1,2,7) in \<open>auto simp: c nth_list_update simp del: cl_step.simps\<close>)
  moreover have "store_contents ?s k = Some v" using assms(6) by (simp add: applyAdd_def)
  ultimately show ?thesis using assms(1,3) by (simp add: c del: cl_step.simps)
qed

section \<open>Properties\<close>

text \<open>
  C3: what is known of a write that is reported as done. Let a client put a pair, in a network whose answers to a POST
  come from the databases of the system, in any run of it. If Put returns nil in any of its interleavings, then one of the databases
  the client knows has handled the pair during the run and answered 200. Either the body says StatusOK: then
  the pair is committed, or the value the key had at that moment, if it had one; and this is the value of the key at the end of the run and
  whatever happens then. Or the body, which the client does not read, says otherwise, and this database has added
  nothing to the log.
\<close>

theorem Put_reported_done:
  assumes "plain_stats st" and "posts_to st env (sys_init svcs) s post" and "(None, c') \<in> kv_Put post key val c"
    and "valid_utf8 key" and "valid_utf8 val"
  shows "\<exists>u\<in>insert (cli_fastDB c) (set (cli_dbs c)). \<exists>d t t'. \<exists>status\<in>{StatusOK, StatusKeyDuplicate, StatusInternalError}.
    post (MakeURL u @ ''/key'') (kv_body key val) = Some (d, Ok (answer 200 (json_of_Status status)))
    \<and> sys_run st env (sys_init svcs) t \<and> sys_POST env t (MakeURL u @ ''/key'') (kv_body key val) (answer 200 (json_of_Status status)) t'
    \<and> sys_run st env t' s
    \<and> (if status = StatusOK
       then (\<forall>s'. sys_run st env s s' \<longrightarrow>
         committed (sys_log s') key = Some (case committed (sys_log t) key of None \<Rightarrow> val | Some w \<Rightarrow> w))
       else sys_log t' = sys_log t)"
proof -
  obtain u d res where u: "u \<in> insert (cli_fastDB c) (set (cli_dbs c))" and res: "post (MakeURL u @ ''/key'') (kv_body key val) = Some (d, Ok res)"
      "StatusCode res = 200" using kv_Put_accepted [OF assms(3)] by blast
  obtain t t' where t: "sys_run st env (sys_init svcs) t" "sys_POST env t (MakeURL u @ ''/key'') (kv_body key val) res t'" "sys_run st env t' s"
    using assms(2) res(1) unfolding posts_to_def by blast
  note step = POST_step [OF t(2), of st]
  have inv: "sys_inv t" "sys_inv t'"
    using sys_run_inv [OF t(1) assms(1) sys_init_inv] sys_step_inv [OF step assms(1)] by blast+
  obtain status where status: "status \<in> {StatusOK, StatusKeyDuplicate, StatusInternalError}" "res = answer 200 (json_of_Status status)"
      "if status = StatusOK then sys_log t' = sys_log t @ [encode_command (add_command key val)] else sys_log t' = sys_log t"
    using POST_logged [OF t(2) res(2) assms(4,5)] by blast
  have "committed (sys_log s') key = Some (case committed (sys_log t) key of None \<Rightarrow> val | Some w \<Rightarrow> w)"
    if "status = StatusOK" and "sys_run st env s s'" for s'
  proof -
    have "committed (sys_log t') key = Some (case committed (sys_log t) key of None \<Rightarrow> val | Some w \<Rightarrow> w)"
      using status(3) that(1) committed_add [OF sys_log_adds [OF inv(1)] assms(4,5)] by simp
    then show ?thesis by (rule committed_stays [OF rtranclp_trans [OF t(3) that(2)] assms(1) inv(2)])
  qed
  with res(1) status t show ?thesis by (intro bexI [OF _ u] exI [of _ d] exI [of _ t] exI [of _ t'] bexI [of _ status]) auto
qed

text \<open>The run of \<open>demo\<close>, whose write is that of a client.\<close>

abbreviation demo_post :: post_network where
  "demo_post \<equiv> \<lambda>url body. Some (1, if url = ''http://h:1/key'' \<and> body = kv_body ''k'' ''v'' then Ok (answer 200 (json_of_Status StatusOK))
     else Err (Errorf ''refused''))"

lemma demo_POST:
  "sys_POST env1 demo_before ''http://h:1/key'' (kv_body ''k'' ''v'') (answer 200 (json_of_Status StatusOK)) demo_after"
  using leader_accepts [of 0 demo_elected demo_before "''h:1''" "''k''" "''v''" env1]
  by (simp add: h1_host demo_written_def demo_elected_def cl_init_def set_replica_def del: cl_step.simps(1))

lemma demo_posts: "posts_to stats0 env1 (sys_init [svc1]) demo demo_post"
  using demo_run_before demo_POST demo_run_after unfolding posts_to_def by (auto split: if_splits)

lemma answers_differ:
  "print_json (json_of_Status StatusOK) \<noteq> print_json (json_of_Status StatusKeyDuplicate)"
  "print_json (json_of_Status StatusOK) \<noteq> print_json (json_of_Status StatusInternalError)"
  by code_simp+

theorem Put_reported_done_witness:
  "\<exists>t. sys_run stats0 env1 (sys_init [svc1]) t \<and>
    committed (sys_log demo) ''k'' = Some (case committed (sys_log t) ''k'' of None \<Rightarrow> ''v'' | Some w \<Rightarrow> w)"
proof -
  let ?c = "\<lparr>cli_dbs = [''h:1''], cli_caches = [], cli_fastCache = [], cli_fastDB = ''h:1''\<rparr>"
  have "(None, ?c) \<in> kv_Put demo_post ''k'' ''v'' ?c" by (simp add: kv_Put_def kv_set_def h1_host forget_slow_def)
  from Put_reported_done [OF stats0_plain demo_posts this] show ?thesis by (auto simp: h1_host answers_differ)
qed

end
