(* ===== verification/Recovery.thy ===== *)
theory Recovery
  imports RaftBolt Store
begin

text \<open>
  What a database node has on its disk, and what it recovers from it: the raft log in the bolt file of \<open>raftboltdb\<close> and the latest
  snapshot that \<open>db/node/store\<close> has persisted. The operations are those raft does, in the order it may do them: it appends
  entries with the next indexes (a batch whose commit may fail), deletes the entries from an index on that is above the snapshot (a
  follower whose entries conflict with those of the leader), takes snapshots of what it has applied, deletes entries that a
  snapshot covers, and after a crash opens the file again. A node that is far behind keeps the snapshot that the leader sends: it covers
  entries which the node has not, or has other ones for, and these stay in the file, below the snapshot and perhaps with a gap after them. To recover, the node
  restores the snapshot and applies the entries after it, one \<open>GetLog\<close> at a time, up to \<open>LastIndex\<close>; entries that are no commands are skipped.
\<close>

section \<open>Model\<close>

text \<open>The data of an entry is the text of a command.\<close>

definition text_of :: "bytes \<Rightarrow> string" where
  "text_of b = map (\<lambda>x. char_of (unat x)) b"

definition LogCommand :: "8 word" where
  "LogCommand = 0"

definition entry_step :: "raft_log \<Rightarrow> string gomap \<Rightarrow> string gomap result" where
  "entry_step l m = (if LogType l = LogCommand then fsm_step (text_of (Data l)) m else Ok m)"

record disk =
  disk_bolt :: bolt_db
  disk_snap :: "(nat \<times> string) option"

definition snap_index :: "disk \<Rightarrow> nat" where
  "snap_index d = (case disk_snap d of None \<Rightarrow> 0 | Some (k, _) \<Rightarrow> k)"

datatype disk_op = Append "raft_log list" error | Truncate "64 word" error | Snap nat | Install "raft_log list" | Compact "64 word" error | Reopen error

text \<open>The state is the log as the node knows it, and the disk. \<open>Install\<close> has the entries that the snapshot of the leader covers.\<close>

fun disk_step :: "(raft_log \<Rightarrow> bytes result) \<Rightarrow> (bytes \<Rightarrow> raft_log result) \<Rightarrow> disk_op \<Rightarrow> raft_log list \<times> disk \<Rightarrow> raft_log list \<times> disk" where
  "disk_step enc dec (Append new ce) (ls, d) =
     (if map (\<lambda>l. unat (Index l)) new \<noteq> [Suc (length ls)..<Suc (length ls + length new)] then (ls, d)
      else case StoreLogs enc ce new (disk_bolt d) of
        (None, db) \<Rightarrow> (ls @ new, d\<lparr>disk_bolt := db\<rparr>) | (Some _, db) \<Rightarrow> (ls, d\<lparr>disk_bolt := db\<rparr>))"
| "disk_step enc dec (Truncate i ce) (ls, d) =
     (if unat i \<le> snap_index d \<or> length ls < unat i then (ls, d)
      else case LastIndex (disk_bolt d) of
        Inl err \<Rightarrow> (ls, d)
      | Inr final \<Rightarrow> (case DeleteRange ce i final (disk_bolt d) of
          (None, db) \<Rightarrow> (take (unat i - 1) ls, d\<lparr>disk_bolt := db\<rparr>) | (Some _, db) \<Rightarrow> (ls, d\<lparr>disk_bolt := db\<rparr>)))"
| "disk_step enc dec (Snap k) (ls, d) =
     (if k < snap_index d \<or> length ls < k then (ls, d)
      else case run_log entry_step (take k ls) [] of
        Inl panic \<Rightarrow> (ls, d)
      | Inr m \<Rightarrow> (case fsmSnapshot_Persist None None (fsm_Snapshot m) of (_, bytes, _) \<Rightarrow> (ls, d\<lparr>disk_snap := Some (k, bytes)\<rparr>)))"
| "disk_step enc dec (Install pre) (ls, d) =
     (if length pre \<le> snap_index d \<or> map (\<lambda>l. unat (Index l)) pre \<noteq> [1..<Suc (length pre)] then (ls, d)
      else case run_log entry_step pre [] of
        Inl panic \<Rightarrow> (ls, d)
      | Inr m \<Rightarrow> (case fsmSnapshot_Persist None None (fsm_Snapshot m) of
          (_, bytes, _) \<Rightarrow> (pre @ drop (length pre) ls, d\<lparr>disk_snap := Some (length pre, bytes)\<rparr>)))"
| "disk_step enc dec (Compact mx ce) (ls, d) =
     (case FirstIndex (disk_bolt d) of
        Inl err \<Rightarrow> (ls, d)
      | Inr mn \<Rightarrow>
          if snap_index d < unat mx then (ls, d)
          else (ls, d\<lparr>disk_bolt := snd (DeleteRange ce mn mx (disk_bolt d))\<rparr>))"
| "disk_step enc dec (Reopen ce) (ls, d) =
     (case NewBoltStore (\<lambda>_. Ok ((bolt_Close (disk_bolt d))\<lparr>db_opened := True\<rparr>)) ce [] of
        Inl err \<Rightarrow> (ls, d) | Inr db \<Rightarrow> (ls, d\<lparr>disk_bolt := db\<rparr>))"

fun replay :: "(bytes \<Rightarrow> raft_log result) \<Rightarrow> bolt_db \<Rightarrow> 64 word list \<Rightarrow> string gomap \<Rightarrow> string gomap result" where
  "replay dec db [] m = Ok m"
| "replay dec db (i # is) m = (case GetLog dec i db of
     Inl err \<Rightarrow> Err err
   | Inr l \<Rightarrow> (case entry_step l m of Inl panic \<Rightarrow> Err panic | Inr m' \<Rightarrow> replay dec db is m'))"

definition recover :: "(bytes \<Rightarrow> raft_log result) \<Rightarrow> disk \<Rightarrow> string gomap result" where
  "recover dec d = (case LastIndex (disk_bolt d) of
     Inl err \<Rightarrow> Err err
   | Inr final \<Rightarrow> replay dec (disk_bolt d) (map of_nat [Suc (snap_index d)..<Suc (unat final)])
       (case disk_snap d of None \<Rightarrow> [] | Some (_, bytes) \<Rightarrow> snd (fsm_Restore bytes [])))"

section \<open>The entries as a state machine\<close>

interpretation entries: raft_fsm entry_step "\<lambda>m. marshal_map (fsm_Snapshot m)" fsm_Restore fsm_inv
  by unfold_locales (auto simp: entry_step_def restore_persist dest: fsm.step_inv split: if_splits)

section \<open>Invariant\<close>

text \<open>
  After the entries that the snapshot covers the bolt file has exactly those of the log, and the snapshot is the state after
  the entries it covers.
\<close>

definition log_from :: "(bytes \<Rightarrow> raft_log result) \<Rightarrow> bolt_db \<Rightarrow> nat \<Rightarrow> raft_log list \<Rightarrow> bool" where
  "log_from dec db a ls \<longleftrightarrow> log_inv dec db \<and> (\<forall>i. a < unat i \<longrightarrow> log_entry dec db i =
     (if unat i \<le> length ls then Some (ls ! (unat i - 1)) else None))"

definition disk_inv :: "(bytes \<Rightarrow> raft_log result) \<Rightarrow> raft_log list \<times> disk \<Rightarrow> bool" where
  "disk_inv dec s \<longleftrightarrow> (case s of (ls, d) \<Rightarrow> length ls < 2 ^ 64 \<and> log_from dec (disk_bolt d) (snap_index d) ls \<and> snap_index d \<le> length ls
     \<and> (\<forall>k bytes. disk_snap d = Some (k, bytes) \<longrightarrow>
         (\<exists>m. run_log entry_step (take k ls) [] = Ok m \<and> bytes = marshal_map (fsm_Snapshot m))))"

lemma log_from_mono: "log_from dec db a ls \<Longrightarrow> a \<le> b \<Longrightarrow> log_from dec db b ls"
  by (simp add: log_from_def)

lemma word_nat: "n < 2 ^ 64 \<Longrightarrow> unat (of_nat n :: 64 word) = n"
  by (simp add: unsigned_of_nat take_bit_nat_eq_self)

text \<open>The last index, which is that of the log when the log goes beyond the snapshot.\<close>

lemma LastIndex_from:
  assumes "log_from dec db a ls" and "length ls < 2 ^ 64"
  obtains final where "LastIndex db = Ok final" and "if a < length ls then unat final = length ls else unat final \<le> a"
proof -
  have inv: "log_inv dec db" using assms(1) by (simp add: log_from_def)
  let ?D = "dom (log_entry dec db)"
  have fin: "finite ?D" by simp
  have dom: "i \<in> ?D \<longleftrightarrow> unat i \<le> length ls" if "a < unat i" for i
    using assms(1) that by (auto simp: log_from_def dom_def)
  show ?thesis
  proof (cases "?D = {}")
    case True
    then have "\<not> a < length ls" using dom [of "of_nat (length ls)"] assms(2) by (auto simp: word_nat)
    with True that [of 0] show ?thesis by (simp add: LastIndex_max [OF inv])
  next
    case False
    with fin have mx: "Max ?D \<in> ?D" "\<And>i. i \<in> ?D \<Longrightarrow> i \<le> Max ?D" by simp_all
    have "unat (Max ?D) = length ls" if "a < length ls"
    proof -
      have "of_nat (length ls) \<in> ?D" using dom that assms(2) by (simp add: word_nat)
      from mx(2) [OF this] have "length ls \<le> unat (Max ?D)" using assms(2) by (simp add: word_le_nat_alt word_nat)
      with dom [of "Max ?D"] mx(1) that show ?thesis by simp
    qed
    moreover have "unat (Max ?D) \<le> a" if "\<not> a < length ls"
      using dom [of "Max ?D"] mx(1) that by fastforce
    ultimately show ?thesis using that [of "Max ?D"] False by (simp add: LastIndex_max [OF inv])
  qed
qed

lemma replay_from:
  assumes "log_from dec db a ls" and "length ls < 2 ^ 64" and "a \<le> k" and "k \<le> n" and "n \<le> length ls"
  shows "replay dec db (map of_nat [Suc k..<Suc n]) m = run_log entry_step (drop k (take n ls)) m"
  using assms(3,4)
proof (induction "n - k" arbitrary: k m)
  case (Suc j)
  then have k: "k < n" by simp
  have e: "GetLog dec (of_nat (Suc k)) db = Ok (ls ! k)"
    using assms(1,2,5) Suc.prems(1) k by (simp add: log_from_def GetLog_entry word_nat del: of_nat_Suc)
  have upt: "[Suc k..<Suc n] = Suc k # [Suc (Suc k)..<Suc n]" using k by (simp add: upt_conv_Cons del: upt_Suc)
  have "drop k (take n ls) = ls ! k # drop (Suc k) (take n ls)" using k assms(5) by (subst Cons_nth_drop_Suc [symmetric]) simp_all
  with e upt Suc.hyps(1) [of "Suc k"] Suc.hyps(2) Suc.prems k show ?case by (simp del: upt_Suc of_nat_Suc split: sum.split)
qed simp

text \<open>What is recovered is what was appended.\<close>

lemma recover_all:
  assumes "disk_inv dec (ls, d)"
  shows "recover dec d = run_log entry_step ls []"
proof -
  let ?k = "snap_index d"
  have a: "log_from dec (disk_bolt d) ?k ls" and len: "length ls < 2 ^ 64" "?k \<le> length ls" using assms by (auto simp: disk_inv_def)
  let ?m = "case disk_snap d of None \<Rightarrow> [] | Some (_, bytes) \<Rightarrow> snd (fsm_Restore bytes [])"
  have m: "run_log entry_step (drop ?k ls) ?m = run_log entry_step ls []"
  proof (cases "disk_snap d")
    case (Some p)
    then obtain k bytes where p: "disk_snap d = Some (k, bytes)" by (cases p) simp
    with assms obtain m where m: "run_log entry_step (take k ls) [] = Ok m" "bytes = marshal_map (fsm_Snapshot m)"
      by (auto simp: disk_inv_def)
    from entries.snapshot_then_suffix [OF _ m(1), of "drop k ls" "[]"] m(2) p show ?thesis by (simp add: snap_index_def)
  qed (simp add: snap_index_def)
  obtain final where final: "LastIndex (disk_bolt d) = Ok final" "if ?k < length ls then unat final = length ls else unat final \<le> ?k"
    using LastIndex_from [OF a len(1)] .
  show ?thesis
  proof (cases "?k < length ls")
    case True
    with replay_from [OF a len(1) order_refl len(2), of ?m] final m show ?thesis by (simp add: recover_def del: upt_Suc)
  next
    case False
    with final have "[Suc ?k..<Suc (unat final)] = []" by simp
    with final(1) m False show ?thesis by (simp add: recover_def del: upt_Suc)
  qed
qed

section \<open>Every operation keeps the invariant\<close>

lemma stored_entries:
  assumes "map (\<lambda>l. unat (Index l)) new = [Suc n..<Suc (n + length new)]"
  shows "map_of (rev (map (\<lambda>l. (Index l, l)) new)) i =
    (if n < unat i \<and> unat i \<le> n + length new then Some (new ! (unat i - Suc n)) else None)"
  using assms
proof (induction new rule: rev_induct)
  case (snoc l new)
  have "map (\<lambda>l. unat (Index l)) new @ [unat (Index l)] = [Suc n..<Suc (n + length new)] @ [Suc (n + length new)]"
    using snoc.prems by simp
  then have new: "map (\<lambda>l. unat (Index l)) new = [Suc n..<Suc (n + length new)]" and l: "unat (Index l) = Suc (n + length new)" by auto
  have "i = Index l \<longleftrightarrow> unat i = Suc (n + length new)" unfolding l [symmetric] by (simp add: word_unat_eq_iff)
  then show ?case using snoc.IH [OF new] by (auto simp: nth_append)
qed simp

lemma append_inv:
  assumes "codec_ok enc dec" and "disk_inv dec (ls, d)"
  shows "disk_inv dec (disk_step enc dec (Append new ce) (ls, d))"
proof (cases "map (\<lambda>l. unat (Index l)) new = [Suc (length ls)..<Suc (length ls + length new)]")
  case True
  obtain e db where st: "StoreLogs enc ce new (disk_bolt d) = (e, db)" by fastforce
  show ?thesis
  proof (cases e)
    case None
    have a: "log_from dec (disk_bolt d) (snap_index d) ls" "snap_index d \<le> length ls" using assms(2) by (auto simp: disk_inv_def)
    have "put_logs enc new (disk_bolt d) = Ok db" using st None by (simp add: StoreLogs_def write_tx_None)
    from put_logs_entry [OF assms(1) _ this] a(1)
    have db: "log_inv dec db" "log_entry dec db = log_entry dec (disk_bolt d) ++ map_of (rev (map (\<lambda>l. (Index l, l)) new))"
      by (auto simp: log_from_def)
    have "log_from dec db (snap_index d) (ls @ new)"
      using db a by (auto simp: log_from_def map_add_def stored_entries [OF True] nth_append)
    moreover have "length (ls @ new) < 2 ^ 64"
    proof (cases new rule: rev_cases)
      case (snoc xs l)
      with True have "unat (Index l) = length (ls @ new)" by simp
      then show ?thesis using unsigned_less [where 'a = nat, of "Index l"] by simp
    qed (use assms(2) in \<open>simp add: disk_inv_def\<close>)
    ultimately show ?thesis using assms(2) st None True by (auto simp: disk_inv_def snap_index_def)
  next
    case (Some err)
    then have "db = disk_bolt d" using st write_tx_Some by (auto simp: StoreLogs_def)
    with Some st True assms(2) show ?thesis by (simp add: disk_inv_def snap_index_def)
  qed
qed (use assms(2) in simp)

lemma truncate_inv:
  assumes "disk_inv dec (ls, d)"
  shows "disk_inv dec (disk_step enc dec (Truncate i ce) (ls, d))"
proof (cases "unat i \<le> snap_index d \<or> length ls < unat i")
  case False
  let ?k = "snap_index d"
  have a: "log_from dec (disk_bolt d) ?k ls" and len: "length ls < 2 ^ 64" using assms by (auto simp: disk_inv_def)
  have inv: "log_inv dec (disk_bolt d)" using a by (simp add: log_from_def)
  have "?k < length ls" using False by simp
  with LastIndex_from [OF a len] obtain final where "LastIndex (disk_bolt d) = Ok final" "unat final = length ls" by metis
  then have final: "LastIndex (disk_bolt d) = Ok (of_nat (length ls))" using len by (simp add: word_unat_eq_iff word_nat)
  obtain e db where del: "DeleteRange ce i (of_nat (length ls)) (disk_bolt d) = (e, db)" by fastforce
  show ?thesis
  proof (cases e)
    case None
    note r = DeleteRange_entry [OF inv del [unfolded None]]
    let ?ls = "take (unat i - 1) ls"
    have l: "unat (of_nat (length ls) :: 64 word) = length ls" using len by (simp add: word_nat)
    have "log_entry dec db j = (if unat j \<le> length ?ls then Some (?ls ! (unat j - 1)) else None)" if "?k < unat j" for j
      using r a that False by (auto simp: log_from_def restrict_map_def word_le_nat_alt l)
    then have "log_from dec db ?k ?ls" using r by (simp add: log_from_def)
    moreover have "take k ?ls = take k ls" if "k = snap_index d" for k
    proof -
      have "k \<le> unat i - 1" using that False by linarith
      then show ?thesis by (simp add: min_absorb1)
    qed
    ultimately show ?thesis using assms final del None False
      by (auto simp: disk_inv_def snap_index_def [of "d\<lparr>disk_bolt := _\<rparr>"]) (auto simp: snap_index_def)
  next
    case (Some err)
    then have "db = disk_bolt d" using del write_tx_Some by (auto simp: DeleteRange_def)
    with Some assms final del False show ?thesis by (simp add: disk_inv_def snap_index_def)
  qed
qed (use assms in simp)

lemma snap_inv:
  assumes "disk_inv dec (ls, d)"
  shows "disk_inv dec (disk_step enc dec (Snap k) (ls, d))"
proof (cases "k < snap_index d \<or> length ls < k")
  case False
  show ?thesis
  proof (cases "run_log entry_step (take k ls) []")
    case (Inr m)
    have "log_from dec (disk_bolt d) k ls" using assms False by (auto simp: disk_inv_def intro: log_from_mono)
    with False Inr assms show ?thesis
      by (simp add: disk_inv_def snap_index_def [of "d\<lparr>disk_snap := _\<rparr>"] fsmSnapshot_Persist_def)
  qed (use assms in simp)
qed (use assms in simp)

lemma install_inv:
  assumes "disk_inv dec (ls, d)"
  shows "disk_inv dec (disk_step enc dec (Install pre) (ls, d))"
proof (cases "length pre \<le> snap_index d \<or> map (\<lambda>l. unat (Index l)) pre \<noteq> [1..<Suc (length pre)]")
  case False
  show ?thesis
  proof (cases "run_log entry_step pre []")
    case (Inr m)
    let ?n = "length pre"
    have n: "unat (Index (last pre)) = ?n" if "pre \<noteq> []"
      using that False last_map [of pre "\<lambda>l. unat (Index l)"] by simp
    have "?n < 2 ^ 64" using n unsigned_less [where 'a = nat, of "Index (last pre)"] by (cases "pre = []") simp_all
    moreover have "log_from dec (disk_bolt d) ?n (pre @ drop ?n ls)"
      using assms False by (auto simp: disk_inv_def log_from_def nth_append not_less)
    moreover have "length (pre @ drop ?n ls) < 2 ^ 64" using \<open>?n < 2 ^ 64\<close> assms by (auto simp: disk_inv_def)
    ultimately show ?thesis using False Inr assms
      by (simp add: disk_inv_def snap_index_def [of "d\<lparr>disk_snap := _\<rparr>"] fsmSnapshot_Persist_def)
  qed (use assms in simp)
qed (use assms in simp)

lemma compact_inv:
  assumes "disk_inv dec (ls, d)"
  shows "disk_inv dec (disk_step enc dec (Compact mx ce) (ls, d))"
proof -
  have a: "log_from dec (disk_bolt d) (snap_index d) ls" using assms by (auto simp: disk_inv_def)
  then have inv: "log_inv dec (disk_bolt d)" by (simp add: log_from_def)
  then obtain mn where mn: "FirstIndex (disk_bolt d) = Ok mn" by (simp add: FirstIndex_min)
  obtain e db where del: "DeleteRange ce mn mx (disk_bolt d) = (e, db)" by fastforce
  show ?thesis
  proof (cases "snap_index d < unat mx")
    case False
    have "log_from dec db (snap_index d) ls"
    proof (cases e)
      case None
      with DeleteRange_entry [OF inv del [unfolded None]] a False show ?thesis
        by (auto simp: log_from_def restrict_map_def word_le_nat_alt)
    next
      case (Some err)
      then have "db = disk_bolt d" using del write_tx_Some by (auto simp: DeleteRange_def)
      with a show ?thesis by simp
    qed
    then show ?thesis using assms mn del False by (auto simp: disk_inv_def snap_index_def)
  qed (use assms mn in simp)
qed

lemma reopen_same:
  assumes "log_inv dec db"
  shows "NewBoltStore (\<lambda>_. Ok ((bolt_Close db)\<lparr>db_opened := True\<rparr>)) ce [] = (case ce of None \<Rightarrow> Ok db | Some e \<Rightarrow> Err e)"
proof -
  obtain b c where b: "dbLogs db = Some b" "dbConf db = Some c" "db_opened db" "\<not> db_readOnly db"
    using assms by (auto simp: log_inv_def conf_ok_def)
  then have "(bolt_Close db)\<lparr>db_opened := True\<rparr> = db" by (cases db) (simp add: bolt_Close_def)
  moreover have "db\<lparr>dbLogs := Some b, dbConf := Some c\<rparr> = db" using b by (cases db) simp
  ultimately show ?thesis
    using b by (simp add: NewBoltStore_def bolt_New_def opt_readOnly_def bolt_initialize_def write_tx_def db_Begin_def split: option.split)
qed

lemma reopen_inv:
  assumes "disk_inv dec (ls, d)"
  shows "disk_inv dec (disk_step enc dec (Reopen ce) (ls, d))"
proof -
  have "log_inv dec (disk_bolt d)" using assms by (auto simp: disk_inv_def log_from_def)
  from reopen_same [OF this] assms show ?thesis by (simp split: option.split)
qed

lemma disk_step_inv: "codec_ok enc dec \<Longrightarrow> disk_inv dec s \<Longrightarrow> disk_inv dec (disk_step enc dec op s)"
  by (cases s; cases op) (simp_all only: append_inv truncate_inv snap_inv install_inv compact_inv reopen_inv)

definition new_disk :: disk where
  "new_disk = \<lparr>disk_bolt = fresh_db, disk_snap = None\<rparr>"

lemma new_disk_inv: "disk_inv dec ([], new_disk)"
  by (auto simp: disk_inv_def new_disk_def snap_index_def log_from_def log_entry_def) (simp_all add: fresh_db_def)

lemma disk_run_inv: "codec_ok enc dec \<Longrightarrow> disk_inv dec s \<Longrightarrow> disk_inv dec (fold (disk_step enc dec) ops s)"
  by (induction ops arbitrary: s) (simp_all add: disk_step_inv)

section \<open>Properties\<close>

text \<open>
  C5: nothing that was stored is lost. Let a node append entries in batches, some of whose commits fail, delete the entries from
  an index on that is above its snapshot, take snapshots, install snapshots that the leader sends and that replace what it has, compact its log below a
  snapshot, and close and open its files, in any order. What it then recovers from its disk, the latest snapshot and the entries
  after it, is the state that the entries of its log lead to: those that were successfully appended or are covered by a
  snapshot of the leader, and not deleted as conflicting. An entry that the snapshot replaces may stay in the file, but is not applied.
\<close>

theorem disk_recovers:
  assumes "codec_ok enc dec" and "fold (disk_step enc dec) ops ([], new_disk) = (ls, d)"
  shows "recover dec d = run_log entry_step ls []"
  using disk_run_inv [OF assms(1) new_disk_inv, of ops] assms(2) by (auto intro: recover_all)

lemma byte_char: "char_of (unat (of_char c :: 8 word)) = c"
proof -
  have "(of_char c :: nat) < 256" by (rule nat_of_char_less_256)
  moreover have "unat (of_nat (of_char c) :: 8 word) = take_bit 8 (of_char c)" by (simp only: unsigned_of_nat) simp
  ultimately have "unat (of_nat (of_char c) :: 8 word) = of_char c" by (simp add: take_bit_nat_eq_self)
  then show ?thesis by (simp add: of_nat_of_char)
qed

text \<open>A node has an entry for the key, the snapshot of the leader another one, and its file is opened again.\<close>

abbreviation add_entry :: "string \<Rightarrow> raft_log" where
  "add_entry v \<equiv> \<lparr>Index = 1, Term = 1, LogType = 0, Data = map of_char (encode_command (add_command ''k'' v))\<rparr>"

abbreviation installs :: "disk_op list" where
  "installs \<equiv> [Append [add_entry ''v''] None, Install [add_entry ''w''], Reopen None]"

theorem disk_recovers_witness:
  "\<exists>d. fold (disk_step plain_enc plain_dec) installs ([], new_disk) = ([add_entry ''w''], d)
    \<and> log_entry plain_dec (disk_bolt d) 1 = Some (add_entry ''v'') \<and> recover plain_dec d = Ok [(''k'', ''w'')]"
proof -
  have "length (encode_command (add_command ''k'' ''v'')) < 100" by code_simp
  then have "fst (StoreLogs plain_enc None [add_entry ''v''] fresh_db) = None"
    using StoreLogs_None [of plain_dec fresh_db plain_enc None "[add_entry ''v'']"] by (simp add: plain_enc_def)
  then obtain db where db: "StoreLogs plain_enc None [add_entry ''v''] fresh_db = (None, db)" by (metis fst_conv prod.collapse)
  have "text_of (map of_char (encode_command (add_command ''k'' ''w''))) = encode_command (add_command ''k'' ''w'')"
    by (simp add: text_of_def comp_def byte_char)
  then have w: "run_log entry_step [add_entry ''w''] [] = Ok [(''k'', ''w'')]"
    by (simp add: entry_step_def LogCommand_def fsm_step_def fsm_Apply_add applyAdd_def)
  let ?d = "new_disk\<lparr>disk_bolt := db\<rparr>"
  have "disk_step plain_enc plain_dec (Append [add_entry ''v''] None) ([], new_disk) = ([add_entry ''v''], ?d)"
    using db by (simp add: new_disk_def)
  with append_inv [OF plain_codec new_disk_inv, of "[add_entry ''v'']" None] have inv: "disk_inv plain_dec ([add_entry ''v''], ?d)" by simp
  then have v: "log_inv plain_dec db" "log_entry plain_dec db 1 = Some (add_entry ''v'')"
    by (simp_all add: disk_inv_def log_from_def snap_index_def new_disk_def)
  obtain bytes where "fold (disk_step plain_enc plain_dec) installs ([], new_disk) = ([add_entry ''w''], ?d\<lparr>disk_snap := Some (1, bytes)\<rparr>)"
    using db w reopen_same [OF v(1), of None]
    by (simp add: new_disk_def snap_index_def fsmSnapshot_Persist_def del: run_log.simps)
  with disk_recovers [OF plain_codec this] w v(2) show ?thesis by (intro exI conjI) simp_all
qed

end
