(* ===== verification/ShardMaster.thy ===== *)
theory ShardMaster
  imports Meta ConsistentHash
begin

text \<open>
  \<open>db/master/shardmaster.go\<close>: the shard master. A key is mapped to a shard by the hash ring, the
  shard to group ids by a history of mappings, and a group id to its members by the meta store.

  The iteration order of a Go map is not fixed: \<open>iter\<close> gives the order in which \<open>range gidMap\<close>
  meets the keys. The gob decoders of the two stored values are parameters (\<open>dec_map\<close>, which
  may also decode a nil slice, \<open>None\<close>, and \<open>dec_members\<close>). Join, Leave and Move are stubs of the source.
\<close>

section \<open>Model\<close>

definition shardMasterServerStorageKey :: string where
  "shardMasterServerStorageKey = ''oncekv.shard.master.mapping''"

definition shardMasterMemberGroupKeyForID :: "int \<Rightarrow> string" where
  "shardMasterMemberGroupKeyForID gid = ''oncekv.shard.master.member.group'' @ ''.'' @ Itoa gid"

definition ErrServiceUnavailable :: go_error where
  "ErrServiceUnavailable = Sentinel ''master.ErrServiceUnavailable''"

record Member =
  Addr :: string
  GID :: int
  Extras :: "string gomap"

type_synonym shardIDToGroupIDs = "(int \<times> int) list list"

text \<open>The set \<open>gidMap\<close>, collected from the latest mapping to the first; its keys in increasing order.\<close>

definition gidMap :: "shardIDToGroupIDs \<Rightarrow> int \<Rightarrow> (int \<times> unit) list" where
  "gidMap mapping shardID = foldl (\<lambda>gids mp. case map_of mp shardID of
     None \<Rightarrow> gids | Some gid \<Rightarrow> map_put gid () gids) [] (rev mapping)"

text \<open>The second loop writes every key to the same slot: its index \<open>i\<close> stays 0.\<close>

definition groupIDs :: "(int list \<Rightarrow> int list) \<Rightarrow> shardIDToGroupIDs \<Rightarrow> int \<Rightarrow> int list" where
  "groupIDs iter mapping shardID =
     (let ks = map_keys (gidMap mapping shardID); i = 0
      in foldl (\<lambda>gids k. gids[i := k]) (replicate (length ks) 0) (iter ks))"

record shardMasterServer =
  shardCount :: int
  keyMapping :: hash_ring
  mappings :: "shardIDToGroupIDs option"

definition fetchShardIDToGroupIDs ::
  "'m Meta \<Rightarrow> (string \<Rightarrow> shardIDToGroupIDs option result) \<Rightarrow> 'm \<Rightarrow> shardIDToGroupIDs option result" where
  "fetchShardIDToGroupIDs M dec_map m = (case meta_Get M m shardMasterServerStorageKey of
     Inl err \<Rightarrow> Err err | Inr mappingsVal \<Rightarrow> dec_map mappingsVal)"

text \<open>The key mapping of \<open>NewShardMasterServer\<close>: as many shards as replicas, added one by one.\<close>

definition shard_ring :: "int \<Rightarrow> hash_ring" where
  "shard_ring n = foldl (\<lambda>m i. ring_Add [i] m) (New_ring n None) [0 .. n - 1]"

definition NewShardMasterServer ::
  "'m Meta \<Rightarrow> (string \<Rightarrow> shardIDToGroupIDs option result) \<Rightarrow> 'm \<Rightarrow> shardMasterServer result" where
  "NewShardMasterServer M dec_map m =
     (let n = int (ShardCount Config); ring = shard_ring n in
      case fetchShardIDToGroupIDs M dec_map m of
        Inl err \<Rightarrow>
          if err \<noteq> ErrDataNotFound
          then Err (Errorf (''failed to fetch the shardIDToGroupIDs of shard id to group id, err:'' @ err_text err))
          else Ok \<lparr>shardCount = n, keyMapping = ring, mappings = None\<rparr>
      | Inr mps \<Rightarrow> Ok \<lparr>shardCount = n, keyMapping = ring, mappings = mps\<rparr>)"

definition sm_Join :: "Member \<Rightarrow> shardMasterServer \<Rightarrow> error \<times> shardMasterServer" where
  "sm_Join member server = (None, server)"

definition sm_Leave :: "Member \<Rightarrow> shardMasterServer \<Rightarrow> error \<times> shardMasterServer" where
  "sm_Leave member server = (None, server)"

definition sm_Move :: "int \<Rightarrow> Member \<Rightarrow> shardMasterServer \<Rightarrow> error \<times> shardMasterServer" where
  "sm_Move shardIndex member server = (None, server)"

text \<open>The loop of \<open>Query\<close> over the group ids, appending to \<open>groups\<close>.\<close>

fun query_groups :: "'m Meta \<Rightarrow> (string \<Rightarrow> string list result) \<Rightarrow> 'm \<Rightarrow> int list \<Rightarrow> string list list \<Rightarrow> string list list result" where
  "query_groups M dec_members m [] groups = Ok groups"
| "query_groups M dec_members m (gid # gids) groups =
     (let key = shardMasterMemberGroupKeyForID gid in
      case meta_Get M m key of
        Inl err \<Rightarrow> Err (Errorf (''failed to get the value of '' @ [CHR 0x27] @ key @ [CHR 0x27]))
      | Inr membersVal \<Rightarrow> (case dec_members membersVal of
          Inl err \<Rightarrow> Err (Errorf (''data broken of key '' @ [CHR 0x27] @ key @ [CHR 0x27]))
        | Inr members \<Rightarrow> query_groups M dec_members m gids (groups @ [members])))"

definition Query ::
  "'m Meta \<Rightarrow> (string \<Rightarrow> string list result) \<Rightarrow> (int list \<Rightarrow> int list) \<Rightarrow> shardMasterServer \<Rightarrow> 'm \<Rightarrow> string \<Rightarrow>
    string list list result" where
  "Query M dec_members iter server m key = (case mappings server of
     None \<Rightarrow> Err ErrServiceUnavailable
   | Some mapping \<Rightarrow>
       (let gids = groupIDs iter mapping (ring_Get (keyMapping server) key) in
        if gids = [] then Err ErrServiceUnavailable
        else query_groups M dec_members m gids (replicate (length gids) [])))"

section \<open>Lemmas\<close>

lemma gidMap_loop:
  "gomap_wf acc \<Longrightarrow> gomap_wf (foldl (\<lambda>gids mp. case map_of mp s of None \<Rightarrow> gids | Some gid \<Rightarrow> map_put gid () gids) acc mps) \<and>
   set (map_keys (foldl (\<lambda>gids mp. case map_of mp s of None \<Rightarrow> gids | Some gid \<Rightarrow> map_put gid () gids) acc mps))
     = set (map_keys acc) \<union> {g. \<exists>mp\<in>set mps. map_of mp s = Some g}"
  by (induction mps arbitrary: acc) (auto split: option.splits)

lemma gidMap_keys:
  "distinct (map_keys (gidMap mapping s))"
  "set (map_keys (gidMap mapping s)) = {g. \<exists>mp\<in>set mapping. map_of mp s = Some g}"
  using gidMap_loop [of "[]" s "rev mapping"]
  by (auto simp: gidMap_def gomap_wf_def strict_sorted_iff)

lemma write_slot_0: "foldl (\<lambda>gids k. gids[0 := k]) (x # xs) ks = last (x # ks) # xs" for x :: int
  by (induction ks arbitrary: x) auto

lemma groupIDs_eq:
  assumes "set (iter (map_keys (gidMap mapping s))) = set (map_keys (gidMap mapping s))"
  shows "groupIDs iter mapping s = (case map_keys (gidMap mapping s) of [] \<Rightarrow> []
     | _ # ks \<Rightarrow> last (iter (map_keys (gidMap mapping s))) # replicate (length ks) 0)"
  using assms by (auto simp: groupIDs_def write_slot_0 Let_def split: list.splits)

text \<open>The members stored for a group id, if they can be read and decoded.\<close>

definition members_of :: "'m Meta \<Rightarrow> (string \<Rightarrow> string list result) \<Rightarrow> 'm \<Rightarrow> int \<Rightarrow> string list option" where
  "members_of M dec_members m gid = (case meta_Get M m (shardMasterMemberGroupKeyForID gid) of
     Inl _ \<Rightarrow> None | Inr v \<Rightarrow> (case dec_members v of Inl _ \<Rightarrow> None | Inr ms \<Rightarrow> Some ms))"

lemma query_groups_Ok:
  "query_groups M d m gids groups = Ok gs \<longleftrightarrow>
    (\<forall>g\<in>set gids. members_of M d m g \<noteq> None) \<and> gs = groups @ map (\<lambda>g. the (members_of M d m g)) gids"
proof (induction gids arbitrary: groups)
  case (Cons g gids)
  show ?case
    by (cases "meta_Get M m (shardMasterMemberGroupKeyForID g)")
      (auto simp: Cons members_of_def Let_def split: sum.splits)
qed auto

lemma fold_singletons: "foldl (\<lambda>m i. ring_Add [i] m) m is = fold ring_Add (map (\<lambda>i. [i]) is) m"
  by (induction "is" arbitrary: m) auto

lemma shard_ring_built: "shard_ring n = built n None (map (\<lambda>i. [i]) [0 .. n - 1])"
  by (simp add: shard_ring_def built_def fold_singletons)

lemma ring_of_NewShardMasterServer:
  "NewShardMasterServer M dec m = Ok server \<Longrightarrow> keyMapping server = shard_ring 10"
  by (auto simp: NewShardMasterServer_def Let_def Config_def split: sum.splits if_splits)

section \<open>Properties\<close>

text \<open>
  The shard of a key. In a server made by NewShardMasterServer every key is mapped to one of the
  ten shards 0 to 9, the owner of the ring point that follows the CRC-32 of the key.
\<close>

lemma shard_of_key:
  assumes "NewShardMasterServer M dec m = Ok server"
  shows "ring_Get (keyMapping server) key \<in> {0..<10}
    \<and> clockwise (\<Union>k\<in>{0..<10}. points (shard_ring 10) k) (uint (ChecksumIEEE key))
        \<in> points (shard_ring 10) (ring_Get (keyMapping server) key)"
proof -
  have c: "concat (map (\<lambda>i. [i]) [0 .. 9]) = [0 .. 9::int]" by (simp add: concat_map_singleton)
  have "set [0 .. 9::int] = {0..<10}" by auto
  moreover have "ring_hash (shard_ring 10) = ChecksumIEEE"
    by (simp add: shard_ring_built built_hash)
  ultimately show ?thesis
    using built_Get [of 10 "map (\<lambda>i. [i]) [0 .. 9]" None key] ring_of_NewShardMasterServer [OF assms]
    by (simp add: c shard_ring_built)
qed

lemma shard_of_key_witness:
  "\<exists>server. NewShardMasterServer mock_meta (\<lambda>_. Ok None) [] = Ok server
     \<and> ring_Get (keyMapping server) ''a key'' \<in> {0..<10}"
proof -
  have "NewShardMasterServer mock_meta (\<lambda>_. Ok None) [] = Ok \<lparr>shardCount = 10, keyMapping = shard_ring 10, mappings = None\<rparr>"
    by (simp add: NewShardMasterServer_def fetchShardIDToGroupIDs_def mock_meta_def mock_Get_def Config_def)
  from shard_of_key [OF this] this show ?thesis by blast
qed

text \<open>
  What Query returns. When the shard of the key has n distinct groups in the mapping history, a
  successful answer has n empty groups first, then the members of a single one of the groups, the
  last the map iteration meets, and then n - 1 times the members of group 0. A shard with several
  groups is thus never answered with all of them.
\<close>

lemma Query_answer:
  assumes "\<forall>ks. set (iter ks) = set ks"
    and "mappings server = Some mapping" and "s = ring_Get (keyMapping server) key"
    and "Query M dec_members iter server m key = Ok groups"
  shows "\<exists>g mem. (\<exists>mp\<in>set mapping. map_of mp s = Some g) \<and> members_of M dec_members m g = Some mem \<and>
    (let n = card {g. \<exists>mp\<in>set mapping. map_of mp s = Some g}
     in groups = replicate n [] @ mem # replicate (n - 1) (the (members_of M dec_members m 0)))"
proof -
  let ?ks = "map_keys (gidMap mapping s)" and ?G = "{g. \<exists>mp\<in>set mapping. map_of mp s = Some g}"
  have "groupIDs iter mapping s \<noteq> []" using assms(2-4) by (auto simp: Query_def Let_def)
  then obtain k ks where ks: "?ks = k # ks"
    using groupIDs_eq [of iter mapping s] assms(1) by (cases ?ks) auto
  let ?g = "last (iter ?ks)"
  have gids: "groupIDs iter mapping s = ?g # replicate (length ks) 0"
    using groupIDs_eq [of iter mapping s] assms(1) ks by simp
  have "length (k # ks) = card ?G"
    using gidMap_keys [of mapping s] distinct_card [of ?ks] ks by simp
  then have n: "card ?G = Suc (length ks)" by simp
  have "?g \<in> ?G" using gidMap_keys(2) [of mapping s] assms(1) ks by (metis empty_iff last_in_set list.set(1) list.set_intros(1))
  moreover have "members_of M dec_members m ?g \<noteq> None \<and>
      groups = replicate (Suc (length ks)) [] @ the (members_of M dec_members m ?g) # replicate (length ks) (the (members_of M dec_members m 0))"
    using assms(2-4) gids by (simp add: Query_def query_groups_Ok del: query_groups.simps)
  ultimately show ?thesis using n by (intro exI [of _ ?g]) auto
qed

lemma Query_answer_witness:
  "\<exists>groups g. Query \<lparr>meta_Get = (\<lambda>_ _. Ok ''m''), meta_Put = mock_Put\<rparr> (\<lambda>_. Ok [''a:1'']) (\<lambda>ks. ks)
      \<lparr>shardCount = 10, keyMapping = New_ring 10 None, mappings = Some [[(0, 7)], [(0, 8)]]\<rparr> [] ''k'' = Ok groups
    \<and> groups = [[], [], [''a:1''], [''a:1'']]"
proof -
  let ?M = "\<lparr>meta_Get = (\<lambda>_ _. Ok ''m''), meta_Put = mock_Put\<rparr>"
  let ?srv = "\<lparr>shardCount = 10, keyMapping = New_ring 10 None, mappings = Some [[(0, 7)], [(0, 8)]]\<rparr>"
  have r: "ring_Get (New_ring 10 None) ''k'' = 0" by (simp add: ring_Get_def IsEmpty_def)
  have "groupIDs (\<lambda>ks. ks) [[(0, 7)], [(0, 8)]] 0 = [8, 0]" by (simp add: groupIDs_def gidMap_def)
  then have "Query ?M (\<lambda>_. Ok [''a:1'']) (\<lambda>ks. ks) ?srv [] ''k'' = Ok [[], [], [''a:1''], [''a:1'']]"
    by (simp add: Query_def r)
  with Query_answer [of "\<lambda>ks. ks" ?srv "[[(0, 7)], [(0, 8)]]" 0 "''k''" ?M "\<lambda>_. Ok [''a:1'']" "[]"] r
  show ?thesis by simp
qed

end
