(* ===== verification/ServiceRuns.thy ===== *)
theory ServiceRuns
  imports Service
begin

text \<open>
  Sequences of requests to the database service. Two questions are settled over them: that the store stays well
  formed whatever clients send, so that its snapshots can be restored, and how far \<open>mock.Store\<close>, on which the
  tests of the service run, answers like the raft store. The double differs in two answers, that
  to a duplicate write and that to a request for the statistics.
\<close>

section \<open>Runs of the service\<close>

text \<open>A request is its method, path and body; a websocket request has no answer.\<close>

type_synonym request = "string \<times> string \<times> string"

fun serve_run :: "'s StoreI \<Rightarrow> Service \<Rightarrow> request list \<Rightarrow> 's \<Rightarrow> http_response option list \<times> 's" where
  "serve_run S svc [] s = ([], s)"
| "serve_run S svc ((httpMethod, path, body) # reqs) s =
     (case serve S svc s httpMethod path body of
        None \<Rightarrow> (let (rs, s') = serve_run S svc reqs s in (None # rs, s'))
      | Some (r, s1) \<Rightarrow> (let (rs, s') = serve_run S svc reqs s1 in (Some r # rs, s')))"

text \<open>
  What happens to the store of a node: an election sets its raft state and the leader it knows of; a request comes
  with the outcome of its log entry and of an \<open>AddPeer\<close>; an entry that another node led is applied (a panic leaves the
  map); a snapshot that another node sent is restored.
\<close>

datatype store_event =
    Elected RaftState string
  | Requested error "string \<Rightarrow> string list result" request
  | Replicated string
  | Restored string

fun store_event_step :: "(store \<Rightarrow> string gomap) \<Rightarrow> open_env \<Rightarrow> Service \<Rightarrow> store_event \<Rightarrow> store \<Rightarrow> store" where
  "store_event_step stats env svc (Elected st leader) s = s\<lparr>raft_State := st, raft_Leader := leader\<rparr>"
| "store_event_step stats env svc (Requested fut ap (httpMethod, path, body)) s =
     (case serve (raft_store stats env fut ap) svc s httpMethod path body of None \<Rightarrow> s | Some (_, s') \<Rightarrow> s')"
| "store_event_step stats env svc (Replicated data) s =
     (case fsm_Apply data (kvm s) of Inl panic \<Rightarrow> s | Inr (_, m) \<Rightarrow> s\<lparr>kvm := m\<rparr>)"
| "store_event_step stats env svc (Restored rc) s = s\<lparr>kvm := snd (fsm_Restore rc (kvm s))\<rparr>"

definition raft_run :: "(store \<Rightarrow> string gomap) \<Rightarrow> open_env \<Rightarrow> Service \<Rightarrow> store_event list \<Rightarrow> store \<Rightarrow> store" where
  "raft_run stats env svc evs s = fold (store_event_step stats env svc) evs s"

section \<open>The store stays well formed\<close>

lemma serve_fsm_inv:
  assumes "serve (raft_store stats env fut ap) svc s mth path body = Some (r, s')" and "fsm_inv (kvm s)"
  shows "fsm_inv (kvm s')"
proof (cases "route_of mth path")
  case SetKey
  obtain ctx s1 where "handleSet (raft_store stats env fut ap) svc s body new_ctx = (ctx, s1)" by fastforce
  with assms SetKey show ?thesis by (auto simp: serve_def fsm_inv_def elim: handleSet_store)
next
  case JoinPeer
  have "kvm (snd (store_Join ap s a)) = kvm s" for a by (simp add: store_Join_def split: sum.split)
  then have "kvm (fst (snd (handleJoin (raft_store stats env fut ap) svc s body new_ctx))) = kvm s"
    by (auto simp: handleJoin_def split: sum.split prod.split option.split) (metis snd_conv)+
  with assms JoinPeer show ?thesis by (auto simp: serve_def split: prod.splits)
qed (use assms in \<open>auto simp: serve_def\<close>)

lemma fsm_Restore_inv: "fsm_inv m \<Longrightarrow> fsm_inv (snd (fsm_Restore rc m))"
  by (auto simp: fsm_Restore_def fsm_inv_def bind_result_Ok split: sum.split dest!: json_Decode_utf8 bind_string_map_inv)

lemma store_event_fsm_inv: "fsm_inv (kvm s) \<Longrightarrow> fsm_inv (kvm (store_event_step stats env svc ev s))"
proof (induction stats env svc ev s rule: store_event_step.induct)
  case (2 stats env svc fut ap mth path body s)
  then show ?case
    using serve_fsm_inv [of stats env fut ap svc s mth path body]
    by (cases "serve (raft_store stats env fut ap) svc s mth path body") auto
qed (auto simp: fsm_Restore_inv dest: fsm_Apply_inv split: sum.split)

lemma raft_run_fsm_inv: "fsm_inv (kvm s) \<Longrightarrow> fsm_inv (kvm (raft_run stats env svc evs s))"
  unfolding raft_run_def by (induction evs arbitrary: s) (simp_all add: store_event_fsm_inv)

section \<open>The simulation\<close>

text \<open>The double has the data and the leader of a store that leads; the lists of peers are not compared.\<close>

definition doubles :: "mock_store \<Rightarrow> store \<Rightarrow> bool" where
  "doubles d s \<longleftrightarrow> mock_data d = kvm s \<and> mock_leader d = raft_Leader s \<and> raft_State s = Leader"

text \<open>
  What the double answers to a request, from the state of the raft store and the answer on it: the double has no
  statistics, and reports a write to a key that has a value, as an internal error.
\<close>

definition duplicate_write :: "Service \<Rightarrow> store \<Rightarrow> string \<Rightarrow> bool" where
  "duplicate_write svc s body \<longleftrightarrow> raftAddr svc = raft_Leader s \<and>
     (case set_params body of None \<Rightarrow> False | Some (k, v) \<Rightarrow> store_contents s k \<noteq> None)"

definition double_answer :: "Service \<Rightarrow> store \<Rightarrow> request \<Rightarrow> http_response option \<Rightarrow> http_response option" where
  "double_answer svc s req r = (case req of (httpMethod, path, body) \<Rightarrow>
     if route_of httpMethod path = Stats then Some \<lparr>StatusCode = 200, Body = Ok ''{}''\<rparr>
     else if route_of httpMethod path = SetKey \<and> duplicate_write svc s body
     then Some (answer 200 (json_of_Status StatusInternalError)) else r)"

lemma mock_store_simps [simp]:
  "Store_Leader mock_store_if d = mock_leader d" "Store_Get mock_store_if d k = mockStore_Get d k"
  "Store_Add mock_store_if d k v = mockStore_Add d k v" "Store_Join mock_store_if d a = mockStore_Join d a"
  "Store_Stats mock_store_if d = []"
  by (simp_all add: mock_store_if_def mockStore_Leader_def mockStore_Stats_def)

lemma duplicate_is_no_sentinel [simp]: "Errorf e \<noteq> ErrKeyDuplicated"
  by (simp add: ErrKeyDuplicated_def)

lemma doubles_leader: "doubles d s \<Longrightarrow> mock_leader d = raft_Leader s"
  by (simp add: doubles_def)

lemma doubles_Get: "doubles d s \<Longrightarrow> handleGet mock_store_if svc d k ctx = handleGet (raft_store stats env fut ap) svc s k ctx"
  by (simp add: handleGet_def doubles_def store_Get_def mockStore_Get_def)

lemma doubles_Add:
  assumes "doubles d s" and "valid_utf8 k" and "valid_utf8 v"
  shows "\<exists>s' e d'. store_Add None s k v = (None, s') \<and> mockStore_Add d k v = (e, d') \<and> doubles d' s'
    \<and> e = (if map_of (kvm s) k = None then None else Some (Errorf ''duplicate''))"
  using assms(1) by (auto simp: store_Add_eq [OF assms(2,3)] doubles_def mockStore_Add_def applyAdd_def split: option.split)

lemma doubles_Set:
  assumes "doubles d s" and "handleSet (raft_store stats env None ap) svc s body new_ctx = (ctx, s')"
    and "handleSet mock_store_if svc d body new_ctx = (ctx_d, d')"
  shows "doubles d' s' \<and> ctx_response ctx_d =
    (if duplicate_write svc s body then answer 200 (json_of_Status StatusInternalError) else ctx_response ctx)"
proof (cases "set_params body")
  case None
  with assms show ?thesis by (auto simp: handleSet_eq doubles_def duplicate_write_def split: if_splits)
next
  case (Some kv)
  obtain k v where kv: "kv = (k, v)" by fastforce
  with Some have "valid_utf8 k" "valid_utf8 v" using set_params_utf8 by blast+
  from doubles_Add [OF assms(1) this] obtain s1 e d1 where "store_Add None s k v = (None, s1)" "mockStore_Add d k v = (e, d1)"
      "doubles d1 s1" "e = (if map_of (kvm s) k = None then None else Some (Errorf ''duplicate''))" by blast
  with assms Some kv doubles_leader [OF assms(1)] show ?thesis
    by (auto simp: handleSet_eq duplicate_write_def split: if_splits)
qed

lemma doubles_Join:
  assumes "doubles d s" and "\<forall>a. \<exists>ps. ap a = Ok ps"
    and "handleJoin (raft_store stats env fut ap) svc s body new_ctx = (ctx, s', u)"
    and "handleJoin mock_store_if svc d body new_ctx = (ctx_d, d', u_d)"
  shows "doubles d' s' \<and> ctx_response ctx = ctx_response ctx_d"
proof -
  obtain c params where b: "ctx_BindJSON [(''addr'', FString)] body new_ctx = (c, params)" by fastforce
  show ?thesis
  proof (cases params)
    case (Inl err)
    with b assms(1,3,4) doubles_leader [OF assms(1)] show ?thesis by (auto simp: handleJoin_def split: if_splits)
  next
    case (Inr obj)
    obtain ps where "ap (string_field obj ''addr'') = Ok ps" using assms(2) by blast
    then obtain s1 d1 where "store_Join ap s (string_field obj ''addr'') = (None, s1)"
        "mockStore_Join d (string_field obj ''addr'') = (None, d1)" "doubles d1 s1"
      using assms(1) by (cases "mock_peers d = []") (auto simp: store_Join_def mockStore_Join_def doubles_def)
    with Inr b assms(1,3,4) doubles_leader [OF assms(1)] show ?thesis by (auto simp: handleJoin_def split: if_splits)
  qed
qed

lemma doubles_serve:
  assumes "doubles d s" and "\<forall>a. \<exists>ps. ap a = Ok ps"
  shows "case (serve (raft_store stats env None ap) svc s mth path body, serve mock_store_if svc d mth path body) of
      (Some (r, s'), Some (rd, d')) \<Rightarrow> doubles d' s' \<and> Some rd = double_answer svc s (mth, path, body) (Some r)
    | (r, rd) \<Rightarrow> r = None \<and> rd = None \<and> route_of mth path = WsStats"
proof (cases "route_of mth path")
  case (GetKey k)
  with assms(1) show ?thesis
    by (simp add: serve_def doubles_Get [where stats = stats and env = env and fut = None and ap = ap] double_answer_def)
next
  case SetKey
  obtain c s' cd d' where h: "handleSet (raft_store stats env None ap) svc s body new_ctx = (c, s')"
    "handleSet mock_store_if svc d body new_ctx = (cd, d')" by fastforce
  from doubles_Set [OF assms(1) h] h SetKey show ?thesis by (simp add: serve_def double_answer_def)
next
  case JoinPeer
  obtain c s' u cd d' u_d where h: "handleJoin (raft_store stats env None ap) svc s body new_ctx = (c, s', u)"
    "handleJoin mock_store_if svc d body new_ctx = (cd, d', u_d)" by (metis prod_cases3)
  from doubles_Join [OF assms h] h JoinPeer show ?thesis by (simp add: serve_def double_answer_def)
qed (use assms(1) in \<open>simp_all add: serve_def double_answer_def marshal_map_def json_of_map_def print_json.simps print_members.simps\<close>)

text \<open>Over a run: the same data at the end, and each answer as \<open>double_answer\<close> says.\<close>

lemma doubles_run:
  assumes "doubles d s" and ap: "\<forall>a. \<exists>ps. ap a = Ok ps"
    and "serve_run (raft_store stats env None ap) svc reqs s = (rs, s')" and "serve_run mock_store_if svc reqs d = (rds, d')"
  shows "doubles d' s' \<and> length rs = length reqs \<and> length rds = length reqs \<and> (\<forall>i<length reqs. rds ! i =
    double_answer svc (snd (serve_run (raft_store stats env None ap) svc (take i reqs) s)) (reqs ! i) (rs ! i))"
  using assms(1,3,4)
proof (induction reqs arbitrary: s d rs rds)
  case (Cons q reqs)
  let ?S = "raft_store stats env None ap"
  obtain mth path body where q: "q = (mth, path, body)" using prod_cases3 by blast
  obtain r s1 where r: "(case serve ?S svc s mth path body of None \<Rightarrow> (None, s) | Some (r, s1) \<Rightarrow> (Some r, s1)) = (r, s1)" by fastforce
  obtain rd d1 where rd: "(case serve mock_store_if svc d mth path body of None \<Rightarrow> (None, d) | Some (r, s1) \<Rightarrow> (Some r, s1)) = (rd, d1)" by fastforce
  from doubles_serve [OF Cons.prems(1) ap, where stats = stats and env = env and svc = svc and mth = mth and path = path and body = body] r rd Cons.prems(1)
  have one: "doubles d1 s1" "rd = double_answer svc s q r"
    by (auto simp: q double_answer_def split: option.splits prod.splits)
  have unfold: "serve_run ?S svc (q # qs) s = (let (rs, s') = serve_run ?S svc qs s1 in (r # rs, s'))" for qs
    using r by (auto simp: q split: option.splits prod.splits)
  have "serve_run mock_store_if svc (q # reqs) d = (let (rs, s') = serve_run mock_store_if svc reqs d1 in (rd # rs, s'))"
    using rd by (auto simp: q split: option.splits prod.splits)
  with Cons.prems unfold obtain rs1 rds1 where rest: "serve_run ?S svc reqs s1 = (rs1, s')" "rs = r # rs1"
      "serve_run mock_store_if svc reqs d1 = (rds1, d')" "rds = rd # rds1"
    by (auto split: prod.splits)
  from Cons.IH [OF one(1) rest(1,3)] rest one(2) show ?case
    by (auto simp: nth_Cons' unfold Let_def split: prod.split nat.split) (simp add: take_Cons' unfold Let_def split: prod.splits)
qed simp

section \<open>Properties\<close>

text \<open>
  C23: the store stays well formed, whatever happens. Take the store that New makes, through any sequence of
  elections, of requests with any bodies, whether raft commits their log entries or not, of entries that
  other leaders committed and of snapshots that other nodes sent (none of which is the JSON null, which Go would read as a nil map and
  Persist never writes). Then the snapshot that Persist writes of it is not cancelled, and restoring it into any other
  store gives exactly its contents back.
\<close>

theorem service_keeps_store_restorable:
  assumes "\<forall>rc. Restored rc \<in> set evs \<longrightarrow> json_Decode rc \<noteq> Ok JNull"
    and "raft_run stats env svc evs New_store = s"
  shows "case fsmSnapshot_Persist None None (fsm_Snapshot (kvm s)) of
     (err, bytes, cancelled) \<Rightarrow> err = None \<and> \<not> cancelled \<and> fsm_Restore bytes other = (None, kvm s)"
proof -
  have "fsm_inv (kvm (raft_run stats env svc evs New_store))"
    by (rule raft_run_fsm_inv) (simp add: New_store_def fsm_inv_def)
  with assms(2) show ?thesis by (simp add: fsmSnapshot_Persist_def Let_def restore_persist)
qed

abbreviation env0 :: open_env where
  "env0 \<equiv> \<lparr>ResolveTCPAddr = None, NewTCPTransport = None, peerStore_Peers = Ok [],
     NewFileSnapshotStore = None, NewBoltStore_err = None, NewRaft = None\<rparr>"

text \<open>A node that is elected, restores a sent snapshot of one pair, and takes a write.\<close>

theorem service_keeps_store_restorable_witness:
  "kvm (raft_run (\<lambda>_. []) env0 svc1 [Restored (marshal_map [(''a'', ''<b>'')]), Elected Leader ''r:1'',
       Requested None (\<lambda>a. Ok [a]) (''POST'', ''/key'', write_body ''k'' ''v'')] New_store) = [(''a'', ''<b>''), (''k'', ''v'')]
    \<and> fsm_Restore (fst (snd (fsmSnapshot_Persist None None (fsm_Snapshot [(''a'', ''<b>''), (''k'', ''v'')])))) [(''x'', ''y'')]
      = (None, [(''a'', ''<b>''), (''k'', ''v'')])"
proof -
  let ?m = "[(''a'', ''<b>'')]" and ?m2 = "[(''a'', ''<b>''), (''k'', ''v'')]"
  let ?evs = "[Restored (marshal_map ?m), Elected Leader ''r:1'',
       Requested None (\<lambda>a. Ok [a]) (''POST'', ''/key'', write_body ''k'' ''v'')]"
  have inv: "fsm_inv ?m" by (simp add: fsm_inv_def gomap_wf_def utf8_map_def)
  have "json_Decode (marshal_map ?m) \<noteq> Ok JNull"
    using inv by (simp add: marshal_map_def json_simps json_of_map_def fsm_inv_def)
  moreover have "fsm_Restore (marshal_map ?m) [] = (None, ?m)"
    using restore_persist [OF inv, of "[]"] inv by (simp add: fsm_Snapshot_id fsm_inv_def)
  moreover have "route_of ''POST'' ''/key'' = SetKey" by (simp add: route_of_def registered_def HasPrefix_def)
  ultimately have run: "kvm (raft_run (\<lambda>_. []) env0 svc1 ?evs New_store) = ?m2" and null: "\<forall>rc. Restored rc \<in> set ?evs \<longrightarrow> json_Decode rc \<noteq> Ok JNull"
    by (simp_all add: raft_run_def serve_def handleSet_eq set_params_kv store_Add_eq applyAdd_def New_store_def)
  from service_keeps_store_restorable [OF null refl, where stats = "\<lambda>_. []" and env = env0 and svc = svc1 and other = "[(''x'', ''y'')]"] run show ?thesis
    by (auto split: prod.splits)
qed

text \<open>
  C22: how far the double stands in for the store. Take a raft store that leads and whose log entries and new peers are all
  committed, and the double with its data and leader. Whatever sequence of requests the service gets, both end
  with the same data, and every answer on the double is exactly that on the raft store, but for two: a
  write to a key that has a value by then, which the raft store reports as done, is an internal error on the double, and its
  statistics are empty.
\<close>

theorem double_answers_like_store:
  assumes "doubles d s" and "\<forall>a. \<exists>ps. ap a = Ok ps"
    and "serve_run (raft_store stats env None ap) svc reqs s = (rs, s')"
    and "serve_run mock_store_if svc reqs d = (rds, d')"
  shows "mock_data d' = kvm s' \<and> length rds = length rs \<and> (\<forall>i<length reqs. rds ! i =
    double_answer svc (snd (serve_run (raft_store stats env None ap) svc (take i reqs) s)) (reqs ! i) (rs ! i))"
  using doubles_run [OF assms] by (simp add: doubles_def)

text \<open>A write, the same write again, and a request for the statistics.\<close>

theorem double_answers_like_store_witness:
  "\<exists>rs s' rds d'. serve_run raft1 svc1 [(''POST'', ''/key'', write_body ''k'' ''v''), (''POST'', ''/key'', write_body ''k'' ''w''), (''GET'', ''/stats'', [])] (leading []) = (rs, s')
    \<and> serve_run mock_store_if svc1 [(''POST'', ''/key'', write_body ''k'' ''v''), (''POST'', ''/key'', write_body ''k'' ''w''), (''GET'', ''/stats'', [])]
        (mockStore_SetLeader NewMockStore ''r:1'') = (rds, d')
    \<and> mock_data d' = kvm s' \<and> rds ! 0 = rs ! 0 \<and> rds ! 1 = Some (answer 200 (json_of_Status StatusInternalError))"
proof -
  let ?q = "(''POST'', ''/key'', write_body ''k'' ''v'')"
  let ?reqs = "[?q, (''POST'', ''/key'', write_body ''k'' ''w''), (''GET'', ''/stats'', [])]"
  let ?d = "mockStore_SetLeader NewMockStore ''r:1''"
  obtain rs s' rds d' where r: "serve_run raft1 svc1 ?reqs (leading []) = (rs, s')"
    "serve_run mock_store_if svc1 ?reqs ?d = (rds, d')" by (metis surj_pair)
  have d: "doubles ?d (leading [])" by (simp add: doubles_def mockStore_SetLeader_def NewMockStore_def)
  have route: "route_of ''POST'' ''/key'' = SetKey" by (simp add: route_of_def registered_def HasPrefix_def)
  have "kvm (snd (serve_run raft1 svc1 [?q] (leading []))) = [(''k'', ''v'')]"
    by (simp add: serve_def route handleSet_eq set_params_kv store_Add_eq applyAdd_def)
  moreover have "raft_Leader (snd (serve_run raft1 svc1 [?q] (leading []))) = ''r:1''"
    by (simp add: serve_def route handleSet_eq set_params_kv store_Add_eq applyAdd_def)
  moreover from double_answers_like_store [OF d _ r]
  have all: "mock_data d' = kvm s'" "\<forall>i<length ?reqs. rds ! i = double_answer svc1 (snd (serve_run raft1 svc1 (take i ?reqs) (leading []))) (?reqs ! i) (rs ! i)"
    by blast+
  ultimately have "rds ! 1 = Some (answer 200 (json_of_Status StatusInternalError))"
    using spec [OF all(2), of 1] by (simp add: double_answer_def duplicate_write_def route set_params_kv)
  moreover have "rds ! 0 = rs ! 0"
    using spec [OF all(2), of 0] by (simp add: double_answer_def duplicate_write_def route set_params_kv)
  ultimately show ?thesis using r all(1) by blast
qed

end
