(* ===== verification/Admin.thy ===== *)
theory Admin
  imports CacheMaster Gin
begin

text \<open>
  \<open>admin/admin.go\<close>: the two list handlers and the web-socket loops that push a list whenever it changed.
  Both masters share one meta store, so the handlers are functions of it. \<open>err_json\<close> is what
  \<open>encoding/json\<close> makes of the error value. A loop is its ticks, each with what the master
  returned and the outcome of writing the message; the loop over the databases ends at a failed
  write, the one over the caches ignores it.
\<close>

section \<open>Model\<close>

definition list_answer :: "(go_error \<Rightarrow> json) \<Rightarrow> string list result \<Rightarrow> gin_ctx \<Rightarrow> gin_ctx" where
  "list_answer err_json peers ctx = (case peers of
     Inl err \<Rightarrow> ctx_JSON StatusInternalServerError (JObj [(''error'', err_json err)]) ctx
   | Inr ps \<Rightarrow> ctx_JSON StatusOK_http (json_of_strings ps) ctx)"

definition handleCaches :: "(go_error \<Rightarrow> json) \<Rightarrow> 'm Meta \<Rightarrow> 'm \<Rightarrow> gin_ctx \<Rightarrow> gin_ctx" where
  "handleCaches err_json M m ctx = list_answer err_json (cm_Peers M m) ctx"

definition handleDBs :: "(go_error \<Rightarrow> json) \<Rightarrow> 'm Meta \<Rightarrow> 'm \<Rightarrow> gin_ctx \<Rightarrow> gin_ctx" where
  "handleDBs err_json M m ctx = list_answer err_json (Peers M m) ctx"

text \<open>The messages of a loop that holds the list \<open>peers\<close>.\<close>

fun ws_caches :: "string list \<Rightarrow> (string list result \<times> error) list \<Rightarrow> string list" where
  "ws_caches peers [] = []"
| "ws_caches peers ((Inl err, w) # ticks) = ws_caches peers ticks"
| "ws_caches peers ((Inr newPeers, w) # ticks) =
     (if newPeers = peers then ws_caches peers ticks
      else marshal_strings newPeers # ws_caches newPeers ticks)"

fun ws_dbs :: "string list \<Rightarrow> (string list result \<times> error) list \<Rightarrow> string list" where
  "ws_dbs peers [] = []"
| "ws_dbs peers ((Inl err, w) # ticks) = ws_dbs peers ticks"
| "ws_dbs peers ((Inr newPeers, w) # ticks) =
     (if newPeers = peers then ws_dbs peers ticks
      else marshal_strings newPeers # (if w \<noteq> None then [] else ws_dbs newPeers ticks))"

text \<open>The handlers: \<open>upgrade\<close> is the outcome of the upgrade to a web socket.\<close>

definition handleWebSocketCaches :: "error \<Rightarrow> (string list result \<times> error) list \<Rightarrow> string list" where
  "handleWebSocketCaches upgrade ticks = (if upgrade \<noteq> None then [] else ws_caches [] ticks)"

definition handleWebSocketDBs :: "error \<Rightarrow> (string list result \<times> error) list \<Rightarrow> string list" where
  "handleWebSocketDBs upgrade ticks = (if upgrade \<noteq> None then [] else ws_dbs [] ticks)"

section \<open>Lemmas\<close>

definition fetched_lists :: "(string list result \<times> error) list \<Rightarrow> string list list" where
  "fetched_lists ticks = concat (map (\<lambda>t. case fst t of Inl _ \<Rightarrow> [] | Inr ps \<Rightarrow> [ps]) ticks)"

lemma fetched_lists_simps [simp]:
  "fetched_lists [] = []" "fetched_lists ((Inl e, w) # ticks) = fetched_lists ticks"
  "fetched_lists ((Inr ps, w) # ticks) = ps # fetched_lists ticks"
  by (simp_all add: fetched_lists_def)

lemma remdups_adj_head: "remdups_adj (x # xs) = x # tl (remdups_adj (x # xs))"
  by (metis hd_remdups_adj list.collapse list.discI list.sel(1) remdups_adj_Nil_iff)

text \<open>The messages are the lists fetched, without repetitions, starting from the list held.\<close>

lemma ws_caches_changes: "ws_caches peers ticks = map marshal_strings (tl (remdups_adj (peers # fetched_lists ticks)))"
proof (induction peers ticks rule: ws_caches.induct)
  case (3 peers newPeers w ticks)
  obtain rest where "remdups_adj (newPeers # fetched_lists ticks) = newPeers # rest" by (rule that [OF remdups_adj_head])
  with 3 show ?case by (cases "newPeers = peers") simp_all
qed simp_all

lemma ws_dbs_caches: "\<forall>t\<in>set ticks. snd t = None \<Longrightarrow> ws_dbs peers ticks = ws_caches peers ticks"
  by (induction peers ticks rule: ws_dbs.induct) auto

text \<open>
  A browser is up to date: the last message stands for the last list that could be fetched, unless there was none or only empty ones.
\<close>

lemma remdups_adj_last: "last (remdups_adj (x # xs)) = last (x # xs)"
  by (metis last_rev hd_remdups_adj hd_rev remdups_adj_rev)

lemma WebSocketCaches_current:
  assumes "handleWebSocketCaches None ticks \<noteq> []"
  shows "last (handleWebSocketCaches None ticks) = marshal_strings (last (fetched_lists ticks))"
proof -
  let ?r = "remdups_adj ([] # fetched_lists ticks)"
  have ne: "tl ?r \<noteq> []" using assms by (simp add: handleWebSocketCaches_def ws_caches_changes del: remdups_adj.simps)
  then have "last (tl ?r) = last ([] # fetched_lists ticks)" by (metis last_tl remdups_adj_last)
  moreover have "fetched_lists ticks \<noteq> []" using ne by auto
  ultimately show ?thesis using ne by (simp add: handleWebSocketCaches_def ws_caches_changes last_map del: remdups_adj.simps)
qed

end
