(* ===== verification/Log.thy ===== *)
theory Log
  imports Config
begin

text \<open>
  \<open>log/log.go\<close>: the loggers. A logger is its level and its format; \<open>logrus.New()\<close> gives the level \<open>Info\<close> and
  the text format, and an entry is written when its level is not below that of its logger. Where the
  lines go is not modelled. The package's \<open>init\<close> configures logrus' standard logger for
  production, but the program logs with loggers of its own.
\<close>

section \<open>Model\<close>

datatype level = PanicLevel | FatalLevel | ErrorLevel | WarnLevel | InfoLevel | DebugLevel

fun severity :: "level \<Rightarrow> nat" where
  "severity PanicLevel = 0"
| "severity FatalLevel = 1"
| "severity ErrorLevel = 2"
| "severity WarnLevel = 3"
| "severity InfoLevel = 4"
| "severity DebugLevel = 5"

record logger =
  Level :: level
  JSONFormatter :: bool

definition logrus_New :: logger where
  "logrus_New = \<lparr>Level = InfoLevel, JSONFormatter = False\<rparr>"

definition written :: "logger \<Rightarrow> level \<Rightarrow> bool" where
  "written l lv \<longleftrightarrow> severity lv \<le> severity (Level l)"

record loggers =
  std :: logger
  Internal :: logger
  DB :: logger
  Biz :: logger
  ThirdPartyServiceLogger :: logger

definition log_init :: "string \<Rightarrow> loggers" where
  "log_init env = \<lparr>
     std = (if IsProduction env then \<lparr>Level = WarnLevel, JSONFormatter = True\<rparr> else \<lparr>Level = DebugLevel, JSONFormatter = False\<rparr>),
     Internal = logrus_New, DB = logrus_New, Biz = logrus_New\<lparr>Level := DebugLevel\<rparr>, ThirdPartyServiceLogger = logrus_New\<rparr>"

text \<open>The helpers: the logger each of them uses, the level, and the names of the fields it adds.\<close>

definition InternalError_entry :: "loggers \<Rightarrow> logger \<times> level \<times> string list" where
  "InternalError_entry ls = (Internal ls, ErrorLevel, [''function_name''])"

definition DBError_entry :: "loggers \<Rightarrow> logger \<times> level \<times> string list" where
  "DBError_entry ls = (DB ls, ErrorLevel, [''sql'', ''error''])"

definition LibError_entry :: "loggers \<Rightarrow> logger \<times> level \<times> string list" where
  "LibError_entry ls = (DB ls, ErrorLevel, [''lib''])"

definition ThirdPartyServiceError_entry :: "loggers \<Rightarrow> logger \<times> level \<times> string list" where
  "ThirdPartyServiceError_entry ls = (DB ls, InfoLevel, [''third_party_service'', ''error'', ''params''])"

section \<open>Lemmas\<close>

text \<open>The environment changes nothing for the loggers the program uses: the choice of \<open>init\<close> is without effect.\<close>

lemma log_init_env: "log_init env = (log_init env')\<lparr>std := std (log_init env)\<rparr>"
  by (simp add: log_init_def)

lemma production_logs: "written (DB (log_init env)) lv \<longleftrightarrow> lv \<noteq> DebugLevel" "written (Biz (log_init env)) lv"
  by (cases lv; simp add: written_def log_init_def logrus_New_def)+

end
