(* ===== verification/Programs.thy ===== *)
theory Programs
  imports Cluster Admin Log
begin

text \<open>
  The processes: the \<open>Start\<close> methods of the cache master, the cache node, the database master and the admin server, the web-socket
  loops that push statistics, and the example programs under \<open>example/\<close>. A \<open>Start\<close> is what goroutines it
  launches and how it ends: by a fatal error or a panic, by returning, or not at all while its server runs.
  What the operating system and the libraries answer (listening, dialling, serving) is a parameter.
\<close>

section \<open>Start\<close>

datatype goroutine =
    GoWatch string \<comment> \<open>watch the key and synchronise the databases\<close>
  | GoHeartbeat
  | GoServeRPC string
  | GoServePool string
  | GoDBMaster

datatype ending = Fatal go_error | Panic go_error | Returns | Serves

text \<open>\<open>gin\<close>'s \<open>Run\<close> returns only when serving fails.\<close>

definition run_server :: "error \<Rightarrow> ending" where
  "run_server err = (case err of None \<Rightarrow> Serves | Some _ \<Rightarrow> Returns)"

definition cm_Start :: "error \<Rightarrow> cache_master \<Rightarrow> goroutine list \<times> ending" where
  "cm_Start listen m = (case listen of
     Some e \<Rightarrow> ([GoWatch cacheNodesKey, GoHeartbeat], Fatal (Errorf (''listen error:'' @ err_text e)))
   | None \<Rightarrow> ([GoWatch cacheNodesKey, GoHeartbeat, GoServeRPC (cm_addr m)], Returns))"

text \<open>
  The watch that \<open>Start\<close> installs: what arrives on the channel of the key runs \<open>syncDBs\<close>; its error is
  not looked at. The store is taken as it is while the responses are handled.
\<close>

definition cm_watch :: "'m Meta \<Rightarrow> 'm \<Rightarrow> watch_response list \<Rightarrow> cache_master \<Rightarrow> cache_master result" where
  "cm_watch M m ch s = etcd_WatchModify (\<lambda>s. snd (syncDBs M s m)) ch s"

text \<open>
  A node whose \<open>rpc.DialHTTP\<close> failed has a nil client, and \<open>join\<close> dereferences it.
\<close>

definition node_Start :: "error \<Rightarrow> (JoinParam \<Rightarrow> PeerParam result) \<Rightarrow> error \<Rightarrow> Node \<Rightarrow> goroutine list \<times> ending \<times> Node" where
  "node_Start dial call run_err node =
     (if dial \<noteq> None then ([], Panic (GoPanic ''nil pointer dereference''), node)
      else case node_join call node of
        (Some err, node') \<Rightarrow> ([], Fatal (Errorf (''cache/node: fail join to master, err: '' @ err_text err)), node')
      | (None, node') \<Rightarrow> ([GoServePool (node_nodeAddr node')], run_server run_err, node'))"

text \<open>The ticks of the database master, each with its network, while nobody else writes the list.\<close>

fun db_master_Start :: "'m Meta \<Rightarrow> HTTPGetter list \<Rightarrow> 'm \<Rightarrow> 'm" where
  "db_master_Start M [] m = m"
| "db_master_Start M (getter # ticks) m = db_master_Start M ticks (heartbeat M getter m m m)"

record Admin =
  admin_addr :: string
  admin_CacheMaster :: cache_master

text \<open>\<open>init\<close>: the default server; both masters are shared with their own packages.\<close>

definition admin_init :: "string \<Rightarrow> cache_master \<Rightarrow> Admin" where
  "admin_init defaultAddr cache_Default = \<lparr>admin_addr = defaultAddr, admin_CacheMaster = cache_Default\<rparr>"

definition admin_Start :: "error \<Rightarrow> goroutine list \<times> ending" where
  "admin_Start run_err = ([GoDBMaster], run_server run_err)"

datatype admin_route = AdminCaches | AdminDBs | AdminWsCaches | AdminWsDBs | AdminRedirect nat | AdminNoRoute

definition admin_registered :: "string \<Rightarrow> string \<Rightarrow> admin_route" where
  "admin_registered httpMethod path =
     (if httpMethod \<noteq> ''GET'' then AdminNoRoute
      else if path = ''/caches'' then AdminCaches
      else if path = ''/dbs'' then AdminDBs
      else if path = ''/ws/caches'' then AdminWsCaches
      else if path = ''/ws/dbs'' then AdminWsDBs
      else AdminNoRoute)"

definition admin_route_of :: "string \<Rightarrow> string \<Rightarrow> admin_route" where
  "admin_route_of httpMethod path = (case admin_registered httpMethod path of
     AdminNoRoute \<Rightarrow> (case strip_slash path of
         None \<Rightarrow> AdminNoRoute
       | Some p \<Rightarrow> if admin_registered httpMethod p \<noteq> AdminNoRoute then AdminRedirect (redirect_status httpMethod) else AdminNoRoute)
   | r \<Rightarrow> r)"

section \<open>Statistics\<close>

text \<open>
  The loop of \<open>/ws/stats\<close> of a database and of a cache node: a tick is the outcome of \<open>json.Marshal\<close> and that of
  writing the message. The messages written, and whether the loop has ended.
\<close>

fun ws_stats :: "(string result \<times> error) list \<Rightarrow> string list \<times> bool" where
  "ws_stats [] = ([], False)"
| "ws_stats ((Inl err, w) # ticks) = ws_stats ticks"
| "ws_stats ((Inr b, w) # ticks) =
     (if w \<noteq> None then ([], True) else let (msgs, ended) = ws_stats ticks in (b # msgs, ended))"

definition handleStatsWebSocket :: "(go_error \<Rightarrow> json) \<Rightarrow> error \<Rightarrow> (string result \<times> error) list \<Rightarrow> gin_ctx \<Rightarrow> gin_ctx \<times> string list" where
  "handleStatsWebSocket err_json upgrade ticks ctx = (case upgrade of
     Some err \<Rightarrow> (ctx_JSON StatusInternalServerError (JObj [(''error'', err_json err)]) ctx, [])
   | None \<Rightarrow> (ctx, fst (ws_stats ticks)))"

section \<open>The example programs\<close>

text \<open>What a program does in the end: \<open>None\<close> while it runs, else its exit status.\<close>

definition exit_status :: "ending \<Rightarrow> nat option" where
  "exit_status e = (case e of Serves \<Rightarrow> None | Returns \<Rightarrow> Some 0 | Fatal _ \<Rightarrow> Some 1 | Panic _ \<Rightarrow> Some 2)"

text \<open>\<open>c.Args().Get(i)\<close> is empty for a missing argument.\<close>

definition Args_Get :: "string list \<Rightarrow> nat \<Rightarrow> string" where
  "Args_Get args i = (if i < length args then args ! i else [])"

definition cache_master_main :: "error \<Rightarrow> cache_master \<Rightarrow> nat option" where
  "cache_master_main listen m = exit_status (snd (cm_Start listen m))"

definition cache_node_main :: "error \<Rightarrow> (JoinParam \<Rightarrow> PeerParam result) \<Rightarrow> error \<Rightarrow> string list \<Rightarrow> nat option" where
  "cache_node_main dial call run_err args =
     (case node_Start dial call run_err (node_New (Args_Get args 0) (Args_Get args 1) (Args_Get args 2)) of
        (_, e, _) \<Rightarrow> exit_status e)"

definition db_node_main :: "(store \<Rightarrow> string gomap) \<Rightarrow> 'm Meta \<Rightarrow> HTTPPoster \<Rightarrow> open_env \<Rightarrow> error \<Rightarrow> (string \<Rightarrow> string list result) \<Rightarrow> error \<Rightarrow> string list \<Rightarrow> 'm \<Rightarrow> nat option" where
  "db_node_main stats M post env fut ap run_err args m =
     (let svc = \<lparr>raftAddr = Args_Get args 1, httpAddr = Args_Get args 0\<rparr>;
          s = New_store\<lparr>RaftBind := Args_Get args 1, RaftDir := Args_Get args 2\<rparr>
      in case Start (raft_store stats env fut ap) M post svc s m of
        Inl err \<Rightarrow> exit_status (Fatal err)
      | Inr _ \<Rightarrow> (case run_err of None \<Rightarrow> exit_status Serves | Some err \<Rightarrow> exit_status (Fatal err)))"

text \<open>The program of the database master: its endless loop, so far.\<close>

definition db_master_main :: "'m Meta \<Rightarrow> HTTPGetter list \<Rightarrow> 'm \<Rightarrow> 'm \<times> nat option" where
  "db_master_main M ticks m = (db_master_Start M ticks m, exit_status Serves)"

definition admin_main :: "error \<Rightarrow> nat option" where
  "admin_main run_err = exit_status (snd (admin_Start run_err))"

section \<open>Lemmas\<close>

lemma ws_stats_prefix: "fst (ws_stats ticks) = [b. (Inr b, _) \<leftarrow> takeWhile (\<lambda>t. isl (fst t) \<or> snd t = None) ticks]"
  by (induction ticks rule: ws_stats.induct) (auto split: prod.split)

text \<open>Heartbeats without anybody else at work: what remains is what answered every ping.\<close>

lemma db_master_Start_has:
  assumes "meta_store M up kv" and "meta_store.has_peers up kv m ps"
  shows "meta_store.has_peers up kv (db_master_Start M getters m) (filter (\<lambda>p. \<forall>g\<in>set getters. \<not> shouldRemove g p) ps)"
  using assms(2)
proof (induction getters arbitrary: m ps)
  case (Cons g gs)
  let ?ps = "filter (\<lambda>p. \<not> shouldRemove g p) ps"
  have "?ps = ps" if "\<not> (\<exists>p\<in>set ps. shouldRemove g p)" using that by (auto simp: filter_id_conv)
  moreover have "filter (\<lambda>p. \<not> (p \<in> set ps \<and> shouldRemove g p)) ps = ?ps" by (rule filter_cong) auto
  ultimately have "meta_store.has_peers up kv (heartbeat M g m m m) ?ps"
    using meta_store.heartbeat_has [OF assms(1) Cons.prems Cons.prems Cons.prems, of g] by (auto split: if_splits)
  from Cons.IH [OF this] show ?case by (simp add: conj_commute)
qed simp

text \<open>The program of the cache master ends as soon as it listens: \<open>Start\<close> returns, and \<open>main\<close> with it.\<close>

lemma cache_master_main_ends: "cache_master_main listen m = Some (if listen = None then 0 else 1)"
  by (simp add: cache_master_main_def cm_Start_def exit_status_def split: option.split)

end
