(* ===== verification/Flight.thy ===== *)
theory Flight
  imports Groupcache Machine
begin

text \<open>
  Concurrent calls of \<open>Group.Get\<close> on one cache node (\<open>groupcache.go\<close> and \<open>singleflight/singleflight.go\<close> of the vendored groupcache), as a machine
  with one thread per call. A step is one critical section of one thread: an access to one of the two caches under its mutex, an access to
  the map of the calls in flight under its mutex, or the end of a request. Counters of the statistics, which the code
  increments atomically, are updated with the neighbouring step; \<open>ServerRequests\<close> belongs to the HTTP handler and stays as it is.

  Which peer the pool picks, what a peer or the databases answer, and whether a foreign value is kept, is part of the event: peers
  may come and go while calls are in flight. A value can be answered for a key only if \<open>ok key value\<close>. A request ends,
  with a value or an error; the cases in which one waits for another node for ever are the matter of \<open>CacheTier\<close>.
\<close>

section \<open>Model\<close>

text \<open>Where a thread is. \<open>Wait c\<close> waits for the call that thread \<open>c\<close> has started.\<close>

datatype pc =
    Begin | LookHot | Enter | Wait nat
  | Look2 | LookHot2 | Pick | AskPeer | AskLocal
  | AddTo CacheType string | ReadMain CacheType string | ReadHot CacheType string int | Victim CacheType string int int
  | Finish "string result" | Leave "string result" | Returned "string result"

datatype choice = Go | NoPeer | Peer | Answer string bool | Fail go_error

text \<open>What the threads share: the group, the map \<open>m\<close> of the calls in flight, the results of the calls, the statistics.\<close>

record shared =
  sh_group :: group
  sh_m :: "string \<rightharpoonup> nat"
  sh_calls :: "nat \<rightharpoonup> string result"
  sh_stats :: Stats

definition hit :: "shared \<Rightarrow> shared" where
  "hit s = s\<lparr>sh_stats := (sh_stats s)\<lparr>CacheHits := Suc (CacheHits (sh_stats s))\<rparr>\<rparr>"

definition count_load :: "shared \<Rightarrow> shared" where
  "count_load s = s\<lparr>sh_stats := (sh_stats s)\<lparr>Loads := Suc (Loads (sh_stats s))\<rparr>\<rparr>"

definition count_deduped :: "shared \<Rightarrow> shared" where
  "count_deduped s = s\<lparr>sh_stats := (sh_stats s)\<lparr>LoadsDeduped := Suc (LoadsDeduped (sh_stats s))\<rparr>\<rparr>"

text \<open>Looking into one of the caches: with a hit, with a miss.\<close>

definition look :: "CacheType \<Rightarrow> string \<Rightarrow> shared \<Rightarrow> string option \<times> shared" where
  "look which key s = (let g = sh_group s in case which of
     MainCache \<Rightarrow> (let (v, c) = cache_get key (mainCache g) in (v, s\<lparr>sh_group := g\<lparr>mainCache := c\<rparr>\<rparr>))
   | HotCache \<Rightarrow> (let (v, c) = cache_get key (hotCache g) in (v, s\<lparr>sh_group := g\<lparr>hotCache := c\<rparr>\<rparr>)))"

definition add_to :: "CacheType \<Rightarrow> string \<Rightarrow> string \<Rightarrow> group \<Rightarrow> group" where
  "add_to which key v g = (case which of
     MainCache \<Rightarrow> g\<lparr>mainCache := cache_add key v (mainCache g)\<rparr>
   | HotCache \<Rightarrow> g\<lparr>hotCache := cache_add key v (hotCache g)\<rparr>)"

text \<open>The victim by the byte counts that were read, which may be outdated.\<close>

definition evict :: "int \<Rightarrow> int \<Rightarrow> group \<Rightarrow> group" where
  "evict mainBytes hotBytes g =
     (if hotBytes > mainBytes sdiv 8 then g\<lparr>hotCache := cache_removeOldest (hotCache g)\<rparr>
      else g\<lparr>mainCache := cache_removeOldest (mainCache g)\<rparr>)"

text \<open>After \<open>populateCache\<close>: a load from a peer is counted now, a local one has been counted before.\<close>

definition populated :: "CacheType \<Rightarrow> string \<Rightarrow> shared \<Rightarrow> pc \<times> shared" where
  "populated which v s = (Finish (Ok v),
     case which of
       MainCache \<Rightarrow> s
     | HotCache \<Rightarrow> s\<lparr>sh_stats := (sh_stats s)\<lparr>PeerLoads := Suc (PeerLoads (sh_stats s))\<rparr>\<rparr>)"

definition populate :: "CacheType \<Rightarrow> string \<Rightarrow> shared \<Rightarrow> pc \<times> shared" where
  "populate which v s = (if cacheBytes (sh_group s) \<le> 0 then populated which v s else (AddTo which v, s))"

fun thread_step :: "(string \<Rightarrow> string \<Rightarrow> bool) \<Rightarrow> string \<Rightarrow> nat \<Rightarrow> pc \<Rightarrow> choice \<Rightarrow> shared \<Rightarrow> (pc \<times> shared) option" where
  "thread_step ok key i Begin ch s = (if ch \<noteq> Go then None else
     let s0 = s\<lparr>sh_stats := (sh_stats s)\<lparr>Gets := Suc (Gets (sh_stats s))\<rparr>\<rparr> in
     if cacheBytes (sh_group s) \<le> 0 then Some (Enter, count_load s0)
     else case look MainCache key s0 of
       (Some v, s1) \<Rightarrow> Some (Returned (Ok v), hit s1) | (None, s1) \<Rightarrow> Some (LookHot, s1))"
| "thread_step ok key i LookHot ch s = (if ch \<noteq> Go then None else case look HotCache key s of
     (Some v, s1) \<Rightarrow> Some (Returned (Ok v), hit s1) | (None, s1) \<Rightarrow> Some (Enter, count_load s1))"
| "thread_step ok key i Enter ch s = (if ch \<noteq> Go then None else case sh_m s key of
     Some c \<Rightarrow> Some (Wait c, s) | None \<Rightarrow> Some (Look2, s\<lparr>sh_m := (sh_m s)(key \<mapsto> i)\<rparr>))"
| "thread_step ok key i (Wait c) ch s = (if ch \<noteq> Go then None else case sh_calls s c of
     None \<Rightarrow> None | Some r \<Rightarrow> Some (Returned r, s))"
| "thread_step ok key i Look2 ch s = (if ch \<noteq> Go then None
     else if cacheBytes (sh_group s) \<le> 0 then Some (Pick, count_deduped s)
     else case look MainCache key s of
       (Some v, s1) \<Rightarrow> Some (Finish (Ok v), hit s1) | (None, s1) \<Rightarrow> Some (LookHot2, s1))"
| "thread_step ok key i LookHot2 ch s = (if ch \<noteq> Go then None else case look HotCache key s of
     (Some v, s1) \<Rightarrow> Some (Finish (Ok v), hit s1) | (None, s1) \<Rightarrow> Some (Pick, count_deduped s1))"
| "thread_step ok key i Pick ch s = (if ch = NoPeer then Some (AskLocal, s) else if ch = Peer then Some (AskPeer, s) else None)"
| "thread_step ok key i AskPeer ch s = (case ch of
     Answer v hot \<Rightarrow> if \<not> ok key v then None else Some (if hot then populate HotCache v s else populated HotCache v s)
   | Fail e \<Rightarrow> Some (AskLocal, s\<lparr>sh_stats := (sh_stats s)\<lparr>PeerErrors := Suc (PeerErrors (sh_stats s))\<rparr>\<rparr>)
   | _ \<Rightarrow> None)"
| "thread_step ok key i AskLocal ch s = (case ch of
     Answer v hot \<Rightarrow> if \<not> ok key v then None
       else Some (populate MainCache v (s\<lparr>sh_stats := (sh_stats s)\<lparr>LocalLoads := Suc (LocalLoads (sh_stats s))\<rparr>\<rparr>))
   | Fail e \<Rightarrow> Some (Finish (Err e), s\<lparr>sh_stats := (sh_stats s)\<lparr>LocalLoadErrs := Suc (LocalLoadErrs (sh_stats s))\<rparr>\<rparr>)
   | _ \<Rightarrow> None)"
| "thread_step ok key i (AddTo which v) ch s = (if ch \<noteq> Go then None
     else Some (ReadMain which v, s\<lparr>sh_group := add_to which key v (sh_group s)\<rparr>))"
| "thread_step ok key i (ReadMain which v) ch s = (if ch \<noteq> Go then None
     else Some (ReadHot which v (nbytes (mainCache (sh_group s))), s))"
| "thread_step ok key i (ReadHot which v mainBytes) ch s = (if ch \<noteq> Go then None
     else let hotBytes = nbytes (hotCache (sh_group s)) in
       Some (if mainBytes + hotBytes \<le> cacheBytes (sh_group s) then populated which v s
         else (Victim which v mainBytes hotBytes, s)))"
| "thread_step ok key i (Victim which v mainBytes hotBytes) ch s = (if ch \<noteq> Go then None
     else Some (ReadMain which v, s\<lparr>sh_group := evict mainBytes hotBytes (sh_group s)\<rparr>))"
| "thread_step ok key i (Finish r) ch s = (if ch \<noteq> Go then None
     else Some (Leave r, s\<lparr>sh_calls := (sh_calls s)(i \<mapsto> r)\<rparr>))"
| "thread_step ok key i (Leave r) ch s = (if ch \<noteq> Go then None
     else Some (Returned r, s\<lparr>sh_m := (sh_m s)(key := None)\<rparr>))"
| "thread_step ok key i (Returned r) ch s = None"

text \<open>All threads: thread \<open>i\<close> gets the key \<open>keys ! i\<close>.\<close>

type_synonym flight = "pc list \<times> shared"

fun flight_step :: "(string \<Rightarrow> string \<Rightarrow> bool) \<Rightarrow> string list \<Rightarrow> nat \<times> choice \<Rightarrow> flight \<Rightarrow> flight option" where
  "flight_step ok keys (i, ch) (ps, s) =
     (if i < length ps
      then map_option (\<lambda>(p, s'). (ps[i := p], s')) (thread_step ok (keys ! i) i (ps ! i) ch s)
      else None)"

definition no_stats :: Stats where
  "no_stats = \<lparr>Gets = 0, CacheHits = 0, PeerLoads = 0, PeerErrors = 0, Loads = 0, LoadsDeduped = 0, LocalLoads = 0, LocalLoadErrs = 0, ServerRequests = 0\<rparr>"

definition flight_init :: "group \<Rightarrow> string list \<Rightarrow> flight" where
  "flight_init g keys = (replicate (length keys) Begin,
     \<lparr>sh_group = g, sh_m = Map.empty, sh_calls = Map.empty, sh_stats = no_stats\<rparr>)"

section \<open>What a step does\<close>

text \<open>A thread that leads runs the function of a call in flight.\<close>

fun leads :: "pc \<Rightarrow> bool" where
  "leads Begin = False" | "leads LookHot = False" | "leads Enter = False" | "leads (Wait c) = False"
| "leads (Returned r) = False" | "leads p = True"

lemmas thread_splits = if_splits option.splits prod.splits choice.splits CacheType.splits

lemma look_shared:
  assumes "look which key s = (r, s')"
  shows "sh_m s' = sh_m s \<and> sh_calls s' = sh_calls s \<and> sh_stats s' = sh_stats s"
  using assms by (auto simp: look_def Let_def split: CacheType.splits prod.splits)

lemma populated_shared [simp]:
  "fst (populated which v s) = Finish (Ok v)" "sh_m (snd (populated which v s)) = sh_m s"
  "sh_calls (snd (populated which v s)) = sh_calls s" "sh_group (snd (populated which v s)) = sh_group s"
  by (simp_all add: populated_def split: CacheType.split)

lemma populate_shared [simp]:
  "fst (populate which v s) = (if cacheBytes (sh_group s) \<le> 0 then Finish (Ok v) else AddTo which v)"
  "sh_m (snd (populate which v s)) = sh_m s"
  "sh_calls (snd (populate which v s)) = sh_calls s" "sh_group (snd (populate which v s)) = sh_group s"
  by (simp_all add: populate_def)

lemma populated_eq: "populated which v s = (p', s') \<longleftrightarrow> p' = Finish (Ok v) \<and> s' = snd (populated which v s)"
  by (auto simp: populated_def)

lemma populate_eq: "populate which v s = (p', s') \<longleftrightarrow>
    p' = (if cacheBytes (sh_group s) \<le> 0 then Finish (Ok v) else AddTo which v) \<and> s' = snd (populate which v s)"
  by (auto simp: populate_def populated_def)

lemmas thread_simps = look_shared hit_def count_load_def count_deduped_def Let_def

text \<open>The map of the calls in flight.\<close>

lemma step_m:
  assumes "thread_step ok key i p ch s = Some (p', s')"
  obtains (Start) "p = Enter" "sh_m s key = None" "p' = Look2" "sh_m s' = (sh_m s)(key \<mapsto> i)"
  | (Stop) r where "p = Leave r" "p' = Returned r" "sh_m s' = (sh_m s)(key := None)"
  | (Same) "leads p' = leads p" "sh_m s' = sh_m s"
  using assms
  by (cases p) (auto simp: thread_simps populated_eq populate_eq dest!: look_shared split: thread_splits)

lemma step_calls:
  assumes "thread_step ok key i p ch s = Some (p', s')"
  obtains (Done) r where "p = Finish r" "p' = Leave r" "sh_calls s' = (sh_calls s)(i \<mapsto> r)"
  | (Same) "\<And>r. p \<noteq> Finish r" "sh_calls s' = sh_calls s"
  using assms
  by (cases p) (auto simp: thread_simps populated_eq populate_eq dest!: look_shared split: thread_splits)

text \<open>The caches: a lookup changes the order of use only.\<close>

definition caches_ok :: "group \<Rightarrow> bool" where
  "caches_ok g \<longleftrightarrow> gcache_ok (mainCache g) \<and> gcache_ok (hotCache g)"

definition entries :: "group \<Rightarrow> nat" where
  "entries g = length (lru (mainCache g)) + length (lru (hotCache g))"

definition same_caches :: "group \<Rightarrow> group \<Rightarrow> bool" where
  "same_caches g g' \<longleftrightarrow> caches_ok g' \<and> set (lru (mainCache g')) = set (lru (mainCache g)) \<and> set (lru (hotCache g')) = set (lru (hotCache g))
     \<and> nbytes (mainCache g') = nbytes (mainCache g) \<and> nbytes (hotCache g') = nbytes (hotCache g)
     \<and> cacheBytes g' = cacheBytes g \<and> entries g' = entries g"

lemma same_caches_refl: "caches_ok g \<Longrightarrow> same_caches g g"
  by (simp add: same_caches_def)

lemma gcache_ok_length: "gcache_ok c \<Longrightarrow> length (lru c) = card (set (lru c))"
  by (simp add: gcache_ok_def distinct_map distinct_card)

lemma look_facts:
  assumes "caches_ok (sh_group s)" and "look which key s = (r, s')"
  shows "same_caches (sh_group s) (sh_group s')"
    and "r = None \<Longrightarrow> key \<notin> fst ` set (lru (case which of MainCache \<Rightarrow> mainCache (sh_group s) | HotCache \<Rightarrow> hotCache (sh_group s)))"
    and "r = Some v \<Longrightarrow> (key, v) \<in> cached (sh_group s)"
proof -
  let ?c = "case which of MainCache \<Rightarrow> mainCache (sh_group s) | HotCache \<Rightarrow> hotCache (sh_group s)"
  obtain c where c: "cache_get key ?c = (r, c)"
    and s': "sh_group s' = (case which of MainCache \<Rightarrow> (sh_group s)\<lparr>mainCache := c\<rparr> | HotCache \<Rightarrow> (sh_group s)\<lparr>hotCache := c\<rparr>)"
    using assms(2) by (auto simp: look_def Let_def split: CacheType.splits prod.splits)
  have ok: "gcache_ok ?c" using assms(1) by (simp add: caches_ok_def split: CacheType.split)
  note f = cache_get_facts [OF ok c]
  have "length (lru c) = length (lru ?c)" using f ok by (simp add: gcache_ok_length)
  then show "same_caches (sh_group s) (sh_group s')"
    using f assms(1) s' by (auto simp: same_caches_def caches_ok_def entries_def split: CacheType.splits)
  show "r = None \<Longrightarrow> key \<notin> fst ` set (lru ?c)" by (rule f)
  show "r = Some v \<Longrightarrow> (key, v) \<in> cached (sh_group s)" using f(5) by (auto simp: cached_def split: CacheType.splits)
qed

lemma look_miss:
  assumes "look which key s = (None, s')" and "caches_ok (sh_group s)"
  shows "which = MainCache \<Longrightarrow> (key, b) \<notin> set (lru (mainCache (sh_group s)))"
    and "which = HotCache \<Longrightarrow> (key, b) \<notin> set (lru (hotCache (sh_group s)))"
  using look_facts(2) [OF assms(2,1)] by force+

lemma step_group:
  assumes "thread_step ok key i p ch s = Some (p', s')" and "caches_ok (sh_group s)"
  obtains (Add) which v where "p = AddTo which v" "p' = ReadMain which v" "sh_group s' = add_to which key v (sh_group s)"
  | (Evict) which v mb hb where "p = Victim which v mb hb" "p' = ReadMain which v" "sh_group s' = evict mb hb (sh_group s)"
  | (Same) "\<And>which v. p \<noteq> AddTo which v" "\<And>which v mb hb. p \<noteq> Victim which v mb hb" "same_caches (sh_group s) (sh_group s')"
  using assms same_caches_refl [OF assms(2)]
  by (cases p) (auto simp: thread_simps populated_eq populate_eq dest!: look_facts(1) [rotated] split: thread_splits)

text \<open>The value a thread has got hold of.\<close>

fun pc_value :: "pc \<Rightarrow> string option" where
  "pc_value (AddTo which v) = Some v" | "pc_value (ReadMain which v) = Some v" | "pc_value (ReadHot which v mb) = Some v"
| "pc_value (Victim which v mb hb) = Some v"
| "pc_value (Finish r) = (case r of Inl _ \<Rightarrow> None | Inr v \<Rightarrow> Some v)"
| "pc_value (Leave r) = (case r of Inl _ \<Rightarrow> None | Inr v \<Rightarrow> Some v)"
| "pc_value (Returned r) = (case r of Inl _ \<Rightarrow> None | Inr v \<Rightarrow> Some v)"
| "pc_value p = None"

lemma step_value:
  assumes "thread_step ok key i p ch s = Some (p', s')" and "caches_ok (sh_group s)" and "pc_value p' = Some v"
  shows "pc_value p = Some v \<or> ok key v \<or> (key, v) \<in> cached (sh_group s) \<or> (\<exists>c. p = Wait c \<and> sh_calls s c = Some (Ok v))"
  using assms
  by (cases p) (auto simp: thread_simps populated_eq populate_eq dest: look_facts(3) [rotated] split: thread_splits sum.splits)

text \<open>What a thread has seen of the caches: while it loads, its key is in neither.\<close>

fun pc_ok :: "string \<Rightarrow> group \<Rightarrow> pc \<Rightarrow> bool" where
  "pc_ok key g LookHot2 \<longleftrightarrow> 0 < cacheBytes g \<and> key \<notin> fst ` set (lru (mainCache g))"
| "pc_ok key g Pick \<longleftrightarrow> (0 < cacheBytes g \<longrightarrow> key \<notin> fst ` cached g)"
| "pc_ok key g AskPeer \<longleftrightarrow> (0 < cacheBytes g \<longrightarrow> key \<notin> fst ` cached g)"
| "pc_ok key g AskLocal \<longleftrightarrow> (0 < cacheBytes g \<longrightarrow> key \<notin> fst ` cached g)"
| "pc_ok key g (AddTo which v) \<longleftrightarrow> 0 < cacheBytes g \<and> key \<notin> fst ` cached g"
| "pc_ok key g (ReadMain which v) \<longleftrightarrow> 0 < cacheBytes g"
| "pc_ok key g (ReadHot which v mb) \<longleftrightarrow> 0 < cacheBytes g"
| "pc_ok key g (Victim which v mb hb) \<longleftrightarrow> 0 < cacheBytes g \<and> cacheBytes g < mb + hb"
| "pc_ok key g p \<longleftrightarrow> True"

lemma same_caches_cached: "same_caches g g' \<Longrightarrow> cached g' = cached g"
  by (simp add: same_caches_def cached_def)

lemma pc_ok_cong:
  assumes "pc_ok key g p" and "cacheBytes g' = cacheBytes g"
    and "key \<in> fst ` set (lru (mainCache g')) \<longrightarrow> key \<in> fst ` set (lru (mainCache g))"
    and "key \<in> fst ` set (lru (hotCache g')) \<longrightarrow> key \<in> fst ` set (lru (hotCache g))"
  shows "pc_ok key g' p"
  using assms by (cases p) (auto simp: cached_def image_Un)

lemma pc_ok_same: "pc_ok key g p \<Longrightarrow> same_caches g g' \<Longrightarrow> pc_ok key g' p"
  by (rule pc_ok_cong) (auto simp: same_caches_def)

lemma step_pc_ok:
  assumes "thread_step ok key i p ch s = Some (p', s')" and "caches_ok (sh_group s)" and "pc_ok key (sh_group s) p"
  shows "pc_ok key (sh_group s) p' \<or> (\<exists>which v. p' = ReadMain which v \<and> 0 < cacheBytes (sh_group s))"
  using assms
  by (cases p) (auto simp: thread_simps populated_eq populate_eq cached_def image_Un
      dest: look_miss split: thread_splits)

lemma evict_facts:
  assumes "caches_ok g"
  shows "caches_ok (evict mb hb g)" and "set (lru (mainCache (evict mb hb g))) \<subseteq> set (lru (mainCache g))"
    and "set (lru (hotCache (evict mb hb g))) \<subseteq> set (lru (hotCache g))" and "cacheBytes (evict mb hb g) = cacheBytes g"
  using assms removeOldest_facts(1,2) by (auto simp: caches_ok_def evict_def)

lemma add_to_facts:
  assumes "caches_ok g" and "key \<notin> fst ` cached g"
  shows "caches_ok (add_to which key v g)" and "cached (add_to which key v g) = insert (key, v) (cached g)"
    and "cacheBytes (add_to which key v g) = cacheBytes g" and "entries (add_to which key v g) = Suc (entries g)"
proof -
  have k: "key \<notin> fst ` set (lru (mainCache g))" "key \<notin> fst ` set (lru (hotCache g))" using assms(2) by (auto simp: cached_def image_Un)
  note m = cache_add_ok [OF _ k(1)] and h = cache_add_ok [OF _ k(2)]
  show "caches_ok (add_to which key v g)" "cached (add_to which key v g) = insert (key, v) (cached g)"
    "cacheBytes (add_to which key v g) = cacheBytes g"
    using assms(1) m h by (auto simp: caches_ok_def add_to_def cached_def split: CacheType.split)
  show "entries (add_to which key v g) = Suc (entries g)"
    using k by (simp add: entries_def add_to_def cache_add_def lru_Add_def map_of_eq_None_iff split: CacheType.split)
qed

section \<open>The invariant\<close>

text \<open>The map of the calls in flight has exactly the threads that lead, one for each key.\<close>

definition m_inv :: "string list \<Rightarrow> flight \<Rightarrow> bool" where
  "m_inv keys st \<longleftrightarrow> (case st of (ps, s) \<Rightarrow>
     (\<forall>k c. sh_m s k = Some c \<longrightarrow> c < length ps \<and> keys ! c = k \<and> leads (ps ! c))
     \<and> (\<forall>c < length ps. leads (ps ! c) \<longrightarrow> sh_m s (keys ! c) = Some c))"

text \<open>A result is that of a call that is over, and a thread waits for a call of its key that is over or going on.\<close>

definition call_inv :: "string list \<Rightarrow> flight \<Rightarrow> bool" where
  "call_inv keys st \<longleftrightarrow> (case st of (ps, s) \<Rightarrow>
     (\<forall>c r. sh_calls s c = Some r \<longrightarrow> c < length ps \<and> ps ! c \<in> {Leave r, Returned r})
     \<and> (\<forall>c < length ps. \<forall>r. ps ! c = Leave r \<longrightarrow> sh_calls s c = Some r)
     \<and> (\<forall>i < length ps. \<forall>c. ps ! i = Wait c \<longrightarrow> c < length ps \<and> keys ! c = keys ! i \<and> (leads (ps ! c) \<or> sh_calls s c \<noteq> None)))"

definition held_inv :: "string list \<Rightarrow> flight \<Rightarrow> bool" where
  "held_inv keys st \<longleftrightarrow> (case st of (ps, s) \<Rightarrow>
     caches_ok (sh_group s) \<and> (\<forall>i < length ps. pc_ok (keys ! i) (sh_group s) (ps ! i)))"

definition value_inv :: "(string \<Rightarrow> string \<Rightarrow> bool) \<Rightarrow> string list \<Rightarrow> flight \<Rightarrow> bool" where
  "value_inv ok keys st \<longleftrightarrow> (case st of (ps, s) \<Rightarrow>
     (\<forall>(k, v) \<in> cached (sh_group s). ok k v) \<and> (\<forall>i < length ps. \<forall>v. pc_value (ps ! i) = Some v \<longrightarrow> ok (keys ! i) v))"

definition flight_inv :: "(string \<Rightarrow> string \<Rightarrow> bool) \<Rightarrow> string list \<Rightarrow> flight \<Rightarrow> bool" where
  "flight_inv ok keys st \<longleftrightarrow> m_inv keys st \<and> call_inv keys st \<and> held_inv keys st \<and> value_inv ok keys st"

lemma flight_step_cases:
  assumes "flight_step ok keys ev (ps, s) = Some st'"
  obtains i ch p' s' where "ev = (i, ch)" "i < length ps" "thread_step ok (keys ! i) i (ps ! i) ch s = Some (p', s')" "st' = (ps[i := p'], s')"
proof -
  obtain i ch where ev: "ev = (i, ch)" by fastforce
  with assms have "i < length ps" and "map_option (\<lambda>(p, s'). (ps[i := p], s')) (thread_step ok (keys ! i) i (ps ! i) ch s) = Some st'"
    by (simp_all split: if_splits)
  with ev that show ?thesis by (cases "thread_step ok (keys ! i) i (ps ! i) ch s") auto
qed

lemma nth_update_all:
  assumes "\<And>j. j < length ps \<Longrightarrow> j \<noteq> i \<Longrightarrow> Q j (ps ! j)" and "Q i p" and "j < length ps"
  shows "Q j (ps[i := p] ! j)"
  using assms by (cases "j = i") simp_all

lemma m_inv_step:
  assumes "i < length ps" and "thread_step ok (keys ! i) i (ps ! i) ch s = Some (p', s')" and "m_inv keys (ps, s)"
  shows "m_inv keys (ps[i := p'], s')"
proof -
  have m: "\<And>k c. sh_m s k = Some c \<Longrightarrow> c < length ps \<and> keys ! c = k \<and> leads (ps ! c)"
    and l: "\<And>c. c < length ps \<Longrightarrow> leads (ps ! c) \<Longrightarrow> sh_m s (keys ! c) = Some c" using assms(3) by (auto simp: m_inv_def)
  show ?thesis using assms(2)
  proof (cases rule: step_m)
    case Start
    have "leads (ps[i := p'] ! c)" if "sh_m s k = Some c" for k c using m [OF that] Start assms(1) by (cases "c = i") auto
    moreover have "sh_m s' (keys ! c) = Some c" if "c < length ps" "leads (ps[i := p'] ! c)" for c
    proof (cases "c = i")
      case False
      with l that have "sh_m s (keys ! c) = Some c" by simp
      with Start show ?thesis by auto
    qed (use Start in simp)
    ultimately show ?thesis using Start assms(1) m by (auto simp: m_inv_def)
  next
    case (Stop r)
    then have i: "sh_m s (keys ! i) = Some i" using assms(1) l by simp
    have "leads (ps[i := p'] ! c)" if "sh_m s k = Some c" "k \<noteq> keys ! i" for k c using m [OF that(1)] that(2) by (cases "c = i") auto
    moreover have "sh_m s' (keys ! c) = Some c" if "c < length ps" "leads (ps[i := p'] ! c)" for c
    proof -
      have "c \<noteq> i" using that Stop assms(1) by auto
      with that l have c: "sh_m s (keys ! c) = Some c" by simp
      with i \<open>c \<noteq> i\<close> have "keys ! c \<noteq> keys ! i" by auto
      with c Stop show ?thesis by simp
    qed
    ultimately show ?thesis using Stop m by (auto simp: m_inv_def)
  next
    case Same
    have "leads (ps[i := p'] ! c) = leads (ps ! c)" for c using Same assms(1) by (cases "c = i") auto
    with Same m l show ?thesis by (simp add: m_inv_def)
  qed
qed

lemma m_inv_leader: "m_inv keys (ps, s) \<Longrightarrow> i < length ps \<Longrightarrow> leads (ps ! i) \<Longrightarrow> sh_m s (keys ! i) = Some i"
  by (simp add: m_inv_def)

lemma m_inv_unique: "m_inv keys (ps, s) \<Longrightarrow> i < length ps \<Longrightarrow> j < length ps \<Longrightarrow> leads (ps ! i) \<Longrightarrow> leads (ps ! j) \<Longrightarrow>
    keys ! i = keys ! j \<Longrightarrow> i = j"
  by (metis m_inv_leader option.inject)

lemma step_wait:
  assumes "thread_step ok key i p ch s = Some (Wait c, s')"
  shows "sh_m s key = Some c"
  using assms by (cases p) (simp_all add: thread_simps populated_eq populate_eq split: thread_splits)

lemma step_returned:
  assumes "thread_step ok key i p ch s = Some (p', s')" and "leads p" and "\<not> leads p'"
  shows "\<exists>r. p = Leave r \<and> p' = Returned r"
  using assms(1) by (cases rule: step_m) (use assms(2,3) in auto)

lemma step_leave: "thread_step ok key i p ch s = Some (Leave r, s') \<Longrightarrow> p = Finish r"
  by (cases p) (auto simp: thread_simps populated_eq populate_eq split: thread_splits)

lemma call_inv_step:
  assumes "i < length ps" and "thread_step ok (keys ! i) i (ps ! i) ch s = Some (p', s')"
    and "m_inv keys (ps, s)" and "call_inv keys (ps, s)"
  shows "call_inv keys (ps[i := p'], s')"
proof -
  have calls: "\<forall>c r. sh_calls s c = Some r \<longrightarrow> c < length ps \<and> ps ! c \<in> {Leave r, Returned r}"
    and leave: "\<forall>c < length ps. \<forall>r. ps ! c = Leave r \<longrightarrow> sh_calls s c = Some r"
    and wait: "\<forall>i < length ps. \<forall>c. ps ! i = Wait c \<longrightarrow> c < length ps \<and> keys ! c = keys ! i \<and> (leads (ps ! c) \<or> sh_calls s c \<noteq> None)"
    using assms(4) unfolding call_inv_def prod.case by blast+
  have stays: "sh_calls s' c = Some r" if "sh_calls s c = Some r" for c r
    using assms(2)
  proof (cases rule: step_calls)
    case (Done r')
    have "c \<noteq> i" using calls [rule_format, OF that] Done by auto
    with Done that show ?thesis by simp
  qed (use that in simp)
  have "c < length ps \<and> ps[i := p'] ! c \<in> {Leave r, Returned r}" if "sh_calls s' c = Some r" for c r
    using assms(2)
  proof (cases rule: step_calls)
    case (Done r')
    then show ?thesis
    proof (cases "c = i")
      case False
      with Done that calls show ?thesis by simp
    qed (use Done that assms(1) in simp)
  next
    case Same
    with that calls have c: "c < length ps" "ps ! c \<in> {Leave r, Returned r}" by auto
    then show ?thesis
    proof (cases "c = i")
      case True
      with c assms(2) show ?thesis by (auto split: if_splits)
    qed simp
  qed
  moreover have "sh_calls s' c = Some r" if "c < length ps" "ps[i := p'] ! c = Leave r" for c r
  proof (cases "c = i")
    case True
    with that have p': "p' = Leave r" by simp
    then have "ps ! i = Finish r" using step_leave assms(2) by simp
    with assms(2) True show ?thesis by (auto split: if_splits)
  qed (use that leave stays in auto)
  moreover have "c < length ps \<and> keys ! c = keys ! j \<and> (leads (ps[i := p'] ! c) \<or> sh_calls s' c \<noteq> None)"
    if "j < length ps" "ps[i := p'] ! j = Wait c" for j c
  proof -
    have c: "c < length ps \<and> keys ! c = keys ! j \<and> (leads (ps ! c) \<or> sh_calls s c \<noteq> None)"
    proof (cases "j = i")
      case True
      with that have "p' = Wait c" by simp
      then have "sh_m s (keys ! i) = Some c" using step_wait assms(2) by simp
      with assms(3) True show ?thesis by (auto simp: m_inv_def)
    qed (use that wait in auto)
    moreover have "sh_calls s' c \<noteq> None" if "leads (ps ! c)" "\<not> leads (ps[i := p'] ! c)"
    proof -
      have "c = i" using that by (metis nth_list_update_neq)
      with that assms(1) have "leads (ps ! i)" "\<not> leads p'" by simp_all
      then obtain r where "ps ! i = Leave r" using step_returned [OF assms(2)] by blast
      with leave assms(1) \<open>c = i\<close> stays show ?thesis by auto
    qed
    ultimately show ?thesis using stays by blast
  qed
  ultimately show ?thesis unfolding call_inv_def prod.case length_list_update by blast
qed

lemma held_inv_step:
  assumes "i < length ps" and "thread_step ok (keys ! i) i (ps ! i) ch s = Some (p', s')"
    and "m_inv keys (ps, s)" and "held_inv keys (ps, s)"
  shows "held_inv keys (ps[i := p'], s')"
proof -
  let ?g = "sh_group s"
  have ok: "caches_ok ?g" and pcs: "\<And>j. j < length ps \<Longrightarrow> pc_ok (keys ! j) ?g (ps ! j)" using assms(4) by (auto simp: held_inv_def)
  have p': "pc_ok (keys ! i) ?g p' \<or> (\<exists>which v. p' = ReadMain which v \<and> 0 < cacheBytes ?g)" by (rule step_pc_ok [OF assms(2) ok pcs [OF assms(1)]])
  show ?thesis using assms(2) ok
  proof (cases rule: step_group)
    case (Add which v)
    have key: "keys ! i \<notin> fst ` cached ?g" "0 < cacheBytes ?g" using pcs [OF assms(1)] Add by auto
    note f = add_to_facts [OF ok key(1), of which v]
    have "pc_ok (keys ! j) (sh_group s') (ps ! j)" if "j < length ps" "j \<noteq> i" for j
    proof (cases "leads (ps ! j)")
      case True
      then have "keys ! j \<noteq> keys ! i" using m_inv_unique [OF assms(3) that(1) assms(1)] that(2) Add(1) by auto
      then have "keys ! j \<in> fst ` set (lru (mainCache (sh_group s'))) \<Longrightarrow> keys ! j \<in> fst ` set (lru (mainCache ?g))"
        "keys ! j \<in> fst ` set (lru (hotCache (sh_group s'))) \<Longrightarrow> keys ! j \<in> fst ` set (lru (hotCache ?g))"
        using Add(3) by (auto simp: add_to_def cache_add_def lru_Add_def split: CacheType.splits if_splits)
      with pc_ok_cong [OF pcs [OF that(1)]] f(3) Add(3) show ?thesis by simp
    next
      case False
      then show ?thesis by (cases "ps ! j") simp_all
    qed
    then have "pc_ok (keys ! j) (sh_group s') (ps[i := p'] ! j)" if "j < length ps" for j
      using nth_update_all [of ps i "\<lambda>j. pc_ok (keys ! j) (sh_group s')" p' j] that Add f key by simp
    with f(1) Add show ?thesis by (simp add: held_inv_def)
  next
    case (Evict which v mb hb)
    note f = evict_facts [OF ok, of mb hb]
    have "pc_ok (keys ! j) (sh_group s') (ps ! j)" if "j < length ps" for j
      by (rule pc_ok_cong [OF pcs [OF that]]) (use f Evict in auto)
    moreover have "pc_ok (keys ! i) (sh_group s') p'" using Evict pcs [OF assms(1)] f by simp
    ultimately have "pc_ok (keys ! j) (sh_group s') (ps[i := p'] ! j)" if "j < length ps" for j
      using nth_update_all [of ps i "\<lambda>j. pc_ok (keys ! j) (sh_group s')" p' j] that by simp
    with f(1) Evict show ?thesis by (simp add: held_inv_def)
  next
    case Same
    have "pc_ok (keys ! i) ?g p'" using p' by auto
    then have "pc_ok (keys ! j) (sh_group s') (ps[i := p'] ! j)" if "j < length ps" for j
      using nth_update_all [of ps i "\<lambda>j. pc_ok (keys ! j) (sh_group s')" p' j] that pc_ok_same [OF _ Same(3)] pcs by simp
    with Same(3) show ?thesis by (simp add: held_inv_def same_caches_def)
  qed
qed

lemma value_inv_step:
  assumes "i < length ps" and "thread_step ok (keys ! i) i (ps ! i) ch s = Some (p', s')"
    and "call_inv keys (ps, s)" and "held_inv keys (ps, s)" and "value_inv ok keys (ps, s)"
  shows "value_inv ok keys (ps[i := p'], s')"
proof -
  let ?g = "sh_group s"
  have ok: "caches_ok ?g" and i: "pc_ok (keys ! i) ?g (ps ! i)" using assms(1,4) by (auto simp: held_inv_def)
  have cached: "\<And>k v. (k, v) \<in> cached ?g \<Longrightarrow> ok k v" and vals: "\<And>j v. j < length ps \<Longrightarrow> pc_value (ps ! j) = Some v \<Longrightarrow> ok (keys ! j) v"
    using assms(5) by (auto simp: value_inv_def)
  have "ok (keys ! i) v" if "pc_value p' = Some v" for v
    using step_value [OF assms(2) ok that]
  proof (elim disjE exE conjE)
    fix c
    assume "ps ! i = Wait c" "sh_calls s c = Some (Ok v)"
    then have c: "c < length ps" "keys ! c = keys ! i" "ps ! c \<in> {Leave (Ok v), Returned (Ok v)}"
      using assms(1,3) unfolding call_inv_def prod.case by blast+
    then show ?thesis using vals [of c v] by auto
  qed (use cached vals assms(1) in blast)+
  then have v: "\<forall>v. pc_value (ps[i := p'] ! j) = Some v \<longrightarrow> ok (keys ! j) v" if "j < length ps" for j
    using nth_update_all [of ps i "\<lambda>j p. \<forall>v. pc_value p = Some v \<longrightarrow> ok (keys ! j) v" p' j] that vals by blast
  have "ok k v" if "(k, v) \<in> cached (sh_group s')" for k v
    using assms(2) ok
  proof (cases rule: step_group)
    case (Add which w)
    then have "keys ! i \<notin> fst ` cached ?g" "ok (keys ! i) w" using i vals [OF assms(1)] by auto
    with add_to_facts(2) [OF ok this(1)] Add that cached show ?thesis by auto
  next
    case (Evict which w mb hb)
    with that evict_facts(2,3) [OF ok, of mb hb] cached show ?thesis by (auto simp: cached_def)
  next
    case Same
    with that cached show ?thesis by (simp add: same_caches_cached)
  qed
  with v show ?thesis by (auto simp: value_inv_def)
qed

lemma flight_inv_step:
  assumes "flight_inv ok keys st" and "flight_step ok keys ev st = Some st'"
  shows "flight_inv ok keys st'"
proof -
  obtain ps s where st: "st = (ps, s)" by fastforce
  from assms(2) [unfolded st] obtain i ch p' s' where "i < length ps"
    "thread_step ok (keys ! i) i (ps ! i) ch s = Some (p', s')" "st' = (ps[i := p'], s')" by (rule flight_step_cases)
  with assms(1) st show ?thesis
    using m_inv_step call_inv_step held_inv_step value_inv_step by (simp add: flight_inv_def)
qed

lemma flight_init_inv:
  assumes "caches_ok g" and "\<forall>(k, v) \<in> cached g. ok k v"
  shows "flight_inv ok keys (flight_init g keys)"
  using assms by (simp add: flight_inv_def flight_init_def m_inv_def call_inv_def held_inv_def value_inv_def)

section \<open>Memory\<close>

text \<open>A thread that will look at the sizes again, or has seen enough to evict something.\<close>

fun will_check :: "group \<Rightarrow> pc \<Rightarrow> bool" where
  "will_check g (ReadMain which v) = True"
| "will_check g (ReadHot which v mb) = (nbytes (mainCache g) \<le> mb)"
| "will_check g (Victim which v mb hb) = True"
| "will_check g p = False"

definition bound_inv :: "flight \<Rightarrow> bool" where
  "bound_inv st \<longleftrightarrow> (case st of (ps, s) \<Rightarrow> let g = sh_group s in
     0 < cacheBytes g \<and> cacheBytes g < nbytes (mainCache g) + nbytes (hotCache g) \<longrightarrow> (\<exists>i < length ps. will_check g (ps ! i)))"

lemma step_will_check:
  assumes "thread_step ok key i p ch s = Some (p', s')" and "will_check (sh_group s) p"
    and "cacheBytes (sh_group s) < nbytes (mainCache (sh_group s)) + nbytes (hotCache (sh_group s))"
  shows "(\<exists>which v. p' = ReadMain which v) \<or> sh_group s' = sh_group s \<and> will_check (sh_group s') p'"
  using assms by (cases p) (auto simp: Let_def populated_eq split: if_splits)

lemma bound_inv_step:
  assumes "i < length ps" and "thread_step ok (keys ! i) i (ps ! i) ch s = Some (p', s')"
    and "caches_ok (sh_group s)" and "bound_inv (ps, s)"
  shows "bound_inv (ps[i := p'], s')"
  using assms(2,3)
proof (cases rule: step_group)
  case Same
  let ?g = "sh_group s"
  have g: "nbytes (mainCache (sh_group s')) = nbytes (mainCache ?g)" "nbytes (hotCache (sh_group s')) = nbytes (hotCache ?g)"
    "cacheBytes (sh_group s') = cacheBytes ?g" using Same(3) by (simp_all add: same_caches_def)
  show ?thesis unfolding bound_inv_def prod.case Let_def g
  proof (intro impI)
    assume over: "0 < cacheBytes ?g \<and> cacheBytes ?g < nbytes (mainCache ?g) + nbytes (hotCache ?g)"
    with assms(4) obtain j where j: "j < length ps" "will_check ?g (ps ! j)" by (auto simp: bound_inv_def Let_def)
    have "will_check (sh_group s') (ps[i := p'] ! j)"
    proof (cases "j = i")
      case True
      then show ?thesis using step_will_check [OF assms(2)] j over assms(1) by auto
    next
      case False
      then show ?thesis using j(2) g(1) by (cases "ps ! j") auto
    qed
    with j(1) show "\<exists>i' < length (ps[i := p']). will_check (sh_group s') (ps[i := p'] ! i')" by auto
  qed
qed (use assms(1) in \<open>auto simp: bound_inv_def Let_def intro!: exI [of _ i]\<close>)

section \<open>Every schedule ends\<close>

lemma sum_update: "i < length ps \<Longrightarrow> sum_list (map f (ps[i := p])) + f (ps ! i) = sum_list (map f ps) + (f p :: nat)"
proof (induction ps arbitrary: i)
  case (Cons q ps)
  then show ?case by (cases i) auto
qed simp

fun pending_add :: "pc \<Rightarrow> nat" where
  "pending_add (Wait c) = 0" | "pending_add (ReadMain which v) = 0" | "pending_add (ReadHot which v mb) = 0"
| "pending_add (Victim which v mb hb) = 0" | "pending_add (Finish r) = 0" | "pending_add (Leave r) = 0"
| "pending_add (Returned r) = 0" | "pending_add p = 1"

fun way :: "pc \<Rightarrow> nat" where
  "way Begin = 16" | "way LookHot = 15" | "way Enter = 14" | "way (Wait c) = 1" | "way Look2 = 13" | "way LookHot2 = 12"
| "way Pick = 11" | "way AskPeer = 10" | "way AskLocal = 9" | "way (AddTo which v) = 8" | "way (ReadMain which v) = 8"
| "way (ReadHot which v mb) = 7" | "way (Victim which v mb hb) = 6" | "way (Finish r) = 2" | "way (Leave r) = 1" | "way (Returned r) = 0"

text \<open>A thread whose view of the sizes is outdated may make a round of the eviction loop in vain.\<close>

fun outdated :: "group \<Rightarrow> pc \<Rightarrow> nat" where
  "outdated g (ReadHot which v mb) = (if mb = nbytes (mainCache g) then 0 else 1)"
| "outdated g (Victim which v mb hb) = (if mb = nbytes (mainCache g) \<and> hb = nbytes (hotCache g) then 0 else 1)"
| "outdated g p = 0"

definition flight_weight :: "flight \<Rightarrow> nat" where
  "flight_weight st = (case st of (ps, s) \<Rightarrow>
     (3 * length ps + 3) * (entries (sh_group s) + 2 * sum_list (map pending_add ps))
     + sum_list (map way ps) + 3 * sum_list (map (outdated (sh_group s)) ps))"

lemma outdated_le: "sum_list (map (outdated g) ps) \<le> length ps"
proof (induction ps)
  case (Cons p ps)
  have "outdated g p \<le> 1" by (cases p) simp_all
  with Cons show ?case by simp
qed simp

lemma step_same_weight:
  assumes "thread_step ok key i p ch s = Some (p', s')" and "\<And>which v. p \<noteq> AddTo which v" and "\<And>which v mb hb. p \<noteq> Victim which v mb hb"
  shows "way p' + 3 * outdated (sh_group s) p' < way p + 3 * outdated (sh_group s) p \<and> pending_add p' \<le> pending_add p"
  using assms
  by (cases p) (simp_all add: thread_simps populated_eq populate_eq populated_def populate_def split: thread_splits, auto)

lemma outdated_same: "same_caches g g' \<Longrightarrow> outdated g' p = outdated g p"
  by (cases p) (simp_all add: same_caches_def)

text \<open>A round with correct sizes removes an entry.\<close>

lemma evict_progress:
  assumes "caches_ok g" and "0 < mb + hb"
  shows "entries (evict mb hb g) < entries g
    \<or> evict mb hb g = g \<and> (mb \<noteq> nbytes (mainCache g) \<or> hb \<noteq> nbytes (hotCache g))"
proof (cases "mb = nbytes (mainCache g) \<and> hb = nbytes (hotCache g)")
  case True
  then have "evict mb hb g = group_removeOldest g" by (simp add: evict_def group_removeOldest_def)
  then show ?thesis using group_removeOldest_facts(5) [of g] assms True by (simp add: caches_ok_def entries_def)
next
  case False
  then show ?thesis by (auto simp: evict_def entries_def cache_removeOldest_def)
qed

lemma weight_drop:
  fixes a b c d n w w' :: nat
  assumes "Suc a' \<le> a" and "w' \<le> w + 2" and "b' \<le> n"
  shows "(3 * n + 3) * a' + w' + 3 * b' < (3 * n + 3) * a + w + 3 * b"
proof -
  have "(3 * n + 3) * a' + (3 * n + 3) \<le> (3 * n + 3) * a" using assms(1) by (metis Suc_le_eq add.commute mult_Suc_right mult_le_mono2 Suc_leI)
  with assms(2,3) show ?thesis by linarith
qed

lemma flight_weight_step:
  assumes "flight_inv ok keys st" and "flight_step ok keys ev st = Some st'"
  shows "flight_weight st' < flight_weight st"
proof -
  obtain ps s where st: "st = (ps, s)" by fastforce
  from assms(2) [unfolded st] obtain i ch p' s' where i: "i < length ps"
    and step: "thread_step ok (keys ! i) i (ps ! i) ch s = Some (p', s')" and st': "st' = (ps[i := p'], s')" by (rule flight_step_cases)
  have ok: "caches_ok (sh_group s)" and pc: "pc_ok (keys ! i) (sh_group s) (ps ! i)"
    using assms(1) i st by (auto simp: flight_inv_def held_inv_def)
  let ?g = "sh_group s" and ?g' = "sh_group s'" and ?n = "length ps"
  note P = sum_update [OF i, of pending_add p'] and W = sum_update [OF i, of way p']
  have out: "sum_list (map (outdated ?g') (ps[i := p'])) \<le> ?n" using outdated_le [of ?g' "ps[i := p']"] by simp
  have changed: ?thesis
    if "Suc (entries ?g' + 2 * sum_list (map pending_add (ps[i := p']))) \<le> entries ?g + 2 * sum_list (map pending_add ps)"
      and "sum_list (map way (ps[i := p'])) \<le> sum_list (map way ps) + 2"
    using weight_drop [OF that out] by (simp add: flight_weight_def st st')
  have same: ?thesis
    if "entries ?g' = entries ?g" "\<And>q. outdated ?g' q = outdated ?g q" "pending_add p' \<le> pending_add (ps ! i)"
      "way p' + 3 * outdated ?g p' < way (ps ! i) + 3 * outdated ?g (ps ! i)"
  proof -
    have "sum_list (map pending_add (ps[i := p'])) \<le> sum_list (map pending_add ps)" using P that(3) by linarith
    then have "(3 * ?n + 3) * (entries ?g' + 2 * sum_list (map pending_add (ps[i := p'])))
        \<le> (3 * ?n + 3) * (entries ?g + 2 * sum_list (map pending_add ps))" using that(1) by (intro mult_le_mono2) linarith
    moreover have "outdated ?g' = outdated ?g" using that(2) by blast
    moreover have "sum_list (map way (ps[i := p'])) + 3 * sum_list (map (outdated ?g) (ps[i := p']))
        < sum_list (map way ps) + 3 * sum_list (map (outdated ?g) ps)"
      using W sum_update [OF i, of "outdated ?g" p'] that(4) by linarith
    ultimately show ?thesis unfolding flight_weight_def st st' prod.case length_list_update by (simp only:)
  qed
  show ?thesis using step ok
  proof (cases rule: step_group)
    case (Add which v)
    have "entries ?g' = Suc (entries ?g)" using pc Add add_to_facts(4) [OF ok] by simp
    with P W Add show ?thesis by (intro changed) simp_all
  next
    case (Evict which v mb hb)
    have "0 < mb + hb" using pc Evict by simp
    from evict_progress [OF ok this] show ?thesis
    proof
      assume "entries (evict mb hb ?g) < entries ?g"
      with P W Evict show ?thesis by (intro changed) simp_all
    next
      assume "evict mb hb ?g = ?g \<and> (mb \<noteq> nbytes (mainCache ?g) \<or> hb \<noteq> nbytes (hotCache ?g))"
      with Evict show ?thesis by (intro same) auto
    qed
  next
    case Same
    then show ?thesis using step_same_weight [OF step Same(1,2)] outdated_same [OF Same(3)]
      by (intro same) (auto simp: same_caches_def)
  qed
qed

interpretation flights: finite_machine "flight_step ok keys" "flight_inv ok keys" flight_weight for ok keys
  by unfold_locales (auto intro: flight_inv_step flight_weight_step)

text \<open>No deadlock: a thread that leads can always go on, and a thread that waits, waits for one that leads or for a result.\<close>

lemma go_enabled:
  assumes "\<And>r. p \<noteq> Returned r" and "\<And>c. p = Wait c \<Longrightarrow> sh_calls s c \<noteq> None"
  shows "\<exists>ch. thread_step ok key i p ch s \<noteq> None"
proof -
  have "thread_step ok key i p Go s \<noteq> None \<or> thread_step ok key i p NoPeer s \<noteq> None \<or> thread_step ok key i p (Fail e) s \<noteq> None" for e
    using assms by (cases p) (auto simp: Let_def split: option.split prod.split)
  then show ?thesis by blast
qed

lemma flights_stuck:
  assumes "flight_inv ok keys (ps, s)" and "stuck (flight_step ok keys) (ps, s)" and "i < length ps"
  shows "\<exists>r. ps ! i = Returned r"
proof -
  have none: "thread_step ok (keys ! j) j (ps ! j) ch s = None" if "j < length ps" for j ch
    using stuckD [OF assms(2), of "(j, ch)"] that by simp
  have wait: "ps ! i = Wait c \<longrightarrow> c < length ps \<and> (leads (ps ! c) \<or> sh_calls s c \<noteq> None)" for c
    using assms(1,3) unfolding flight_inv_def call_inv_def prod.case by blast
  have lead: "\<not> leads (ps ! c)" if "c < length ps" for c
  proof
    assume l: "leads (ps ! c)"
    then have "\<exists>ch. thread_step ok (keys ! c) c (ps ! c) ch s \<noteq> None" by (intro go_enabled) auto
    with none [OF that] show False by simp
  qed
  show ?thesis
  proof (rule ccontr)
    assume "\<not> ?thesis"
    then have "\<exists>ch. thread_step ok (keys ! i) i (ps ! i) ch s \<noteq> None" by (intro go_enabled) (use wait lead in auto)
    with none [OF assms(3)] show False by simp
  qed
qed

section \<open>The statistics\<close>

text \<open>A load that is not yet counted as one from a peer, a local one, or a failed one.\<close>

fun uncounted :: "pc \<Rightarrow> nat" where
  "uncounted Pick = 1" | "uncounted AskPeer = 1" | "uncounted AskLocal = 1"
| "uncounted (AddTo which v) = (if which = HotCache then 1 else 0)"
| "uncounted (ReadMain which v) = (if which = HotCache then 1 else 0)"
| "uncounted (ReadHot which v mb) = (if which = HotCache then 1 else 0)"
| "uncounted (Victim which v mb hb) = (if which = HotCache then 1 else 0)"
| "uncounted p = 0"

fun entering :: "pc \<Rightarrow> nat" where
  "entering Enter = 1" | "entering (Wait c) = 1" | "entering Look2 = 1" | "entering LookHot2 = 1" | "entering p = 0"

definition at :: "pc \<Rightarrow> pc \<Rightarrow> nat" where
  "at q p = (if p = q then 1 else 0)"

definition stats_inv :: "flight \<Rightarrow> bool" where
  "stats_inv st \<longleftrightarrow> (case st of (ps, s) \<Rightarrow> let t = sh_stats s; n = \<lambda>f. sum_list (map f ps) in
     Gets t + n (at Begin) = length ps
     \<and> Gets t \<le> CacheHits t + Loads t + n (at LookHot)
     \<and> Loads t + n (at LookHot) \<le> Gets t
     \<and> LoadsDeduped t + n entering \<le> Loads t
     \<and> LoadsDeduped t = PeerLoads t + LocalLoads t + LocalLoadErrs t + n uncounted
     \<and> PeerErrors t \<le> LocalLoads t + LocalLoadErrs t + n (at AskLocal))"

lemma step_stats:
  assumes "thread_step ok key i p ch s = Some (p', s')"
  shows "Gets (sh_stats s') + at Begin p' = Gets (sh_stats s) + at Begin p"
    and "Gets (sh_stats s') + CacheHits (sh_stats s) + Loads (sh_stats s) + at LookHot p
      \<le> Gets (sh_stats s) + CacheHits (sh_stats s') + Loads (sh_stats s') + at LookHot p'"
    and "Loads (sh_stats s') + at LookHot p' + Gets (sh_stats s) \<le> Loads (sh_stats s) + at LookHot p + Gets (sh_stats s')"
    and "LoadsDeduped (sh_stats s') + entering p' + Loads (sh_stats s) \<le> LoadsDeduped (sh_stats s) + entering p + Loads (sh_stats s')"
    and "LoadsDeduped (sh_stats s') + PeerLoads (sh_stats s) + LocalLoads (sh_stats s) + LocalLoadErrs (sh_stats s) + uncounted p
      = LoadsDeduped (sh_stats s) + PeerLoads (sh_stats s') + LocalLoads (sh_stats s') + LocalLoadErrs (sh_stats s') + uncounted p'"
    and "PeerErrors (sh_stats s') + LocalLoads (sh_stats s) + LocalLoadErrs (sh_stats s) + at AskLocal p
      \<le> PeerErrors (sh_stats s) + LocalLoads (sh_stats s') + LocalLoadErrs (sh_stats s') + at AskLocal p'"
  using assms
  by (cases p; force simp: thread_simps populated_def populate_def at_def dest!: look_shared split: thread_splits)+

lemma stats_inv_step:
  assumes "stats_inv st" and "flight_step ok keys ev st = Some st'"
  shows "stats_inv st'"
proof -
  obtain ps s where st: "st = (ps, s)" by fastforce
  from assms(2) [unfolded st] obtain i ch p' s' where i: "i < length ps"
    and step: "thread_step ok (keys ! i) i (ps ! i) ch s = Some (p', s')" and st': "st' = (ps[i := p'], s')" by (rule flight_step_cases)
  note n = sum_update [OF i, of "at Begin" p'] sum_update [OF i, of "at LookHot" p'] sum_update [OF i, of entering p']
    sum_update [OF i, of uncounted p'] sum_update [OF i, of "at AskLocal" p']
  note d = step_stats [OF step]
  show ?thesis using assms(1) n d unfolding stats_inv_def st st' prod.case Let_def length_list_update
    by (intro conjI) linarith+
qed

section \<open>Runs\<close>

lemma group_ok_caches: "group_ok g \<Longrightarrow> caches_ok g"
  by (simp add: group_ok_def caches_ok_def)

lemma flight_step_keeps:
  assumes "flight_step ok keys ev st = Some st'" and "flight_inv ok keys st"
  shows "length (fst st') = length (fst st)" and "cacheBytes (sh_group (snd st')) = cacheBytes (sh_group (snd st))"
    and "bound_inv st \<Longrightarrow> bound_inv st'"
    and "fst st ! i = Wait c \<or> (\<exists>r. fst st ! i = Returned r \<and> sh_calls (snd st) c = Some r)
      \<Longrightarrow> fst st' ! i = Wait c \<or> (\<exists>r. fst st' ! i = Returned r \<and> sh_calls (snd st') c = Some r)"
proof -
  obtain ps s where st: "st = (ps, s)" by fastforce
  from assms(1) [unfolded st] obtain j ch p' s' where j: "j < length ps"
    and step: "thread_step ok (keys ! j) j (ps ! j) ch s = Some (p', s')" and st': "st' = (ps[j := p'], s')" by (rule flight_step_cases)
  have ok: "caches_ok (sh_group s)" and pc: "pc_ok (keys ! j) (sh_group s) (ps ! j)"
    using assms(2) j st by (auto simp: flight_inv_def held_inv_def)
  show "length (fst st') = length (fst st)" by (simp add: st st')
  show "cacheBytes (sh_group (snd st')) = cacheBytes (sh_group (snd st))"
    using step ok by (cases rule: step_group) (simp_all add: st st' add_to_def evict_def same_caches_def split: CacheType.split)
  show "bound_inv st \<Longrightarrow> bound_inv st'" using bound_inv_step [OF j step ok] by (simp add: st st')
  have calls: "sh_calls s' c = Some r" if "sh_calls s c = Some r" for r
    using step
  proof (cases rule: step_calls)
    case (Done r')
    have "ps ! c \<in> {Leave r, Returned r}" using assms(2) that unfolding flight_inv_def call_inv_def st prod.case by blast
    with Done have "c \<noteq> j" by auto
    with Done that show ?thesis by simp
  qed (use that in simp)
  assume "fst st ! i = Wait c \<or> (\<exists>r. fst st ! i = Returned r \<and> sh_calls (snd st) c = Some r)"
  then have i: "ps ! i = Wait c \<or> (\<exists>r. ps ! i = Returned r \<and> sh_calls s c = Some r)" by (simp add: st)
  have "ps[j := p'] ! i = Wait c \<or> (\<exists>r. ps[j := p'] ! i = Returned r \<and> sh_calls s' c = Some r)"
  proof (cases "i = j")
    case True
    with i step j show ?thesis by (auto split: if_splits option.splits)
  qed (use i calls in auto)
  then show "fst st' ! i = Wait c \<or> (\<exists>r. fst st' ! i = Returned r \<and> sh_calls (snd st') c = Some r)" by (simp add: st')
qed

text \<open>All of it along a run.\<close>

definition run_inv :: "(string \<Rightarrow> string \<Rightarrow> bool) \<Rightarrow> string list \<Rightarrow> int \<Rightarrow> flight \<Rightarrow> bool" where
  "run_inv ok keys limit st \<longleftrightarrow> flight_inv ok keys st \<and> bound_inv st \<and> stats_inv st
     \<and> length (fst st) = length keys \<and> cacheBytes (sh_group (snd st)) = limit"

lemma run_inv_step: "run_inv ok keys limit st \<Longrightarrow> flight_step ok keys ev st = Some st' \<Longrightarrow> run_inv ok keys limit st'"
  unfolding run_inv_def using flight_inv_step flight_step_keeps(1-3) stats_inv_step by metis

lemma run_inv_init:
  assumes "group_ok g" and "\<forall>(k, v) \<in> cached g. ok k v"
  shows "run_inv ok keys (cacheBytes g) (flight_init g keys)"
proof -
  have "stats_inv (flight_init g keys)"
    by (simp add: stats_inv_def flight_init_def at_def no_stats_def sum_list_replicate)
  moreover have "bound_inv (flight_init g keys)" using assms(1) by (auto simp: bound_inv_def flight_init_def group_ok_def)
  ultimately show ?thesis using flight_init_inv [OF group_ok_caches [OF assms(1)] assms(2)]
    by (simp add: run_inv_def) (simp add: flight_init_def)
qed

lemma flights_run_inv:
  assumes "group_ok g" and "\<forall>(k, v) \<in> cached g. ok k v" and "run (flight_step ok keys) evs (flight_init g keys) = Some st"
  shows "run_inv ok keys (cacheBytes g) st"
  using assms(3) run_inv_init [OF assms(1,2)] by (rule run_invariant) (rule run_inv_step)

section \<open>Properties\<close>

text \<open>
  C14: concurrent reads end. Any number of calls of Get on one node, for any keys, make only so many steps in any
  interleaving, although the loop that makes room works with sizes that other calls may have changed; and
  when no step is left, every call has returned. So no call waits for ever for another one that loads its key.
\<close>

theorem concurrent_gets_end:
  assumes "group_ok g" and "\<forall>(k, v) \<in> cached g. ok k v" and "run (flight_step ok keys) evs (flight_init g keys) = Some (ps, s)"
  shows "length evs \<le> (3 * length keys + 3) * (length (lru (mainCache g)) + length (lru (hotCache g)) + 2 * length keys) + 16 * length keys
    \<and> (stuck (flight_step ok keys) (ps, s) \<longrightarrow> (\<forall>i < length keys. \<exists>r. ps ! i = Returned r))"
proof -
  have inv: "flight_inv ok keys (flight_init g keys)" by (rule flight_init_inv [OF group_ok_caches [OF assms(1)] assms(2)])
  have "flight_weight (flight_init g keys) =
      (3 * length keys + 3) * (length (lru (mainCache g)) + length (lru (hotCache g)) + 2 * length keys) + 16 * length keys"
    by (simp add: flight_weight_def flight_init_def entries_def sum_list_replicate)
  then have len: "length evs \<le> (3 * length keys + 3) * (length (lru (mainCache g)) + length (lru (hotCache g)) + 2 * length keys) + 16 * length keys"
    using flights.run_length [OF assms(3) inv] by simp
  have "flight_inv ok keys (ps, s)" "length ps = length keys" using flights_run_inv [OF assms] by (simp_all add: run_inv_def)
  then have "\<forall>i < length keys. \<exists>r. ps ! i = Returned r" if "stuck (flight_step ok keys) (ps, s)"
    using flights_stuck that by metis
  with len show ?thesis by blast
qed

text \<open>
  C15: concurrent reads keep the caches in order. In any interleaving, a call returns only a value that
  was answered for its key or was cached for it before, the byte counts are exact at any moment and no key is twice in one cache, which
  rests on the second lookup inside the call in flight; and when all calls have returned, both caches
  together have at most the size they may have.
\<close>

theorem concurrent_gets_safe:
  assumes "group_ok g" and "\<forall>(k, v) \<in> cached g. ok k v" and "run (flight_step ok keys) evs (flight_init g keys) = Some (ps, s)"
  shows "(\<forall>i < length keys. \<forall>v. ps ! i = Returned (Ok v) \<longrightarrow> ok (keys ! i) v)
    \<and> (\<forall>c \<in> {mainCache (sh_group s), hotCache (sh_group s)}.
        distinct (map fst (lru c)) \<and> nbytes c = (\<Sum>e\<leftarrow>lru c. int (length (fst e) + length (snd e))))
    \<and> ((\<forall>i < length keys. \<exists>r. ps ! i = Returned r) \<and> 0 < cacheBytes g \<longrightarrow>
        nbytes (mainCache (sh_group s)) + nbytes (hotCache (sh_group s)) \<le> cacheBytes g)"
proof (intro conjI)
  note inv = flights_run_inv [OF assms]
  then have len: "length ps = length keys" and limit: "cacheBytes (sh_group s) = cacheBytes g" by (simp_all add: run_inv_def)
  show "\<forall>i < length keys. \<forall>v. ps ! i = Returned (Ok v) \<longrightarrow> ok (keys ! i) v"
    using inv by (fastforce simp: run_inv_def flight_inv_def value_inv_def)
  show "\<forall>c \<in> {mainCache (sh_group s), hotCache (sh_group s)}.
      distinct (map fst (lru c)) \<and> nbytes c = (\<Sum>e\<leftarrow>lru c. int (length (fst e) + length (snd e)))"
    using inv by (simp add: run_inv_def flight_inv_def held_inv_def caches_ok_def gcache_ok_def entries_size_def entry_size_def [abs_def])
  show "(\<forall>i < length keys. \<exists>r. ps ! i = Returned r) \<and> 0 < cacheBytes g \<longrightarrow>
      nbytes (mainCache (sh_group s)) + nbytes (hotCache (sh_group s)) \<le> cacheBytes g"
  proof (intro impI, rule ccontr)
    assume "(\<forall>i < length keys. \<exists>r. ps ! i = Returned r) \<and> 0 < cacheBytes g"
      and "\<not> nbytes (mainCache (sh_group s)) + nbytes (hotCache (sh_group s)) \<le> cacheBytes g"
    moreover from this inv limit obtain i where "i < length ps" "will_check (sh_group s) (ps ! i)"
      by (auto simp: run_inv_def bound_inv_def Let_def)
    ultimately show False using len by fastforce
  qed
qed

text \<open>
  C16: one load at a time. Of the calls for one key at most one looks into the databases or asks a peer at any moment, and
  a call that waits returns exactly what the call has got that it waits for, which is for the same key.
\<close>

theorem one_load_per_key:
  assumes "group_ok g" and "\<forall>(k, v) \<in> cached g. ok k v" and "run (flight_step ok keys) evs (flight_init g keys) = Some (ps, s)"
    and "run (flight_step ok keys) evs' (ps, s) = Some (ps', s')" and "i < length keys"
  shows "(\<forall>j < length keys. i \<noteq> j \<and> keys ! i = keys ! j \<and> leads (ps ! i) \<longrightarrow> \<not> leads (ps ! j))
    \<and> (\<forall>c r. ps ! i = Wait c \<and> ps' ! i = Returned r \<longrightarrow> keys ! c = keys ! i \<and> ps' ! c \<in> {Leave r, Returned r})"
proof (intro conjI allI impI)
  note inv = flights_run_inv [OF assms(1-3)]
  then have len: "length ps = length keys" and f: "flight_inv ok keys (ps, s)" by (simp_all add: run_inv_def)
  show "\<not> leads (ps ! j)" if "j < length keys" "i \<noteq> j \<and> keys ! i = keys ! j \<and> leads (ps ! i)" for j
    using m_inv_unique [of keys ps s i j] f len assms(5) that by (auto simp: flight_inv_def)
  fix c r
  assume w: "ps ! i = Wait c \<and> ps' ! i = Returned r"
  moreover have "i < length ps" using len assms(5) by simp
  ultimately show "keys ! c = keys ! i" using f unfolding flight_inv_def call_inv_def prod.case by blast
  let ?P = "\<lambda>st. flight_inv ok keys st \<and> (fst st ! i = Wait c \<or> (\<exists>r. fst st ! i = Returned r \<and> sh_calls (snd st) c = Some r))"
  have "?P (ps', s')"
    by (rule run_invariant [OF assms(4)]) (use f w flight_inv_step flight_step_keeps(4) in auto)
  then have "sh_calls s' c = Some r" "call_inv keys (ps', s')" using w by (auto simp: flight_inv_def)
  then show "ps' ! c \<in> {Leave r, Returned r}" unfolding call_inv_def prod.case by blast
qed

text \<open>
  C17: what the statistics of a node mean, when all calls have returned: every call was counted; every call hit a
  cache or was counted as a load; every load that was really made is counted as one from a peer, a local one, or a failed one;
  and every error of a peer was followed by a local load. The number of loads is not that of the calls without a hit: a
  call may hit after it was counted as a load.
\<close>

theorem statistics_add_up:
  assumes "group_ok g" and "\<forall>(k, v) \<in> cached g. ok k v" and "run (flight_step ok keys) evs (flight_init g keys) = Some (ps, s)"
    and "\<forall>i < length keys. \<exists>r. ps ! i = Returned r" and "t = sh_stats s"
  shows "Gets t = length keys \<and> Loads t \<le> Gets t \<and> Gets t \<le> CacheHits t + Loads t \<and> LoadsDeduped t \<le> Loads t
    \<and> LoadsDeduped t = PeerLoads t + LocalLoads t + LocalLoadErrs t \<and> PeerErrors t \<le> LocalLoads t + LocalLoadErrs t"
proof -
  note inv = flights_run_inv [OF assms(1-3)]
  have zero: "sum_list (map f ps) = 0" if "\<And>r. f (Returned r) = 0" for f :: "pc \<Rightarrow> nat"
  proof -
    have "f (ps ! i) = 0" if "i < length ps" for i using assms(4) inv that \<open>\<And>r. f (Returned r) = 0\<close> by (auto simp: run_inv_def)
    then show ?thesis by (auto simp: in_set_conv_nth)
  qed
  have "sum_list (map (at Begin) ps) = 0" "sum_list (map (at LookHot) ps) = 0" "sum_list (map entering ps) = 0"
    "sum_list (map uncounted ps) = 0" "sum_list (map (at AskLocal) ps) = 0" by (rule zero; simp add: at_def)+
  with inv assms(5) show ?thesis by (simp add: run_inv_def stats_inv_def Let_def)
qed

text \<open>Two calls for one key: one waits for the other; or it comes too late to wait, and finds the value in the cache.\<close>

abbreviation load_k :: "(nat \<times> choice) list" where
  "load_k \<equiv> [(0, Go), (0, Go), (0, NoPeer), (0, Answer ''v'' False), (0, Go), (0, Go), (0, Go), (0, Go), (0, Go)]"

abbreviation wait_run :: "(nat \<times> choice) list" where
  "wait_run \<equiv> [(0, Go), (0, Go), (0, Go), (1, Go), (1, Go), (1, Go)] @ load_k @ [(1, Go)]"

abbreviation late_run :: "(nat \<times> choice) list" where
  "late_run \<equiv> [(0, Go), (0, Go), (0, Go), (1, Go), (1, Go)] @ load_k @ [(1, Go), (1, Go), (1, Go), (1, Go)]"

lemmas flight_eval = flight_init_def NewGroup_def look_def cache_get_def lru_Get_def count_load_def count_deduped_def hit_def
  populate_def populated_def add_to_def cache_add_def lru_Add_def entry_size_def no_stats_def

abbreviation only_v :: "string \<Rightarrow> string \<Rightarrow> bool" where
  "only_v \<equiv> \<lambda>k v. v = ''v''"

lemma new_group_ok: "group_ok (NewGroup 100)" "\<forall>(k, v) \<in> cached (NewGroup 100). ok k v"
  by (simp_all add: NewGroup_def group_ok_def gcache_ok_def cached_def)

lemma wait_run_ends: "\<exists>s. run (flight_step only_v [''k'', ''k'']) wait_run (flight_init (NewGroup 100) [''k'', ''k'']) =
    Some ([Returned (Ok ''v''), Returned (Ok ''v'')], s)"
  by (simp add: flight_eval)

lemma waiting: "\<exists>s. run (flight_step only_v [''k'', ''k'']) ([(0, Go), (0, Go), (0, Go), (1, Go), (1, Go), (1, Go)] @ load_k)
      (flight_init (NewGroup 100) [''k'', ''k'']) = Some ([Returned (Ok ''v''), Wait 0], s)
    \<and> (\<exists>s'. run (flight_step only_v [''k'', ''k'']) [(1, Go)] ([Returned (Ok ''v''), Wait 0], s) = Some ([Returned (Ok ''v''), Returned (Ok ''v'')], s'))"
  by (simp add: flight_eval)

lemma late_run_ends: "\<exists>s. run (flight_step only_v [''k'', ''k'']) late_run (flight_init (NewGroup 100) [''k'', ''k'']) =
    Some ([Returned (Ok ''v''), Returned (Ok ''v'')], s) \<and> Gets (sh_stats s) = 2 \<and> CacheHits (sh_stats s) = 1 \<and> Loads (sh_stats s) = 2"
  by (simp add: flight_eval)

theorem concurrent_gets_end_witness:
  "run (flight_step only_v [''k'', ''k'']) wait_run (flight_init (NewGroup 100) [''k'', ''k'']) \<noteq> None \<and> length wait_run \<le> 68"
proof -
  obtain s where "run (flight_step only_v [''k'', ''k'']) wait_run (flight_init (NewGroup 100) [''k'', ''k'']) =
    Some ([Returned (Ok ''v''), Returned (Ok ''v'')], s)" using wait_run_ends by blast
  with conjunct1 [OF concurrent_gets_end [OF new_group_ok this]] show ?thesis by (simp add: NewGroup_def del: run.simps)
qed

theorem concurrent_gets_safe_witness:
  "\<exists>s. run (flight_step only_v [''k'', ''k'']) wait_run (flight_init (NewGroup 100) [''k'', ''k'']) =
      Some ([Returned (Ok ''v''), Returned (Ok ''v'')], s) \<and> only_v ''k'' ''v''
    \<and> nbytes (mainCache (sh_group s)) + nbytes (hotCache (sh_group s)) \<le> 100"
proof -
  obtain s where s: "run (flight_step only_v [''k'', ''k'']) wait_run (flight_init (NewGroup 100) [''k'', ''k'']) =
    Some ([Returned (Ok ''v''), Returned (Ok ''v'')], s)" using wait_run_ends by blast
  have "\<forall>i < length [''k'', ''k'']. \<exists>r. [Returned (Ok ''v''), Returned (Ok ''v'')] ! i = Returned r" by (simp add: nth_Cons split: nat.split)
  with concurrent_gets_safe [OF new_group_ok s] s show ?thesis by (auto simp: NewGroup_def)
qed

theorem one_load_per_key_witness:
  "\<exists>s s'. run (flight_step only_v [''k'', ''k'']) [(1, Go)] ([Returned (Ok ''v''), Wait 0], s) = Some ([Returned (Ok ''v''), Returned (Ok ''v'')], s')
    \<and> [Returned (Ok ''v''), Returned (Ok ''v'')] ! 0 \<in> {Leave (Ok ''v''), Returned (Ok ''v'')}"
proof -
  obtain s s' where s: "run (flight_step only_v [''k'', ''k'']) ([(0, Go), (0, Go), (0, Go), (1, Go), (1, Go), (1, Go)] @ load_k)
      (flight_init (NewGroup 100) [''k'', ''k'']) = Some ([Returned (Ok ''v''), Wait 0], s)"
    "run (flight_step only_v [''k'', ''k'']) [(1, Go)] ([Returned (Ok ''v''), Wait 0], s) = Some ([Returned (Ok ''v''), Returned (Ok ''v'')], s')"
    using waiting by blast
  have "1 < length [''k'', ''k'']" by simp
  from conjunct2 [OF one_load_per_key [OF new_group_ok s this]] s(2) show ?thesis by fastforce
qed

theorem statistics_add_up_witness:
  "\<exists>s. run (flight_step only_v [''k'', ''k'']) late_run (flight_init (NewGroup 100) [''k'', ''k'']) =
      Some ([Returned (Ok ''v''), Returned (Ok ''v'')], s)
    \<and> Gets (sh_stats s) = 2 \<and> CacheHits (sh_stats s) = 1 \<and> Loads (sh_stats s) = 2
    \<and> LoadsDeduped (sh_stats s) = PeerLoads (sh_stats s) + LocalLoads (sh_stats s) + LocalLoadErrs (sh_stats s)"
proof -
  obtain s where s: "run (flight_step only_v [''k'', ''k'']) late_run (flight_init (NewGroup 100) [''k'', ''k'']) =
      Some ([Returned (Ok ''v''), Returned (Ok ''v'')], s)"
    "Gets (sh_stats s) = 2" "CacheHits (sh_stats s) = 1" "Loads (sh_stats s) = 2" using late_run_ends by blast
  have "\<forall>i < length [''k'', ''k'']. \<exists>r. [Returned (Ok ''v''), Returned (Ok ''v'')] ! i = Returned r" by (simp add: nth_Cons split: nat.split)
  from statistics_add_up [OF new_group_ok s(1) this refl] have
    "LoadsDeduped (sh_stats s) = PeerLoads (sh_stats s) + LocalLoads (sh_stats s) + LocalLoadErrs (sh_stats s)" by blast
  with s show ?thesis by (intro exI [of _ s] conjI)
qed

end
