(* ===== verification/Alone.thy ===== *)
theory Alone
  imports Flight
begin

text \<open>
  A call of \<open>Group.Get\<close> that runs alone in the machine of \<open>Flight\<close> does what the sequential operations of \<open>Groupcache\<close> do, on which
  \<open>CacheTier\<close> is built: the two models of the group agree.
\<close>

section \<open>The caches on the way\<close>

text \<open>
  \<open>alone key g p s\<close>: what the shared state \<open>s\<close> is when the thread is at \<open>p\<close> and the group was \<open>g\<close> before the call. \<open>evicting\<close>: the
  loop that makes room will end where it ends from the start.
\<close>

definition loaded :: "string \<Rightarrow> group \<Rightarrow> string result \<Rightarrow> shared \<Rightarrow> bool" where
  "loaded key g r s \<longleftrightarrow> (case r of
     Inl e \<Rightarrow> sh_group s = g
   | Inr v \<Rightarrow> if LocalLoads (sh_stats s) = 1 then populateCache key v MainCache g = Some (sh_group s)
       else sh_group s = g \<or> populateCache key v HotCache g = Some (sh_group s))"

definition evicting :: "string \<Rightarrow> group \<Rightarrow> CacheType \<Rightarrow> string \<Rightarrow> shared \<Rightarrow> bool" where
  "evicting key g which v s \<longleftrightarrow> 0 < cacheBytes g \<and> cacheBytes (sh_group s) = cacheBytes g
     \<and> evict_loop (sh_group s) = evict_loop (add_to which key v g) \<and> LocalLoads (sh_stats s) = (if which = MainCache then 1 else 0)"

fun alone :: "string \<Rightarrow> group \<Rightarrow> pc \<Rightarrow> shared \<Rightarrow> bool" where
  "alone key g Begin s \<longleftrightarrow> sh_group s = g \<and> LocalLoads (sh_stats s) = 0"
| "alone key g LookHot s \<longleftrightarrow> sh_group s = g \<and> LocalLoads (sh_stats s) = 0 \<and> 0 < cacheBytes g \<and> fst (cache_get key (mainCache g)) = None"
| "alone key g (Wait c) s \<longleftrightarrow> False"
| "alone key g LookHot2 s \<longleftrightarrow> sh_group s = g \<and> LocalLoads (sh_stats s) = 0 \<and> 0 < cacheBytes g \<and> fst (lookupCache key g) = None"
| "alone key g (AddTo which v) s \<longleftrightarrow> sh_group s = g \<and> 0 < cacheBytes g \<and> fst (lookupCache key g) = None
     \<and> LocalLoads (sh_stats s) = (if which = MainCache then 1 else 0)"
| "alone key g (ReadMain which v) s \<longleftrightarrow> fst (lookupCache key g) = None \<and> evicting key g which v s"
| "alone key g (ReadHot which v mb) s \<longleftrightarrow> fst (lookupCache key g) = None \<and> evicting key g which v s \<and> mb = nbytes (mainCache (sh_group s))"
| "alone key g (Victim which v mb hb) s \<longleftrightarrow> fst (lookupCache key g) = None \<and> evicting key g which v s
     \<and> mb = nbytes (mainCache (sh_group s)) \<and> hb = nbytes (hotCache (sh_group s)) \<and> \<not> mb + hb \<le> cacheBytes g"
| "alone key g (Finish r) s \<longleftrightarrow> fst (lookupCache key g) = None \<and> loaded key g r s"
| "alone key g (Leave r) s \<longleftrightarrow> fst (lookupCache key g) = None \<and> loaded key g r s"
| "alone key g (Returned r) s \<longleftrightarrow> (case lookupCache key g of (Some v, g') \<Rightarrow> r = Ok v \<and> sh_group s = g' | (None, g') \<Rightarrow> loaded key g r s)"
| "alone key g p s \<longleftrightarrow> sh_group s = g \<and> LocalLoads (sh_stats s) = 0 \<and> fst (lookupCache key g) = None"

lemma cache_get_miss: "fst (cache_get key c) = None \<Longrightarrow> cache_get key c = (None, c)"
  by (auto simp: cache_get_def lru_Get_def split: option.splits)

lemma look_eq:
  "look MainCache key s = (fst (cache_get key (mainCache (sh_group s))),
    s\<lparr>sh_group := (sh_group s)\<lparr>mainCache := snd (cache_get key (mainCache (sh_group s)))\<rparr>\<rparr>)"
  "look HotCache key s = (fst (cache_get key (hotCache (sh_group s))),
    s\<lparr>sh_group := (sh_group s)\<lparr>hotCache := snd (cache_get key (hotCache (sh_group s)))\<rparr>\<rparr>)"
  by (simp_all add: look_def Let_def split: prod.split)

lemma look_same:
  "fst (cache_get key (mainCache (sh_group s))) = None \<Longrightarrow> look MainCache key s = (None, s)"
  "fst (cache_get key (hotCache (sh_group s))) = None \<Longrightarrow> look HotCache key s = (None, s)"
  by (cases s; cases "sh_group s"; simp add: look_eq cache_get_miss)+

lemma evict_alone: "evict (nbytes (mainCache g)) (nbytes (hotCache g)) g = group_removeOldest g"
  by (simp add: evict_def group_removeOldest_def)

lemma populate_alone: "0 < cacheBytes g \<Longrightarrow> populateCache key v which g = evict_loop (add_to which key v g)"
  by (simp add: populateCache_def add_to_def)

lemma lookup_main: "fst (cache_get key (mainCache g)) = Some v \<Longrightarrow> 0 < cacheBytes g \<Longrightarrow>
    lookupCache key g = (Some v, g\<lparr>mainCache := snd (cache_get key (mainCache g))\<rparr>)"
  by (auto simp: lookupCache_def split: prod.splits)

lemma lookup_hot: "fst (cache_get key (mainCache g)) = None \<Longrightarrow> 0 < cacheBytes g \<Longrightarrow>
    lookupCache key g = (fst (cache_get key (hotCache g)), g\<lparr>hotCache := snd (cache_get key (hotCache g))\<rparr>)"
  by (cases g) (auto simp: lookupCache_def cache_get_miss Let_def split: prod.split)

lemma lookup_none: "fst (lookupCache key g) = None \<longleftrightarrow>
    cacheBytes g \<le> 0 \<or> fst (cache_get key (mainCache g)) = None \<and> fst (cache_get key (hotCache g)) = None"
  by (auto simp: lookupCache_def Let_def split: prod.splits option.splits)

lemma lookup_none_same:
  assumes "fst (lookupCache key g) = None"
  shows "lookupCache key g = (None, g)"
proof (cases "cacheBytes g \<le> 0")
  case False
  with assms have m: "fst (cache_get key (mainCache g)) = None" "fst (cache_get key (hotCache g)) = None" by (simp_all add: lookup_none)
  with False lookup_hot [OF m(1)] cache_get_miss [OF m(2)] show ?thesis by (cases g) simp
qed (simp add: lookupCache_def)

lemma populated_loads [simp]: "LocalLoads (sh_stats (snd (populated which v s))) = LocalLoads (sh_stats s)"
  by (simp add: populated_def split: CacheType.split)

lemma loaded_shared [simp]: "loaded key g r (s\<lparr>sh_calls := cs\<rparr>) = loaded key g r s" "loaded key g r (s\<lparr>sh_m := m\<rparr>) = loaded key g r s"
  by (cases r; simp add: loaded_def)+

text \<open>The end of \<open>populateCache\<close>.\<close>

lemma loaded_evicted:
  assumes "evicting key g which v s" and "nbytes (mainCache (sh_group s)) + nbytes (hotCache (sh_group s)) \<le> cacheBytes (sh_group s)"
  shows "loaded key g (Ok v) (snd (populated which v s))"
proof -
  have "evict_loop (sh_group s) = Some (sh_group s)" using assms(2) by (subst evict_loop.simps) simp
  with assms(1) show ?thesis by (cases which) (simp_all add: evicting_def loaded_def populate_alone)
qed

lemma alone_populate:
  assumes "sh_group s = g" and "fst (lookupCache key g) = None" and "LocalLoads (sh_stats s) = (if which = MainCache then 1 else 0)"
    and "populate which v s = (p', s')"
  shows "alone key g p' s'"
  using assms by (cases which) (auto simp: populate_def populated_eq loaded_def populateCache_def split: if_splits)

text \<open>A call that does not lead is not in flight.\<close>

lemma alone_step:
  assumes "thread_step ok key i p ch s = Some (p', s')" and "alone key g p s" and "p = Enter \<Longrightarrow> sh_m s key = None"
  shows "alone key g p' s'"
proof (cases p)
  case Begin
  have g: "sh_group s = g" "LocalLoads (sh_stats s) = 0" using assms(2) Begin by simp_all
  show ?thesis
  proof (cases "cacheBytes g \<le> 0")
    case False
    show ?thesis
    proof (cases "fst (cache_get key (mainCache g))")
      case None
      with assms(1) Begin g False show ?thesis by (auto simp: look_same Let_def split: if_splits)
    next
      case (Some v)
      with assms(1) Begin g False lookup_main [OF Some] show ?thesis by (auto simp: look_eq hit_def Let_def split: if_splits)
    qed
  qed (use assms(1) Begin g in \<open>auto simp: lookup_none count_load_def Let_def split: if_splits\<close>)
next
  case LookHot
  then have g: "sh_group s = g" "LocalLoads (sh_stats s) = 0" "0 < cacheBytes g" "fst (cache_get key (mainCache g)) = None"
    using assms(2) by simp_all
  show ?thesis
  proof (cases "fst (cache_get key (hotCache g))")
    case None
    with assms(1) LookHot g show ?thesis by (auto simp: look_same lookup_none count_load_def split: if_splits)
  next
    case (Some v)
    with assms(1) LookHot g lookup_hot [OF g(4,3)] show ?thesis by (auto simp: look_eq hit_def split: if_splits)
  qed
next
  case Enter
  with assms show ?thesis by (auto split: if_splits)
next
  case (Wait c)
  with assms show ?thesis by simp
next
  case Look2
  with assms show ?thesis by (auto simp: look_same lookup_none count_deduped_def split: if_splits)
next
  case LookHot2
  with assms show ?thesis by (auto simp: look_same lookup_none count_deduped_def split: if_splits)
next
  case Pick
  with assms show ?thesis by (auto split: if_splits)
next
  case AskPeer
  with assms show ?thesis
    by (auto simp: populated_eq loaded_def lookup_none_same split: choice.splits if_splits intro: alone_populate)
next
  case AskLocal
  with assms show ?thesis
    by (auto simp: loaded_def split: choice.splits if_splits elim!: alone_populate [rotated 3])
next
  case (AddTo which v)
  with assms show ?thesis by (auto simp: evicting_def add_to_def split: if_splits CacheType.splits)
next
  case (ReadMain which v)
  with assms show ?thesis by (auto split: if_splits)
next
  case (ReadHot which v mb)
  then have e: "evicting key g which v s" "cacheBytes (sh_group s) = cacheBytes g" "mb = nbytes (mainCache (sh_group s))"
      "fst (lookupCache key g) = None" using assms(2) by (simp_all add: evicting_def)
  with assms(1) ReadHot loaded_evicted [OF e(1)] show ?thesis by (auto simp: populated_eq Let_def split: if_splits)
next
  case (Victim which v mb hb)
  then have e: "evict mb hb (sh_group s) = group_removeOldest (sh_group s)" using assms(2) by (simp add: evict_alone)
  have "evict_loop (sh_group s) = evict_loop (group_removeOldest (sh_group s))"
    using assms(2) Victim by (subst evict_loop.simps) (simp add: evicting_def)
  moreover have "cacheBytes (group_removeOldest (sh_group s)) = cacheBytes (sh_group s)" by (simp add: group_removeOldest_def)
  ultimately show ?thesis using assms(1,2) Victim e by (auto simp: evicting_def split: if_splits)
next
  case (Finish r)
  with assms show ?thesis by (auto split: if_splits)
next
  case (Leave r)
  with assms show ?thesis by (auto simp: lookup_none_same split: if_splits)
next
  case (Returned r)
  with assms show ?thesis by simp
qed

section \<open>Property\<close>

text \<open>
  C18: a call of Get that runs alone does what the sequential model says. It returns a cached value, after which the caches are as
  lookupCache leaves them; or else, from caches which the lookup has left as they were, it returns an error and changes nothing, or a value,
  which populateCache has put into the main cache when it was loaded locally, and when it came from a peer, into the
  hot cache or into none. The second lookup, the map of the calls in flight and the loop on separately read sizes make no difference.
\<close>

theorem call_alone_is_sequential:
  assumes "run (flight_step ok [key]) evs (flight_init g [key]) = Some ([Returned r], s)"
  shows "case lookupCache key g of
      (Some v, g') \<Rightarrow> r = Ok v \<and> sh_group s = g'
    | (None, g') \<Rightarrow> g' = g \<and> (case r of
        Inl e \<Rightarrow> sh_group s = g
      | Inr v \<Rightarrow> if LocalLoads (sh_stats s) = 1 then populateCache key v MainCache g = Some (sh_group s)
          else sh_group s = g \<or> populateCache key v HotCache g = Some (sh_group s))"
proof -
  let ?P = "\<lambda>(ps, s). length ps = 1 \<and> m_inv [key] (ps, s) \<and> alone key g (ps ! 0) s"
  have "?P ([Returned r], s)"
  proof (rule run_invariant [OF assms])
    show "?P (flight_init g [key])"
      by (simp add: flight_init_def m_inv_def no_stats_def)
    fix ev st st'
    assume inv: "?P st" and step: "flight_step ok [key] ev st = Some st'"
    obtain ps t where st: "st = (ps, t)" by fastforce
    from step obtain i ch p' t' where i: "i < length ps" "thread_step ok ([key] ! i) i (ps ! i) ch t = Some (p', t')" "st' = (ps[i := p'], t')"
      unfolding st by (rule flight_step_cases)
    have "sh_m t key = None" if "ps ! 0 = Enter" 
    proof (rule ccontr)
      assume "sh_m t key \<noteq> None"
      then obtain c where "sh_m t key = Some c" by blast
      with inv have "c = 0" "leads (ps ! c)" by (auto simp: st m_inv_def)
      with that show False by simp
    qed
    with i inv m_inv_step [OF i(1,2)] alone_step [of ok key 0 "ps ! 0" ch t p' t' g] show "?P st'"
      by (auto simp: st)
  qed
  then have r: "alone key g (Returned r) s" by simp
  show ?thesis
  proof (cases "fst (lookupCache key g)")
    case None
    note same = lookup_none_same [OF this]
    with r show ?thesis by (simp only: same alone.simps loaded_def prod.case option.case simp_thms)
  next
    case (Some v)
    with r show ?thesis by (cases "lookupCache key g") simp
  qed
qed

text \<open>A call that loads the value from the databases, and one that finds it.\<close>

lemma load_run: "\<exists>s. run (flight_step only_v [''k'']) ([(0, Go), (0, Go), (0, Go)] @ load_k) (flight_init (NewGroup 100) [''k'']) =
    Some ([Returned (Ok ''v'')], s) \<and> LocalLoads (sh_stats s) = 1"
  by (simp add: flight_eval)

theorem call_alone_is_sequential_witness:
  "\<exists>s. run (flight_step only_v [''k'']) ([(0, Go), (0, Go), (0, Go)] @ load_k) (flight_init (NewGroup 100) [''k'']) =
      Some ([Returned (Ok ''v'')], s) \<and> populateCache ''k'' ''v'' MainCache (NewGroup 100) = Some (sh_group s)"
proof -
  obtain s where s: "run (flight_step only_v [''k'']) ([(0, Go), (0, Go), (0, Go)] @ load_k) (flight_init (NewGroup 100) [''k'']) =
      Some ([Returned (Ok ''v'')], s)" "LocalLoads (sh_stats s) = 1" using load_run by blast
  have "lookupCache ''k'' (NewGroup 100) = (None, NewGroup 100)" by (simp add: lookupCache_def NewGroup_def cache_get_def lru_Get_def)
  with call_alone_is_sequential [OF s(1)] s(2) have "populateCache ''k'' ''v'' MainCache (NewGroup 100) = Some (sh_group s)" by simp
  with s(1) show ?thesis by (intro exI conjI)
qed

end
