(* ===== verification/Requests.thy ===== *)
theory Requests
  imports CacheTier
begin

text \<open>
  Requests between cache nodes that have been told different lists of peers, as while a node joins or leaves. A node that misses
  a key asks the peer that its own list gives for it. These requests cannot run in a circle as long as every
  list is sorted, as \<open>handleMeta\<close> leaves it, and has the node itself in it, as the cache master sends it: every request
  goes to a node whose points on the ring are nearer to the hash of the key.
\<close>

section \<open>Model\<close>

text \<open>Node \<open>i\<close> asks node \<open>j\<close> for the key.\<close>

definition asks :: "tier \<Rightarrow> string \<Rightarrow> nat \<Rightarrow> nat \<Rightarrow> bool" where
  "asks T key i j \<longleftrightarrow> i < length T \<and> (case pick T i key of
     None \<Rightarrow> False | Some p \<Rightarrow> (case peer_request T p key of None \<Rightarrow> False | Some (j', k) \<Rightarrow> j' = j \<and> k = key))"

definition own_lists :: "tier \<Rightarrow> bool" where
  "own_lists T \<longleftrightarrow> (\<forall>s\<in>set T. plain_addr (node_nodeAddr (srv_node s)) \<and> pool_self (srv_node s) = MakeURL (node_nodeAddr (srv_node s))
     \<and> sorted (pool_peers (srv_node s)) \<and> (\<forall>p\<in>set (pool_peers (srv_node s)). plain_addr p \<and> MakeURL p = p)
     \<and> (pool_peers (srv_node s) = [] \<or> pool_self (srv_node s) \<in> set (pool_peers (srv_node s))))"

section \<open>The order of the ring\<close>

definition peer_hashes :: "string \<Rightarrow> int set" where
  "peer_hashes p = set (map fst (peer_points p))"

text \<open>How far a point is from the hash of the key, going round the ring, and the nearest point of a peer.\<close>

definition ahead :: "string \<Rightarrow> int \<Rightarrow> int" where
  "ahead key x = (if uint (ChecksumIEEE key) \<le> x then x else x + 2 ^ 32)"

definition distance :: "string \<Rightarrow> string \<Rightarrow> int" where
  "distance key p = Min (ahead key ` peer_hashes p)"

lemma peer_hashes_facts [simp]: "finite (peer_hashes p)" "peer_hashes p \<noteq> {}"
  by (simp_all add: peer_hashes_def peer_points_def upto.simps)

lemma peer_hashes_range: "x \<in> peer_hashes p \<Longrightarrow> 0 \<le> x \<and> x < 2 ^ 32"
  by (auto simp: peer_hashes_def peer_points_def uint_ge_0 intro: uint_lt2p [of "_ :: 32 word", simplified])

lemma ahead_inj: "x \<in> peer_hashes p \<Longrightarrow> y \<in> peer_hashes q \<Longrightarrow> ahead key x = ahead key y \<Longrightarrow> x = y"
  using peer_hashes_range [of x p] peer_hashes_range [of y q] uint_ge_0 [of "ChecksumIEEE key"] by (auto simp: ahead_def split: if_splits)

lemma clockwise_nearest:
  assumes "finite S" and "x \<in> S" and "\<forall>y\<in>S. 0 \<le> y \<and> y < 2 ^ 32"
  shows "ahead key (clockwise S (uint (ChecksumIEEE key))) \<le> ahead key x"
proof -
  let ?h = "uint (ChecksumIEEE key)"
  have c: "clockwise S ?h \<in> S" using assms(1,2) by (intro clockwise_in) auto
  show ?thesis
  proof (cases "\<exists>p\<in>S. ?h \<le> p")
    case True
    then obtain p where "p \<in> S" "?h \<le> p" by blast
    from clockwise_hit [OF assms(1) this] have h: "?h \<le> clockwise S ?h" by simp
    have "clockwise S ?h = Min {p \<in> S. ?h \<le> p}" using True by (simp add: clockwise_def)
    then have "clockwise S ?h \<le> x" if "?h \<le> x" using that assms(1,2) by (auto intro: Min_le)
    moreover have "clockwise S ?h < 2 ^ 32" using c assms(3) by blast
    ultimately show ?thesis using h assms(2,3) by (auto simp: ahead_def)
  next
    case False
    then have "clockwise S ?h = Min S" by (simp add: clockwise_def)
    then have "clockwise S ?h \<le> x" using assms(1,2) by simp
    with False c assms(2) show ?thesis by (auto simp: ahead_def)
  qed
qed

text \<open>The point that decides is the first of all; of several peers that have it, the last in the list owns the key.\<close>

lemma pool_Get_clockwise:
  assumes "peers \<noteq> []"
  shows "map_of (rev (concat (map peer_points peers))) (clockwise (\<Union> (peer_hashes ` set peers)) (uint (ChecksumIEEE key))) =
    Some (pool_Get peers key)"
proof -
  let ?ks = "pool_keys peers" and ?h = "uint (ChecksumIEEE key)" and ?ps = "concat (map peer_points peers)"
  let ?i = "search (\<lambda>i. ?ks ! i \<ge> ?h) 0 (length ?ks)" and ?t = "length (takeWhile (\<lambda>k. k < ?h) ?ks)"
  have srt: "sorted ?ks" and ne: "?ks \<noteq> []" using assms by (simp_all add: pool_keys_def pool_keys_Nil [unfolded pool_keys_def])
  have ks: "set ?ks = \<Union> (peer_hashes ` set peers)" by (auto simp: pool_keys_def peer_hashes_def)
  have t: "?i = ?t" "?t \<le> length ?ks"
    using sorted_threshold [OF srt] by (auto simp: length_takeWhile_le intro!: search_threshold)
  then have c: "clockwise (set ?ks) ?h = ?ks ! (if ?i = length ?ks then 0 else ?i)"
    using srt ne sorted_threshold [OF srt, of _ ?h] by (intro clockwise_sorted) auto
  have "clockwise (set ?ks) ?h \<in> set ?ks" by (rule clockwise_in) (use ne in auto)
  then have "clockwise (set ?ks) ?h \<in> fst ` set (rev ?ps)" by (simp add: pool_keys_def)
  then obtain p where "map_of (rev ?ps) (clockwise (set ?ks) ?h) = Some p" by (metis map_of_eq_None_iff not_None_eq)
  with ne show ?thesis by (simp add: pool_Get_def Let_def pool_hashMap_def map_of_foldl_put c [symmetric] ks [symmetric])
qed

lemma map_of_rev_points:
  assumes "sorted peers" and "map_of (rev (concat (map peer_points peers))) x = Some p"
  shows "x \<in> peer_hashes p \<and> (\<forall>q\<in>set peers. x \<in> peer_hashes q \<longrightarrow> q \<le> p)"
  using assms
proof (induction peers)
  case (Cons r peers)
  have r: "map_of (rev (peer_points r)) x = (if x \<in> peer_hashes r then Some r else None)"
  proof -
    have "q = r" if "map_of (rev (peer_points r)) x = Some q" for q
      using map_of_SomeD [OF that] by (auto simp: peer_points_def)
    moreover have "map_of (rev (peer_points r)) x = None \<longleftrightarrow> x \<notin> peer_hashes r" by (simp add: map_of_eq_None_iff peer_hashes_def)
    ultimately show ?thesis by (cases "map_of (rev (peer_points r)) x") auto
  qed
  show ?case
  proof (cases "map_of (rev (concat (map peer_points peers))) x")
    case None
    then have "x \<notin> peer_hashes q" if "q \<in> set peers" for q
      using that by (auto simp: map_of_eq_None_iff peer_hashes_def)
    with None Cons.prems r show ?thesis by (auto simp: map_add_def split: if_splits)
  next
    case (Some p')
    then have "p' = p" using Cons.prems(2) by (simp add: map_add_def)
    moreover have "p \<in> set peers" using Some \<open>p' = p\<close> map_of_SomeD [OF Some] by (auto simp: peer_points_def)
    ultimately show ?thesis using Cons.IH Some Cons.prems(1) by auto
  qed
qed simp

lemma owner_nearest:
  assumes "sorted peers" and "q \<in> set peers" and "q \<noteq> pool_Get peers key"
  shows "distance key (pool_Get peers key) < distance key q
    \<or> distance key (pool_Get peers key) = distance key q \<and> q < pool_Get peers key"
proof -
  let ?S = "\<Union> (peer_hashes ` set peers)" and ?p = "pool_Get peers key"
  let ?x = "clockwise ?S (uint (ChecksumIEEE key))"
  have ne: "peers \<noteq> []" using assms(2) by auto
  from map_of_rev_points [OF assms(1) pool_Get_clockwise [OF ne]]
  have x: "?x \<in> peer_hashes ?p" and last: "\<forall>q\<in>set peers. ?x \<in> peer_hashes q \<longrightarrow> q \<le> ?p" by auto
  have fin: "finite ?S" "\<forall>y\<in>?S. 0 \<le> y \<and> y < 2 ^ 32" using peer_hashes_range by auto
  have least: "ahead key ?x \<le> ahead key y" if "y \<in> peer_hashes r" "r \<in> set peers" for y r
    by (rule clockwise_nearest [OF fin(1) _ fin(2)]) (use that in blast)
  have "?p \<in> set peers" by (rule pool_Get_peer [OF ne])
  then have d: "distance key ?p = ahead key ?x" unfolding distance_def using x least by (intro Min_eqI) auto
  have "distance key q \<in> ahead key ` peer_hashes q" unfolding distance_def by (rule Min_in) simp_all
  then obtain y where y: "y \<in> peer_hashes q" "distance key q = ahead key y" by blast
  show ?thesis
  proof (cases "ahead key ?x = ahead key y")
    case True
    then have "?x \<in> peer_hashes q" using ahead_inj [OF x y(1) True] y(1) by simp
    with last assms(2,3) True d y(2) show ?thesis by force
  next
    case False
    with least [OF y(1) assms(2)] d y(2) show ?thesis by simp
  qed
qed

section \<open>Properties\<close>

text \<open>A request goes to a nearer node.\<close>

lemma asks_nearer:
  assumes "own_lists T" and "asks T key i j"
  defines "p \<equiv> pool_self (srv_node (T ! i))" and "q \<equiv> pool_self (srv_node (T ! j))"
  shows "j < length T \<and> (distance key q < distance key p \<or> distance key q = distance key p \<and> p < q)"
proof -
  obtain u k where i: "i < length T" and u: "pick T i key = Some u" "peer_request T u key = Some (j, k)"
    using assms(2) by (auto simp: asks_def split: option.splits prod.splits)
  let ?ps = "pool_peers (srv_node (T ! i))"
  have T: "T ! i \<in> set T" using i by simp
  have pk: "u \<in> set ?ps" "u \<noteq> p" "u = pool_Get ?ps key" using PickPeer_peer u(1) by (auto simp: pick_def p_def)
  then have addr: "plain_addr u" "MakeURL u = u" and own: "p \<in> set ?ps" "sorted ?ps"
    using assms(1) T by (auto simp: own_lists_def p_def)
  note r = peer_request_key [OF addr u(2)]
  then have j: "T ! j \<in> set T" by simp
  then have "plain_addr (node_nodeAddr (srv_node (T ! j)))" "q = MakeURL (node_nodeAddr (srv_node (T ! j)))"
    using assms(1) by (auto simp: own_lists_def q_def)
  then have "q = u" using plain_addr_URL [OF addr(1)] addr(2) plain_addr_URL r by simp
  with owner_nearest [OF own(2,1)] pk r show ?thesis by auto
qed

text \<open>
  C20: requests do not run in a circle. Let every cache node have a sorted list of peers with itself in it, or none, each
  its own. Then a request for a key that is passed from node to node never comes back to a node that waits for it,
  so that no two loads wait for each other.
\<close>

theorem no_request_cycle:
  assumes "own_lists T" and "(asks T key)\<^sup>+\<^sup>+ i j"
  shows "i \<noteq> j"
proof -
  let ?d = "\<lambda>i. distance key (pool_self (srv_node (T ! i)))" and ?p = "\<lambda>i. pool_self (srv_node (T ! i))"
  have "?d j < ?d i \<or> ?d j = ?d i \<and> ?p i < ?p j"
    using assms(2)
  proof (induction rule: tranclp_induct)
    case (base j)
    with asks_nearer [OF assms(1)] show ?case by blast
  next
    case (step j k)
    with asks_nearer [OF assms(1) step(2)] show ?case by force
  qed
  then show ?thesis by auto
qed

text \<open>Two nodes that know each other: one of them asks the other one for a key.\<close>

abbreviation pair_peers :: "string list" where
  "pair_peers \<equiv> [''http://a:2'', ''http://b:2'']"

definition pair_nodes :: tier where
  "pair_nodes = map (\<lambda>n. \<lparr>srv_node = (node_New ''a:1'' n ''m:1'')\<lparr>pool_peers := pair_peers\<rparr>, srv_group = NewGroup (CacheBytes Config)\<rparr>) [''a:2'', ''b:2'']"

lemma pair_urls:
  "MakeURL ''a:2'' = ''http://a:2''" "MakeURL ''b:2'' = ''http://b:2''" "MakeURL ''http://a:2'' = ''http://a:2''" "MakeURL ''http://b:2'' = ''http://b:2''"
  by (simp_all add: MakeURL_def HasPrefix_def TrimSuffix_def)

lemma pair_hosts: "addr_host ''a:2'' = ''a:2''" "addr_host ''b:2'' = ''b:2''" "addr_host ''http://a:2'' = ''a:2''" "addr_host ''http://b:2'' = ''b:2''"
  by (simp_all add: addr_host_def pair_urls)

lemma pair_request:
  "peer_request pair_nodes ''http://a:2'' ''k'' = Some (0, ''k'')" "peer_request pair_nodes ''http://b:2'' ''k'' = Some (1, ''k'')"
  using Parse_http_plain [of "''a:2''" "''oncekv/kv/k''"] Parse_http_plain [of "''b:2''" "''oncekv/kv/k''"]
  by (simp_all add: peer_URL_def basePath_def defaultGroup_def escape_char_def query_escapes_def is_alnum_def plain_host_def host_char_def
      peer_request_def served_key_def HasPrefix_def split_url_def node_New_def pair_hosts upt_rec pair_nodes_def)

theorem no_request_cycle_witness: "\<exists>i j. asks pair_nodes ''k'' i j \<and> i \<noteq> j"
proof -
  have "plain_addr ''a:2''" "plain_addr ''b:2''" "plain_addr ''http://a:2''" "plain_addr ''http://b:2''"
    by (simp_all add: plain_addr_def pair_urls pair_hosts HasPrefix_def plain_host_def host_char_def is_alnum_def)
  then have own: "own_lists pair_nodes" by (simp add: own_lists_def pair_nodes_def node_New_def pair_urls less_eq_char_def)
  have "pool_Get pair_peers ''k'' \<in> {''http://a:2'', ''http://b:2''}" using pool_Get_peer [of pair_peers "''k''"] by simp
  moreover have "pick pair_nodes 0 ''k'' = Some ''http://b:2''" if "pool_Get pair_peers ''k'' = ''http://b:2''"
    using that by (simp add: pick_def PickPeer_def pool_keys_Nil pair_nodes_def node_New_def pair_urls)
  moreover have "pick pair_nodes 1 ''k'' = Some ''http://a:2''" if "pool_Get pair_peers ''k'' = ''http://a:2''"
    using that by (simp add: pick_def PickPeer_def pool_keys_Nil pair_nodes_def node_New_def pair_urls)
  moreover have "length pair_nodes = 2" by (simp add: pair_nodes_def)
  ultimately have "asks pair_nodes ''k'' 0 1 \<or> asks pair_nodes ''k'' 1 0"
    by (auto simp: asks_def pair_request)
  then obtain i j where a: "asks pair_nodes ''k'' i j" by blast
  have "(asks pair_nodes ''k'')\<^sup>+\<^sup>+ i j" using a by (rule tranclp.r_into_trancl)
  from no_request_cycle [OF own this] a show ?thesis by blast
qed

end
