(* ===== verification/Spec2Isabelle.thy ===== *)
theory Spec2Isabelle
  imports Writes Recovery ShardMaster ServiceRuns Programs Alone Requests
begin

text \<open>
  oncekv, a write-once key/value store: a verification of its Go sources (under \<open>src/\<close>).

  \<^bold>\<open>The program.\<close> Database nodes hold the pairs. Each runs an HTTP service (\<open>db/node/service\<close>) over a raft-replicated map
  (\<open>db/node/store\<close>), whose log lives in a bolt file (\<open>raftboltdb\<close>). The addresses of the nodes are kept in a
  meta store, etcd (\<open>meta\<close>), by the database master (\<open>db/master\<close>), which also pings the nodes and takes dead ones off the list.
  Cache nodes (\<open>cache/node\<close>) answer reads from groupcache and fetch what they miss from the databases; the cache
  master (\<open>cache/master\<close>) keeps their list and posts peers and databases to them. The client library (\<open>client\<close>) reads through
  the caches, falls back to the databases, and writes to the databases. An admin server (\<open>admin\<close>) shows the lists. Beside
  it stand a consistent hash ring (\<open>utils/consistenthash\<close>) and an unfinished shard master (\<open>db/master/shardmaster.go\<close>).

  \<^bold>\<open>The theories\<close>, in the order they build on each other.
  \<^item> \<open>Prelude\<close>: errors, results, HTTP responses, strings, maps. \<open>Json\<close>, \<open>JsonValue\<close>: the text format of \<open>encoding/json\<close>
    (escaping, parsing, binding to structs) with the round trip of printing and parsing. \<open>Gin\<close>: the response a handler builds.
    \<open>Machine\<close>: schedules of goroutines and why they end.
  \<^item> \<open>Urlutil\<close>, \<open>Config\<close>, \<open>Log\<close>, \<open>Meta\<close>: the packages \<open>utils/urlutil\<close>, \<open>config\<close>, \<open>log\<close>, \<open>meta\<close> and \<open>utils/mock/meta.go\<close>.
    The locale \<open>meta_store\<close> is the contract of the meta store; it is interpreted on the in-memory store and holds for
    etcd under the documented behaviour of its client (\<open>etcd_client\<close>).
  \<^item> \<open>DbMaster\<close> (\<open>db/master/master.go\<close>, \<open>key.go\<close>), \<open>Store\<close> (\<open>db/node/store\<close>, \<open>utils/mock/store.go\<close>; the locales \<open>raft_fsm\<close>, what raft
    needs of a state machine, and \<open>once_store\<close>, what the service needs of a store), \<open>RaftBolt\<close> (\<open>raftboltdb\<close>; the locales
    \<open>log_store\<close> and \<open>msgpack\<close>), \<open>Service\<close> (\<open>db/node/service\<close>), \<open>ServiceRuns\<close> (sequences of requests and of what else happens to a store).
  \<^item> \<open>CacheMaster\<close> (\<open>cache/master\<close>), \<open>CacheNode\<close> (\<open>cache/node\<close>) with the read fan-out \<open>FanOut\<close> (locale \<open>read_fan_out\<close>), which the client
    has too; \<open>SetFan\<close> and \<open>CacheFan\<close>, the other two fan-outs of \<open>client/kv.go\<close>; \<open>Client\<close> (\<open>client\<close>).
  \<^item> \<open>ConsistentHash\<close> (\<open>utils/consistenthash\<close>), \<open>ShardMaster\<close> (\<open>db/master/shardmaster.go\<close>), \<open>Admin\<close> (\<open>admin\<close>), \<open>Programs\<close> (the \<open>Start\<close> methods
    and \<open>example/\<close>).
  \<^item> \<open>Url\<close> (parsing and escaping of \<open>net/url\<close>), \<open>HttpNet\<close> (\<open>http.Get\<close> over servers, and the clusters of doubles of \<open>utils/mock/http.go\<close>),
    \<open>Groupcache\<close> (the vendored \<open>github.com/golang/groupcache\<close>: the pool of peers, the two caches and their eviction), \<open>CacheTier\<close> (reads
    across several cache nodes), \<open>Requests\<close> (requests between nodes whose lists of peers differ), \<open>Flight\<close> (concurrent calls of \<open>Group.Get\<close>
    on one node as a machine, with \<open>singleflight\<close> and the statistics), \<open>Alone\<close> (the machine against the sequential model).
  \<^item> \<open>Cluster\<close> (how a database becomes known), \<open>ReadPath\<close> (from a write to the body that a client reads), \<open>Replication\<close> (replicas
    and the log they share, with crashes and restarts), \<open>Recovery\<close> (log file and snapshot on one disk), \<open>System\<close> (databases, cache
    nodes and clients together), \<open>Writes\<close> (the client's writes to it), and this theory with the properties of the whole.

  \<^bold>\<open>How the code is modelled.\<close> A struct is a record, a method a function on it that returns the new state; the meta store is threaded
  beside it. Go's pair of value and error is \<open>'a result\<close>, a bare error \<open>error\<close>, a panic the error \<open>GoPanic\<close>. HTTP handlers
  map a request to a gin context and a new state, and \<open>serve\<close> routes a request to them. Loops are recursive functions on
  what they consume; the endless ones (tickers, watches, websockets) are functions on their first ticks. Where goroutines share variables
  the model is a machine whose steps are the critical sections and channel operations, and an operation
  that runs one has the set of its possible outcomes over all interleavings. Indexes and hashes are 64 and 32 bit words. The
  JSON parser recurses on fuel and is given twice the length of its input plus two; the lemma \<open>parse_fuel\<close> shows that more fuel
  would change nothing.

  \<^bold>\<open>Parameters.\<close> Not code of this program, and therefore arguments: the outcome of a raft future, the peers
  raft reports and the order of committed entries; the etcd client; \<open>bolt.Open\<close> and commits; the msgpack and gob codecs;
  the network, as the answer and duration of every request, where a post of the client may also never end (the posts of the masters and of joining
  nodes end with an answer or an error, and the body of an answer is read to its end); the order in which Go
  iterates over a map; configor, logrus, and the upgrade to a websocket; the map of \<open>raft.Stats\<close>, which a store answers \<open>Stats\<close> with and of which only its
  documented keys are used (\<open>plain_stats\<close>). In \<open>System\<close> the network is no longer a parameter: an answer is what
  a modelled server gives, now or at an earlier moment, or there is none.

  \<^bold>\<open>What is shown.\<close> The storage system: in any run of all its parts, what a client reads is the committed value of the key
  (\<open>client_reads_committed\<close>), what the answers to its writes mean (\<open>Put_reported_done\<close>), and a cached value stays it for ever (\<open>cache_never_stale\<close>); a database that crashes comes back with the committed
  values (\<open>restart_recovers\<close>), and its files recover to what was appended to them (\<open>disk_recovers\<close>); what a client puts at the leader it can read through a cache node, over the URLs that the code builds (\<open>written_then_read\<close>); replicas agree and a key keeps its first value
  (the lemmas \<open>replicas_write_once\<close> and \<open>store_first_write_wins\<close>); log compaction is transparent (\<open>snapshot_restore_replay\<close>) and every store that
  elections, requests, replicated entries and restored snapshots lead to can be snapshotted and restored (\<open>service_keeps_store_restorable\<close>). Membership: a joining database is published
  and reaches the cache nodes (\<open>join_is_published\<close>, \<open>heartbeat_informs_node\<close>), heartbeats remove the dead ones only
  (\<open>heartbeat_removes_exactly_the_dead\<close>, and the lemma \<open>cm_heartbeat_keeps_the_answering\<close>), and the cache master's map survives a restart. The client and the
  cache node: what any interleaving of a fan-out can return, that it ends whichever requests hang and what it leaves
  behind (\<open>fan_out_ends\<close>, \<open>client_calls_return\<close>, which also says when Put never returns); the memory of a cache node is bounded (\<open>cache_memory_bounded\<close>) and making room in it ends (\<open>populateCache_ends\<close>); a key has one
  loader among the cache nodes (\<open>owner_loads_itself\<close>), and requests between nodes that have been told different peers do not run in
  a circle (\<open>no_request_cycle\<close>). Concurrent reads of one node return (\<open>concurrent_gets_end\<close>), leave its caches in order (\<open>concurrent_gets_safe\<close>),
  load a key once at a time (\<open>one_load_per_key\<close>), and its counters add up (\<open>statistics_add_up\<close>); one call alone does
  what the sequential model does (\<open>call_alone_is_sequential\<close>). The log store: atomic batches, exact deletion, first and last index, the order of keys. The
  ring: the successor of a hash, and that adding keys moves strings to the new keys only. The store double answers
  like the store but for two answers (\<open>double_answers_like_store\<close>).
  Several properties pin down where the code does not do what it seems meant to: duplicate and failed writes that are reported
  as done, a client that cannot read from databases, a join that a concurrent removal overwrites, an outage of
  the meta store that empties the cache cluster, a shared error variable in the write fan-out, a Put that waits for ever for its fast database, keys that are
  written into URLs as they are (\<open>keys_in_URLs\<close>).

  \<^bold>\<open>Not modelled.\<close> Vendored code other than groupcache; of groupcache the encoding of an answer and the counter
  \<open>ServerRequests\<close>; raft itself, which is taken at its word (one log of
  committed entries, applied in order); how \<open>net/http\<close> writes a parsed URL into a request line, which the server parses again;
  the text that is logged; the body of gin's redirects; listening on sockets; memory races on a map that is read without its
  lock.
\<close>

section \<open>Properties\<close>

text \<open>
  C1: a client reads committed values only. Start any number of database nodes, and let anything happen in the system:
  writes, elections, snapshots, crashes, cache nodes that come and go and read from one another and from whatever
  database they think of. Let a client with any lists of servers read a key, in a network where an answer is one that a
  server of the system gave at some moment, or is missing or late. If Get returns a value in any of its
  interleavings, this value has been committed for this key, and it is the committed value of the key for
  ever after.
\<close>

theorem client_reads_committed:
  assumes "plain_stats st" and "sys_run st env (sys_init svcs) s" and "answers_from st env (sys_init svcs) s net"
    and "(v, None, c') \<in> kv_Get net key c" and "sys_run st env s s'"
  shows "committed (sys_log s) key = Some v \<and> committed (sys_log s') key = Some v"
proof -
  obtain u where "served net key u v" using kv_Get_value [OF assms(4)] by blast
  then have "committed (sys_log s) key = Some v" by (rule served_committed [OF assms(1,3)])
  moreover have "sys_inv s" using sys_run_inv [OF assms(2,1) sys_init_inv] by blast
  ultimately show ?thesis using committed_stays [OF assms(5,1)] by blast
qed

text \<open>One database that takes a write, one cache node that reads it, and a client that reads from the cache node.\<close>

theorem client_reads_committed_witness:
  "(''v'', None, demo_client) \<in> kv_Get demo_net ''k'' demo_client \<and> committed (sys_log demo) ''k'' = Some ''v''"
  using client_reads_committed [OF stats0_plain demo_run demo_answers demo_kv_Get, of demo] demo_kv_Get by simp

text \<open>
  C2: a cache is never stale. Whatever happened in the system, let a cache node keep a body, in either of its
  caches. What a client reads from this body as the value of a key is the value committed for the key, and after any
  further events it still is, and no replica has another one. This is why the caches need no invalidation.
\<close>

theorem cache_never_stale:
  assumes "plain_stats st" and "sys_run st env (sys_init svcs) s" and "srv \<in> set (sys_tier s)" and "(name, b) \<in> cached (srv_group srv)"
    and "parseData (Ok b) key = Ok v" and "sys_run st env s s'"
  shows "committed (sys_log s) key = Some v \<and> committed (sys_log s') key = Some v
    \<and> (\<forall>r\<in>set (cl_replicas (hd (sys_past s'))). store_contents (rep_store r) key \<in> {None, Some v})"
proof -
  have inv: "sys_inv s" using sys_run_inv [OF assms(2,1) sys_init_inv] by blast
  then have "tier_ok (honest (sys_log s)) (sys_tier s)" by (simp add: sys_inv_def)
  then have "honest (sys_log s) b" by (rule tier_ok_cached [OF _ assms(3,4)])
  then have v: "committed (sys_log s) key = Some v" using assms(5) by (simp add: honest_def)
  note v' = committed_stays [OF assms(6,1) inv v]
  have "sys_inv s'" using sys_run_inv [OF assms(6,1) inv] by blast
  then have c: "cl_inv (hd (sys_past s'))" by (auto simp: sys_inv_def)
  have "store_contents (rep_store r) key \<in> {None, Some v}" if "r \<in> set (cl_replicas (hd (sys_past s')))" for r
  proof -
    have "store_contents (rep_store r) \<subseteq>\<^sub>m committed (sys_log s')"
      using that c by (intro rep_ok_committed) (simp_all add: cl_inv_def sys_log_def)
    with v' show ?thesis by (cases "store_contents (rep_store r) key") (auto simp: map_le_def dom_def)
  qed
  with v v' show ?thesis by blast
qed

theorem cache_never_stale_witness:
  "\<exists>s. sys_step stats0 env1 demo s \<and> (\<exists>srv\<in>set (sys_tier s). (''k'', demo_body) \<in> cached (srv_group srv))
     \<and> committed (sys_log s) ''k'' = Some ''v''"
proof -
  obtain T srv where T: "tier_get (cl_getter stats0 env1 demo_written) {} (sys_tier demo) 0 ''k'' (Ok demo_body) T"
      "srv \<in> set T" "(''k'', demo_body) \<in> cached (srv_group srv)" using demo_read by blast
  have step: "sys_step stats0 env1 demo (demo\<lparr>sys_tier := T\<rparr>)" by (rule sys_step.CacheRead [OF demo_answered T(1)])
  have run: "sys_run stats0 env1 (sys_init [svc1]) (demo\<lparr>sys_tier := T\<rparr>)" using demo_run step ..
  have "parseData (Ok demo_body) ''k'' = Ok ''v''" by (simp add: parseData_kvResp)
  from cache_never_stale [OF stats0_plain run _ T(3) this rtranclp.rtrancl_refl] T(2,3) step show ?thesis by fastforce
qed

text \<open>
  C4: a pair that is written can be read through a cache. At any point of a run of the system, let a client put a pair with a key
  that can stand in a URL as it is, at the database that leads and has applied all there is, where the key is fresh; and let a cache node
  know this database, own the key and not have it. Then the database can answer the POST of the client with StatusOK, on which
  set reports the write as done, and after that the cache node can answer the GET of the client with a body from which the client takes
  exactly the value written, whatever characters JSON has to escape. All URLs are those that the code builds from the addresses.
\<close>

theorem written_then_read:
  assumes "sys_run st env (sys_init svcs) s" and "cl = hd (sys_past s)" and "i < length (cl_replicas cl)" and "r = cl_replicas cl ! i"
    and "raftAddr (rep_svc r) = raft_Leader (rep_store r)" and "raft_State (rep_store r) = Leader"
    and "rep_applied r = length (committed_log cl)" and "store_contents (rep_store r) k = None"
    and "plain_addr db" and "\<forall>l<length (cl_replicas cl). addr_host (httpAddr (rep_svc (cl_replicas cl ! l))) = addr_host db \<longleftrightarrow> l = i"
    and "valid_utf8 k" and "valid_utf8 v" and "k \<noteq> []" and "v \<noteq> []" and "set k \<inter> {CHR ''/'', CHR ''%'', CHR ''?'', CHR ''#''} = {}"
    and "j < length (sys_tier s)" and "srv = sys_tier s ! j" and "db \<in> set (node_dbs (srv_node srv))" and "node_fastDB (srv_node srv) = []"
    and "pick (sys_tier s) j k = None" and "k \<notin> fst ` cached (srv_group srv)"
    and "plain_addr cache" and "addr_host (node_httpAddr (srv_node srv)) = addr_host cache"
  shows "\<exists>s1 resp. sys_POST env s (MakeURL db @ ''/key'') (kv_body k v) (answer 200 (json_of_Status StatusOK)) s1
    \<and> (\<forall>post d. post (MakeURL db @ ''/key'') (kv_body k v) = Some (d, Ok (answer 200 (json_of_Status StatusOK)))
         \<longrightarrow> kv_set post k v db = Some (d, None))
    \<and> sys_GET st env s1 (MakeURL cache @ ''/key/'' @ k) resp
    \<and> (\<forall>net d t. net (MakeURL cache @ ''/key/'' @ k) = (d, Ok resp) \<longrightarrow> d \<le> t \<longrightarrow> kv_find net k cache t = (v, d, None))"
proof -
  let ?c = "cl_step env (Write i None (kv_body k v)) cl" and ?b = "print_json (json_of_kvResp k v)"
  let ?s1 = "s\<lparr>sys_past := ?c # sys_past s\<rparr>" and ?resp = "\<lparr>StatusCode = 200, Body = Ok (print_json (json_of_kvResp k v))\<rparr>"
  have key: "CHR ''/'' \<notin> set k" "set k \<inter> special = {}" using assms(15) by auto
  have POST: "sys_POST env s (MakeURL db @ ''/key'') (kv_body k v) (answer 200 (json_of_Status StatusOK)) ?s1"
    by (rule leader_accepts) (use assms in simp_all)
  have "\<exists>r'. db_at ?c (addr_host db) = Some r' \<and> raftAddr (rep_svc r') = raft_Leader (rep_store r') \<and> store_contents (rep_store r') k = Some v"
    by (rule leader_has_written) (use assms in simp_all)
  then obtain r' where r': "db_at ?c (addr_host db) = Some r'" "raftAddr (rep_svc r') = raft_Leader (rep_store r')"
      "store_contents (rep_store r') k = Some v" by blast
  have "node_find (cl_getter st env ?c) k db = Ok ?b" by (rule db_read [OF assms(9) r' assms(14,13) key])
  from node_read [OF this assms(18,19)] obtain nd where nd: "(?b, None, nd) \<in> fetchData (cl_getter st env ?c) k (srv_node (sys_tier s ! j))"
    using assms(17) by blast
  have "\<exists>T. tier_get (cl_getter st env ?c) {} (sys_tier s) j k (Ok ?b) T"
    by (rule tier_read [OF sys_run_tier [OF assms(1)] assms(16,20) _ nd]) (use assms(17,21) in simp)
  then obtain T where T: "tier_get (cl_getter st env ?c) {} (sys_tier ?s1) j k (Ok ?b) T" by auto
  have ans: "answered_by st env (sys_past ?s1) (cl_getter st env ?c)" by (simp add: answered_by_def)
  have "sys_GET st env ?s1 (MakeURL cache @ ''/key/'' @ k) ?resp"
    by (rule cache_answers_client [OF ans T _ assms(22) _ assms(13) key]) (use assms(16,17,23) in simp_all)
  moreover have "kv_find net k cache t = (v, d, None)" if "net (MakeURL cache @ ''/key/'' @ k) = (d, Ok ?resp)" and "d \<le> t" for net d t
    using that assms(11,12,14) by (simp add: kv_find_def parseData_kvResp)
  ultimately show ?thesis using POST by (intro exI [of _ ?s1] exI [of _ ?resp]) (simp add: kv_set_nil)
qed

text \<open>The run of \<open>demo\<close> up to the write, with a cache node that knows the database.\<close>

abbreviation demo_ready :: system where
  "demo_ready \<equiv> \<lparr>sys_past = [demo_elected, cl_init [svc1]], sys_tier = [\<lparr>srv_node = demo_node, srv_group = NewGroup (CacheBytes Config)\<rparr>]\<rparr>"

lemma demo_run_ready: "sys_run stats0 env1 (sys_init [svc1]) demo_ready"
proof -
  let ?new = "new_server ''a:1'' ''a:2'' ''m:1''"
  have "sys_step stats0 env1 demo_before (demo_before\<lparr>sys_tier := [?new]\<rparr>)"
    using sys_step.StartCache [of stats0 env1 demo_before] by simp
  moreover have "sys_step stats0 env1 (demo_before\<lparr>sys_tier := [?new]\<rparr>) demo_ready"
    using sys_step.JoinMaster [of 0 "demo_before\<lparr>sys_tier := [?new]\<rparr>" "\<lambda>_. Ok \<lparr>param_Peers = [], param_DBs = [''h:1'']\<rparr>" None demo_node stats0 env1]
    by (simp add: node_join_def new_server_def)
  ultimately show ?thesis using demo_run_before by (meson rtranclp.rtrancl_into_rtrancl)
qed

theorem written_then_read_witness:
  "\<exists>s1 resp. sys_POST env1 demo_ready ''http://h:1/key'' (kv_body ''k'' ''<v>'') (answer 200 (json_of_Status StatusOK)) s1
    \<and> sys_GET stats0 env1 s1 ''http://a:1/key/k'' resp
    \<and> kv_find (\<lambda>url. (1, if url = ''http://a:1/key/k'' then Ok resp else Err (Errorf ''refused''))) ''k'' ''a:1'' 100 = (''<v>'', 1, None)"
proof -
  let ?r = "cl_replicas demo_elected ! 0" and ?srv = "\<lparr>srv_node = demo_node, srv_group = NewGroup (CacheBytes Config)\<rparr>"
  have r: "length (cl_replicas demo_elected) = 1" "rep_svc ?r = svc1" "rep_applied ?r = length (committed_log demo_elected)"
      "raft_Leader (rep_store ?r) = ''r:1''" "raft_State (rep_store ?r) = Leader" "store_contents (rep_store ?r) ''k'' = None"
    by (simp_all add: demo_elected_def cl_init_def set_replica_def New_store_def)
  have miss: "pick (sys_tier demo_ready) 0 ''k'' = None" "''k'' \<notin> fst ` cached (srv_group ?srv)"
    by (simp_all add: pick_def PickPeer_def pool_keys_Nil cached_def NewGroup_def)
  have lead: "raftAddr (rep_svc ?r) = raft_Leader (rep_store ?r)" using r by simp
  have only: "\<forall>l<length (cl_replicas demo_elected). addr_host (httpAddr (rep_svc (cl_replicas demo_elected ! l))) = addr_host ''h:1'' \<longleftrightarrow> l = 0"
    using r(1,2) by (simp add: h1_host)
  have "\<exists>s1 resp. sys_POST env1 demo_ready (MakeURL ''h:1'' @ ''/key'') (kv_body ''k'' ''<v>'') (answer 200 (json_of_Status StatusOK)) s1
    \<and> (\<forall>post d. post (MakeURL ''h:1'' @ ''/key'') (kv_body ''k'' ''<v>'') = Some (d, Ok (answer 200 (json_of_Status StatusOK)))
         \<longrightarrow> kv_set post ''k'' ''<v>'' ''h:1'' = Some (d, None))
    \<and> sys_GET stats0 env1 s1 (MakeURL ''a:1'' @ ''/key/'' @ ''k'') resp
    \<and> (\<forall>net d t. net (MakeURL ''a:1'' @ ''/key/'' @ ''k'') = (d, Ok resp) \<longrightarrow> d \<le> t \<longrightarrow> kv_find net ''k'' ''a:1'' t = (''<v>'', d, None))"
    by (rule written_then_read [where cl = demo_elected and i = 0 and r = ?r and j = 0 and srv = ?srv,
        OF demo_run_ready _ _ refl lead r(5,3,6) h1_host(3) only _ _ _ _ _ _ _ _ _ miss a1_host(3)])
      (simp_all add: r(1) a1_host(2) node_New_def)
  then obtain s1 resp where w: "sys_POST env1 demo_ready (MakeURL ''h:1'' @ ''/key'') (kv_body ''k'' ''<v>'') (answer 200 (json_of_Status StatusOK)) s1"
      "sys_GET stats0 env1 s1 (MakeURL ''a:1'' @ ''/key/'' @ ''k'') resp"
    and f: "\<forall>net d t. net (MakeURL ''a:1'' @ ''/key/'' @ ''k'') = (d, Ok resp) \<longrightarrow> d \<le> t \<longrightarrow> kv_find net ''k'' ''a:1'' t = (''<v>'', d, None)"
    by blast
  let ?net = "\<lambda>url. (1, if url = ''http://a:1/key/k'' then Ok resp else Err (Errorf ''refused''))"
  have "kv_find ?net ''k'' ''a:1'' 100 = (''<v>'', 1, None)"
    using spec [OF spec [OF spec [OF f, of ?net], of 1], of 100] by (simp add: a1_host)
  with w show ?thesis by (intro exI [of _ s1] exI [of _ resp]) (simp add: a1_host h1_host)
qed

text \<open>
  C7: the client cannot read from a database. It asks for GET /key/<key>, which the database service does
  not serve (its route is /i/key/<key>), so that it is answered with 404 and a read that falls back
  to the databases reports the key as not found whatever the store holds.
\<close>

theorem client_db_read_not_found:
  assumes "serve S svc s ''GET'' (''/key/'' @ key) [] = Some (resp, s')"
    and "net (MakeURL u @ ''/key/'' @ key) = (d, Ok resp)" and "d \<le> timeout"
  shows "kv_find net key u timeout = ([], d, Some kv_ErrDataNotFound)"
proof -
  have "route_of ''GET'' (''/key/'' @ key) = NoRoute"
    by (auto simp: route_of_def registered_def strip_slash_def HasPrefix_def butlast_append split: if_splits)
  then have "resp = \<lparr>StatusCode = 404, Body = Ok ''404 page not found''\<rparr>"
    using assms(1) unfolding serve_def by simp
  with assms(2,3) show ?thesis by (simp add: kv_find_def)
qed

theorem client_db_read_not_found_witness:
  "kv_find (\<lambda>url. (1, Ok \<lparr>StatusCode = 404, Body = Ok ''404 page not found''\<rparr>)) ''k'' ''h:1'' 100 = ([], 1, Some kv_ErrDataNotFound)"
proof (rule client_db_read_not_found)
  show "serve raft1 svc1 (leading [(''k'', ''v'')]) ''GET'' (''/key/'' @ ''k'') [] =
      Some (\<lparr>StatusCode = 404, Body = Ok ''404 page not found''\<rparr>, leading [(''k'', ''v'')])"
    by (simp add: serve_def route_of_def registered_def strip_slash_def HasPrefix_def)
qed simp_all

text \<open>
  C8: a write that failed is reported as done. When the log entry of a write is not committed (the raft
  future ends with an error), the leader answers with StatusInternalError but with HTTP status 200, which is
  all the client looks at: the store is unchanged and set reports no error.
\<close>

theorem failed_write_reported_done:
  assumes "raftAddr svc = raft_Leader s" and "raft_State s = Leader" and "valid_utf8 k" and "valid_utf8 v"
    and "fut = Some err" and "err \<noteq> ErrKeyDuplicated"
    and "serve (raft_store stats env fut ap) svc s ''POST'' ''/key'' (kv_body k v) = Some (resp, s')"
    and "post (MakeURL u @ ''/key'') (kv_body k v) = Some (d, Ok resp)"
  shows "resp = answer 200 (json_of_Status StatusInternalError) \<and> s' = s \<and> kv_set post k v u = Some (d, None)"
proof -
  have "resp = answer 200 (json_of_Status StatusInternalError)" "s' = s"
    using assms by (auto simp: serve_post handleSet_eq kv_body_params store_Add_eq)
  with assms(8) show ?thesis by (simp add: kv_set_nil)
qed

theorem failed_write_reported_done_witness:
  "kv_set (\<lambda>url b. Some (1, Ok (answer 200 (json_of_Status StatusInternalError)))) ''k'' ''v'' ''h:1'' = Some (1, None)"
proof -
  have "serve (raft_store (\<lambda>_. []) env1 (Some (Errorf ''leadership lost'')) (\<lambda>a. Ok [a])) svc1 (leading []) ''POST'' ''/key'' (kv_body ''k'' ''v'')
      = Some (answer 200 (json_of_Status StatusInternalError), leading [])"
    by (simp add: serve_post handleSet_eq kv_body_params store_Add_eq ErrKeyDuplicated_def)
  from failed_write_reported_done [OF _ _ _ _ refl _ this, where u = "''h:1''" and d = 1]
  show ?thesis by (simp add: ErrKeyDuplicated_def)
qed

end
